(* ===== verification/Prelude.thy ===== *)
theory Prelude
  imports Main "HOL-Library.Monad_Syntax" "HOL-Library.Product_Lexorder"
    "HOL-Library.Multiset" "HOL-Library.Sublist"
begin

text \<open>
  Shared base of the FuzzyLog development: the machine types the Rust sources use, checked
  arithmetic, panics, and the generic lemmas on options, lists and maps the components share.

  A Rust computation that may panic is a value of type \<open>'a option\<close>: \<open>None\<close> is a panic (the
  workspace is built with \<^verbatim>\<open>panic = 'abort'\<close>, so a panic ends the server and nothing after it
  is observable), \<open>Some x\<close> is a normal return. The \<open>do\<close> notation of \<open>option\<close> is then the
  sequencing of Rust statements. The model is of the \<^verbatim>\<open>dev\<close> profile of \<^verbatim>\<open>src/Cargo.toml\<close>:
  \<^verbatim>\<open>debug_assert!\<close> is checked and integer overflow panics. Rust's own \<open>Result\<close> is a sum with
  \<open>Inl\<close> for \<open>Err\<close>; Rust's own \<open>Option\<close> is \<open>option\<close> again, nested inside the outer one.
\<close>

named_theorems rust_simps \<open>unfolding of checked arithmetic, assertions and lookups\<close>

section \<open>Types\<close>

type_synonym u64 = nat
type_synonym uuid = nat
type_synonym order = nat
type_synonym entry = nat
type_synonym order_index = "order \<times> entry"
type_synonym val_edge = nat
type_synonym storage_ptr = nat

datatype ordering = Less | Equal | Greater

section \<open>Checked arithmetic and assertions\<close>

definition u64_max :: u64 where
  "u64_max = 18446744073709551615"

definition u64_add :: "u64 \<Rightarrow> u64 \<Rightarrow> u64 option" where
  "u64_add a b = (if a + b \<le> u64_max then Some (a + b) else None)"

definition u64_sub :: "u64 \<Rightarrow> u64 \<Rightarrow> u64 option" where
  "u64_sub a b = (if b \<le> a then Some (a - b) else None)"

definition rust_assert :: "bool \<Rightarrow> unit option" where
  "rust_assert b = (if b then Some () else None)"

definition cmp_u64 :: "'a::linorder \<Rightarrow> 'a \<Rightarrow> ordering" where
  "cmp_u64 a b = (if a < b then Less else if a = b then Equal else Greater)"

fun ord_reverse :: "ordering \<Rightarrow> ordering" where
  "ord_reverse Less = Greater"
| "ord_reverse Equal = Equal"
| "ord_reverse Greater = Less"

lemma u64_add_eq_Some [rust_simps]: "u64_add a b = Some c \<longleftrightarrow> c = a + b \<and> a + b \<le> u64_max"
  by (auto simp: u64_add_def)

lemma u64_add_Some_iff: "(\<exists>c. u64_add a b = Some c) \<longleftrightarrow> a + b \<le> u64_max"
  by (auto simp: u64_add_def)

lemma u64_sub_eq_Some [rust_simps]: "u64_sub a b = Some c \<longleftrightarrow> c = a - b \<and> b \<le> a"
  by (auto simp: u64_sub_def)

lemma rust_assert_eq_Some [rust_simps]: "rust_assert b = Some u \<longleftrightarrow> b"
  by (auto simp: rust_assert_def)

lemma rust_assert_True [simp]: "rust_assert True = Some ()"
  by (simp add: rust_assert_def)

lemma cmp_u64_eq_iff [simp]:
  "cmp_u64 a b = Less \<longleftrightarrow> a < b"
  "cmp_u64 a b = Equal \<longleftrightarrow> a = b"
  "cmp_u64 a b = Greater \<longleftrightarrow> b < a"
  by (auto simp: cmp_u64_def)

lemma ord_reverse_cmp: "ord_reverse (cmp_u64 a b) = cmp_u64 b a"
  by (auto simp: cmp_u64_def)

section \<open>Options, lists and maps\<close>

lemma bind_eq_Some [rust_simps]: "Option.bind m f = Some y \<longleftrightarrow> (\<exists>x. m = Some x \<and> f x = Some y)"
  by (cases m) auto

lemma map_upd_None_dom: "dom (m(k := None)) = dom m - {k}"
  by auto

lemma sorted_wrt_tlD: "sorted_wrt P (x # xs) \<Longrightarrow> sorted_wrt P xs"
  by simp

lemma sorted_wrt_list_update:
  assumes "sorted_wrt P xs" "i < length xs"
    and "\<And>j. j < i \<Longrightarrow> P (xs ! j) (xs ! i) \<Longrightarrow> P (xs ! j) y"
    and "\<And>j. i < j \<Longrightarrow> j < length xs \<Longrightarrow> P (xs ! i) (xs ! j) \<Longrightarrow> P y (xs ! j)"
  shows "sorted_wrt P (xs[i := y])"
  unfolding sorted_wrt_iff_nth_less
proof (intro allI impI)
  fix a b
  assume ab: "a < b" "b < length (xs[i := y])"
  then have P: "P (xs ! a) (xs ! b)"
    using assms(1) by (simp add: sorted_wrt_iff_nth_less)
  consider "a = i" | "b = i" | "a \<noteq> i" "b \<noteq> i" by blast
  then show "P (xs[i := y] ! a) (xs[i := y] ! b)"
    using ab P assms(2) assms(3) [of a] assms(4) [of b] by cases (simp_all)
qed

lemma map_list_update_same:
  "i < length xs \<Longrightarrow> f y = f (xs ! i) \<Longrightarrow> map f (xs[i := y]) = map f xs"
  by (metis list_update_id map_update)

lemma strict_sorted_appendI:
  "\<lbrakk>sorted_wrt (<) xs; sorted_wrt (<) ys; \<And>x y. x \<in> set xs \<Longrightarrow> y \<in> set ys \<Longrightarrow> x < y\<rbrakk>
   \<Longrightarrow> sorted_wrt (<) (xs @ (ys::'a::linorder list))"
  by (auto simp: sorted_wrt_append)

end
