(* ===== verification/Binary_Heap.thy ===== *)
theory Binary_Heap
  imports Prelude
begin

text \<open>
  The part of \<^verbatim>\<open>std::collections::BinaryHeap\<close> the sources use: \<open>push\<close>, \<open>peek\<close>, \<open>pop\<close> and
  \<open>is_empty\<close> over the element type's \<open>Ord::cmp\<close>. The heap is kept as the list of its elements,
  greatest first, so \<open>peek\<close> and \<open>pop\<close> take the head. \<open>cmp\<close> may panic, and then so does \<open>push\<close>.
\<close>

fun heap_push :: "('a \<Rightarrow> 'a \<Rightarrow> ordering option) \<Rightarrow> 'a \<Rightarrow> 'a list \<Rightarrow> 'a list option" where
  "heap_push cmp x [] = Some [x]"
| "heap_push cmp x (y # ys) =
     (case cmp x y of
        None \<Rightarrow> None
      | Some Greater \<Rightarrow> Some (x # y # ys)
      | Some _ \<Rightarrow> map_option ((#) y) (heap_push cmp x ys))"

definition heap_peek :: "'a list \<Rightarrow> 'a option" where
  "heap_peek h = (case h of [] \<Rightarrow> None | x # _ \<Rightarrow> Some x)"

definition heap_pop :: "'a list \<Rightarrow> 'a option \<times> 'a list" where
  "heap_pop h = (case h of [] \<Rightarrow> (None, []) | x # xs \<Rightarrow> (Some x, xs))"

lemma heap_peek_simps [simp]: "heap_peek [] = None" "heap_peek (x # xs) = Some x"
  by (simp_all add: heap_peek_def)

lemma heap_pop_simps [simp]: "heap_pop [] = (None, [])" "heap_pop (x # xs) = (Some x, xs)"
  by (simp_all add: heap_pop_def)

lemma heap_push_mset: "heap_push cmp x h = Some h' \<Longrightarrow> mset h' = add_mset x (mset h)"
  by (induction cmp x h arbitrary: h' rule: heap_push.induct)
    (auto split: option.splits ordering.splits)

text \<open>Strictly sorted by a key, least key first.\<close>

definition key_sorted :: "('a \<Rightarrow> 'k::linorder) \<Rightarrow> 'a list \<Rightarrow> bool" where
  "key_sorted key xs \<longleftrightarrow> sorted_wrt (\<lambda>a b. key a < key b) xs"

lemma key_sorted_Nil [simp]: "key_sorted key []"
  by (simp add: key_sorted_def)

lemma key_sorted_Cons [simp]:
  "key_sorted key (x # xs) \<longleftrightarrow> (\<forall>y \<in> set xs. key x < key y) \<and> key_sorted key xs"
  by (simp add: key_sorted_def)

lemma key_sorted_append:
  "key_sorted key (xs @ ys) \<longleftrightarrow>
     key_sorted key xs \<and> key_sorted key ys \<and> (\<forall>x \<in> set xs. \<forall>y \<in> set ys. key x < key y)"
  by (simp add: key_sorted_def sorted_wrt_append)

lemma key_sorted_distinct: "key_sorted key xs \<Longrightarrow> distinct (map key xs)"
  by (induction xs) force+

text \<open>Two strictly sorted logs order every pair they share alike.\<close>

lemma key_sorted_nth_less:
  "key_sorted key xs \<Longrightarrow> i < length xs \<Longrightarrow> j < length xs \<Longrightarrow> i < j \<longleftrightarrow> key (xs ! i) < key (xs ! j)"
  unfolding key_sorted_def sorted_wrt_iff_nth_less by (metis linorder_neqE_nat order_less_asym')

section \<open>The contract of \<open>Ord\<close> and the heap over it\<close>

text \<open>
  A max-heap of elements whose \<open>cmp\<close> inverts the order of a key: the greatest element is the one
  with the least key. \<open>valid\<close> delimits the elements that may meet in one heap.
\<close>

locale cmp_heap =
  fixes cmp :: "'a \<Rightarrow> 'a \<Rightarrow> ordering option"
    and key :: "'a \<Rightarrow> 'k::linorder"
    and valid :: "'a \<Rightarrow> bool"
  assumes cmp_key: "valid x \<Longrightarrow> valid y \<Longrightarrow> key x \<noteq> key y \<Longrightarrow>
    cmp x y = Some (cmp_u64 (key y) (key x))"
begin

lemma push_total:
  assumes "list_all valid h" "valid x" "key x \<notin> key ` set h" "key_sorted key h"
  shows "\<exists>h'. heap_push cmp x h = Some h' \<and> key_sorted key h' \<and> set h' = insert x (set h)"
  using assms
proof (induction h)
  case Nil
  then show ?case by simp
next
  case (Cons y ys)
  then have c: "cmp x y = Some (cmp_u64 (key y) (key x))" by (auto intro: cmp_key)
  show ?case
  proof (cases "key x < key y")
    case True
    then show ?thesis using c Cons.prems by (auto simp: cmp_u64_def)
  next
    case False
    then have lt: "key y < key x" using Cons.prems by auto
    obtain h' where h': "heap_push cmp x ys = Some h'" "key_sorted key h'" "set h' = insert x (set ys)"
      using Cons by auto
    show ?thesis using c lt h' Cons.prems by (auto simp: cmp_u64_def)
  qed
qed

lemma push_sorted:
  assumes "heap_push cmp x h = Some h'" "list_all valid h" "valid x"
    "key x \<notin> key ` set h" "key_sorted key h"
  shows "key_sorted key h' \<and> set h' = insert x (set h)"
  using push_total [OF assms(2-5)] assms(1) by auto

lemma peek_least: "key_sorted key h \<Longrightarrow> heap_peek h = Some g \<Longrightarrow> x \<in> set h \<Longrightarrow> key g \<le> key x"
  by (cases h) auto

lemma pop_sorted: "key_sorted key h \<Longrightarrow> heap_pop h = (r, h') \<Longrightarrow> key_sorted key h'"
  by (cases h) auto

end

end
