(* ===== verification/Skeens_Types.thy ===== *)
theory Skeens_Types
  imports Binary_Heap
begin

text \<open>
  The data of \<^verbatim>\<open>fuzzy_log_server/src/skeens.rs\<close>: an append waiting for its final timestamp
  (\<open>WaitingForMax\<close>), an append that has it and waits for its turn (\<open>GotMax\<close>), the order the
  delivery heap uses, and the test whether an append may be delivered before everything that
  still waits. The shared multi-append storage (an \<open>Arc\<close>) and the singles' \<open>ValEdge\<close> are
  addresses; \<open>'t\<close> is the caller's token \<open>T\<close>.
\<close>

section \<open>Appends waiting for their final timestamp\<close>

datatype append_status = ASPhase1 u64 | ASPhase2 u64 | ASSingleton u64

datatype skeens_append_res = OldPhase1 u64 | ResPhase2 u64 | NewAppend u64 u64

datatype skeens_set_max_res = NeedsFlush | SetMaxOk | Duplicate u64 | NotWaiting

datatype timestamp = TPhase1 u64 | TPhase2 u64

text \<open>Fields: timestamp, node number, storage, token, id; replicated ones: final timestamp,
  trie index, storage, token, id.\<close>

datatype 't waiting_for_max =
    GotMaxMulti u64 u64 storage_ptr 't uuid
  | GotMaxSenti u64 u64 storage_ptr 't uuid
  | GotMaxSnap u64 u64 storage_ptr 't uuid
  | SimpleSingle u64 u64 val_edge 't uuid
  | Single u64 u64 val_edge 't uuid
  | Multi u64 u64 storage_ptr 't uuid
  | Senti u64 u64 storage_ptr 't uuid
  | Snap u64 u64 storage_ptr 't uuid
  | ReplicatedMulti u64 u64 storage_ptr 't uuid
  | ReplicatedSenti u64 u64 storage_ptr 't uuid
  | ReplicatedSnap u64 u64 storage_ptr 't uuid
  | ReplicatedSingle u64 u64 val_edge 't uuid

datatype 't got_max =
    GMulti u64 storage_ptr 't uuid
  | GSenti u64 storage_ptr 't uuid
  | GSnap u64 storage_ptr 't uuid
  | GSimpleSingle u64 val_edge 't uuid
  | GSingle u64 u64 val_edge 't uuid

text \<open>Fields: trie index, storage, final timestamp, token.\<close>

datatype 't replicated_skeens =
    RMulti u64 storage_ptr u64 't
  | RSenti u64 storage_ptr u64 't
  | RSnap u64 storage_ptr u64 't
  | RSingle u64 val_edge u64 't

fun wfm_set_max_timestamp :: "'t waiting_for_max \<Rightarrow> u64 \<Rightarrow> (u64 + 't waiting_for_max) option" where
  "wfm_set_max_timestamp (GotMaxMulti ts n s t i) mx = Some (Inl ts)"
| "wfm_set_max_timestamp (GotMaxSenti ts n s t i) mx = Some (Inl ts)"
| "wfm_set_max_timestamp (GotMaxSnap ts n s t i) mx = Some (Inl ts)"
| "wfm_set_max_timestamp (SimpleSingle ts n s t i) mx = Some (Inl ts)"
| "wfm_set_max_timestamp (ReplicatedMulti m n s t i) mx = Some (Inl m)"
| "wfm_set_max_timestamp (ReplicatedSenti m n s t i) mx = Some (Inl m)"
| "wfm_set_max_timestamp (ReplicatedSnap m n s t i) mx = Some (Inl m)"
| "wfm_set_max_timestamp (ReplicatedSingle m n s t i) mx = Some (Inl m)"
| "wfm_set_max_timestamp (Single ts n s t i) mx = Some (Inl ts)"
| "wfm_set_max_timestamp (Multi ts n s t i) mx = do {
     rust_assert (ts \<le> mx);
     Some (Inr (GotMaxMulti mx n s t i))
   }"
| "wfm_set_max_timestamp (Senti ts n s t i) mx = do {
     rust_assert (ts \<le> mx);
     Some (Inr (GotMaxSenti mx n s t i))
   }"
| "wfm_set_max_timestamp (Snap ts n s t i) mx = do {
     rust_assert (ts \<le> mx);
     Some (Inr (GotMaxSnap mx n s t i))
   }"

fun into_got_max :: "'t waiting_for_max \<Rightarrow> 't got_max option" where
  "into_got_max (SimpleSingle ts n s t i) = Some (GSimpleSingle ts s t i)"
| "into_got_max (Single ts n s t i) = Some (GSingle ts n s t i)"
| "into_got_max (GotMaxMulti ts n s t i) = Some (GMulti ts s t i)"
| "into_got_max (GotMaxSenti ts n s t i) = Some (GSenti ts s t i)"
| "into_got_max (GotMaxSnap ts n s t i) = Some (GSnap ts s t i)"
| "into_got_max _ = None"

fun has_max :: "'t waiting_for_max \<Rightarrow> bool" where
  "has_max (Multi _ _ _ _ _) = False"
| "has_max (Senti _ _ _ _ _) = False"
| "has_max (Snap _ _ _ _ _) = False"
| "has_max _ = True"

fun replicate_max_timetamp :: "'t waiting_for_max \<Rightarrow> u64 \<Rightarrow> u64 \<Rightarrow> uuid \<Rightarrow> 't waiting_for_max option" where
  "replicate_max_timetamp (Single ts n s t i) mx idx rid = do {
     rust_assert (i = rid);
     rust_assert (mx = ts);
     Some (ReplicatedSingle ts idx s t i)
   }"
| "replicate_max_timetamp (SimpleSingle ts n s t i) mx idx rid = do {
     rust_assert (i = rid);
     rust_assert (mx = ts);
     Some (ReplicatedSingle ts idx s t i)
   }"
| "replicate_max_timetamp (Multi ts n s t i) mx idx rid = do {
     rust_assert (ts \<le> mx);
     rust_assert (i = rid);
     Some (ReplicatedMulti mx idx s t i)
   }"
| "replicate_max_timetamp (Senti ts n s t i) mx idx rid = do {
     rust_assert (ts \<le> mx);
     rust_assert (i = rid);
     Some (ReplicatedSenti mx idx s t i)
   }"
| "replicate_max_timetamp (Snap ts n s t i) mx idx rid = do {
     rust_assert (ts \<le> mx);
     rust_assert (i = rid);
     Some (ReplicatedSnap mx idx s t i)
   }"
| "replicate_max_timetamp _ mx idx rid = None"

fun has_replication :: "'t waiting_for_max \<Rightarrow> bool" where
  "has_replication (ReplicatedMulti _ _ _ _ _) = True"
| "has_replication (ReplicatedSenti _ _ _ _ _) = True"
| "has_replication (ReplicatedSingle _ _ _ _ _) = True"
| "has_replication (ReplicatedSnap _ _ _ _ _) = True"
| "has_replication _ = False"

fun to_replica :: "'t waiting_for_max \<Rightarrow> (uuid \<times> 't replicated_skeens) option" where
  "to_replica (ReplicatedSingle m idx s t i) = Some (i, RSingle idx s m t)"
| "to_replica (ReplicatedMulti m idx s t i) = Some (i, RMulti idx s m t)"
| "to_replica (ReplicatedSenti m idx s t i) = Some (i, RSenti idx s m t)"
| "to_replica (ReplicatedSnap m idx s t i) = Some (i, RSnap idx s m t)"
| "to_replica _ = None"

fun multi_timestamp :: "'t waiting_for_max \<Rightarrow> timestamp" where
  "multi_timestamp (Multi ts _ _ _ _) = TPhase1 ts"
| "multi_timestamp (Senti ts _ _ _ _) = TPhase1 ts"
| "multi_timestamp (Snap ts _ _ _ _) = TPhase1 ts"
| "multi_timestamp (Single ts _ _ _ _) = TPhase2 ts"
| "multi_timestamp (GotMaxMulti ts _ _ _ _) = TPhase2 ts"
| "multi_timestamp (GotMaxSenti ts _ _ _ _) = TPhase2 ts"
| "multi_timestamp (GotMaxSnap ts _ _ _ _) = TPhase2 ts"
| "multi_timestamp (SimpleSingle ts _ _ _ _) = TPhase2 ts"
| "multi_timestamp (ReplicatedMulti m _ _ _ _) = TPhase2 m"
| "multi_timestamp (ReplicatedSenti m _ _ _ _) = TPhase2 m"
| "multi_timestamp (ReplicatedSnap m _ _ _ _) = TPhase2 m"
| "multi_timestamp (ReplicatedSingle m _ _ _ _) = TPhase2 m"

fun wfm_get_id :: "'t waiting_for_max \<Rightarrow> uuid" where
  "wfm_get_id (Multi _ _ _ _ i) = i"
| "wfm_get_id (Senti _ _ _ _ i) = i"
| "wfm_get_id (Snap _ _ _ _ i) = i"
| "wfm_get_id (Single _ _ _ _ i) = i"
| "wfm_get_id (GotMaxMulti _ _ _ _ i) = i"
| "wfm_get_id (GotMaxSenti _ _ _ _ i) = i"
| "wfm_get_id (GotMaxSnap _ _ _ _ i) = i"
| "wfm_get_id (SimpleSingle _ _ _ _ i) = i"
| "wfm_get_id (ReplicatedMulti _ _ _ _ i) = i"
| "wfm_get_id (ReplicatedSenti _ _ _ _ i) = i"
| "wfm_get_id (ReplicatedSnap _ _ _ _ i) = i"
| "wfm_get_id (ReplicatedSingle _ _ _ _ i) = i"

section \<open>Appends with their final timestamp\<close>

fun gm_timestamp :: "'t got_max \<Rightarrow> u64" where
  "gm_timestamp (GMulti ts _ _ _) = ts"
| "gm_timestamp (GSenti ts _ _ _) = ts"
| "gm_timestamp (GSnap ts _ _ _) = ts"
| "gm_timestamp (GSimpleSingle ts _ _ _) = ts"
| "gm_timestamp (GSingle ts _ _ _ _) = ts"

fun is_multi :: "'t got_max \<Rightarrow> bool" where
  "is_multi (GMulti _ _ _ _) = True"
| "is_multi (GSenti _ _ _ _) = True"
| "is_multi (GSnap _ _ _ _) = True"
| "is_multi (GSingle _ _ _ _ _) = False"
| "is_multi (GSimpleSingle _ _ _ _) = False"

fun gm_get_id :: "'t got_max \<Rightarrow> uuid" where
  "gm_get_id (GMulti _ _ _ i) = i"
| "gm_get_id (GSenti _ _ _ i) = i"
| "gm_get_id (GSnap _ _ _ i) = i"
| "gm_get_id (GSingle _ _ _ _ i) = i"
| "gm_get_id (GSimpleSingle _ _ _ i) = i"

text \<open>
  \<open>happens_before\<close>: the nine pairs of a multi-like delivery and a multi-like waiting append are
  compared by timestamp and then id; a pair with a single on either side by \<open>\<le>\<close> on timestamps;
  a multi against an append that already has its timestamp is unreachable, against a replicated
  one unimplemented.
\<close>

definition happens_before_multi :: "'t got_max \<Rightarrow> u64 \<Rightarrow> uuid \<Rightarrow> bool" where
  "happens_before_multi g other_ts other_id \<longleftrightarrow>
     (if gm_timestamp g < other_ts then True
      else gm_timestamp g = other_ts \<and> gm_get_id g < other_id)"

definition happens_before_single :: "'t got_max \<Rightarrow> 't waiting_for_max \<Rightarrow> bool" where
  "happens_before_single g w =
     (case multi_timestamp w of
        TPhase1 other_ts \<Rightarrow> gm_timestamp g \<le> other_ts
      | TPhase2 other_ts \<Rightarrow> gm_timestamp g \<le> other_ts)"

fun happens_before :: "'t got_max \<Rightarrow> 't waiting_for_max \<Rightarrow> bool option" where
  "happens_before g (Multi ts n s t i) =
     Some (if is_multi g then happens_before_multi g ts i
           else happens_before_single g (Multi ts n s t i))"
| "happens_before g (Senti ts n s t i) =
     Some (if is_multi g then happens_before_multi g ts i
           else happens_before_single g (Senti ts n s t i))"
| "happens_before g (Snap ts n s t i) =
     Some (if is_multi g then happens_before_multi g ts i
           else happens_before_single g (Snap ts n s t i))"
| "happens_before g (SimpleSingle ts n s t i) =
     Some (happens_before_single g (SimpleSingle ts n s t i))"
| "happens_before g (Single ts n s t i) = Some (happens_before_single g (Single ts n s t i))"
| "happens_before g w = (if is_multi g then None else Some (happens_before_single g w))"

text \<open>
  \<open>Ord::cmp\<close>. The heap is a max-heap, so the earlier delivery is the \<open>Greater\<close> one. The tie of
  two equal \<open>SimpleSingle\<close>s panics, as does meeting both kinds of single.
\<close>

definition cmp_then :: "u64 \<Rightarrow> u64 \<Rightarrow> ordering \<Rightarrow> ordering" where
  "cmp_then a b tie = (case cmp_u64 a b of Equal \<Rightarrow> tie | ord \<Rightarrow> ord_reverse ord)"

fun got_max_cmp :: "'t got_max \<Rightarrow> 't got_max \<Rightarrow> ordering option" where
  "got_max_cmp (GSimpleSingle ts s t i) (GSimpleSingle ts' s' t' i') =
     (case cmp_u64 ts ts' of
        Equal \<Rightarrow>
          (let c = ord_reverse (cmp_u64 i i') in if c = Equal then None else Some c)
      | ord \<Rightarrow> Some (ord_reverse ord))"
| "got_max_cmp (GSingle ts n s t i) (GSingle ts' n' s' t' i') =
     Some (cmp_then ts ts' (ord_reverse (cmp_u64 n n')))"
| "got_max_cmp (GSimpleSingle ts s t i) (GSingle ts' n' s' t' i') = None"
| "got_max_cmp (GSingle ts n s t i) (GSimpleSingle ts' s' t' i') = None"
| "got_max_cmp (GSimpleSingle ts s t i) g = Some (cmp_then ts (gm_timestamp g) Less)"
| "got_max_cmp (GSingle ts n s t i) g = Some (cmp_then ts (gm_timestamp g) Less)"
| "got_max_cmp g (GSimpleSingle ts s t i) = Some (cmp_then (gm_timestamp g) ts Greater)"
| "got_max_cmp g (GSingle ts n s t i) = Some (cmp_then (gm_timestamp g) ts Greater)"
| "got_max_cmp g g' = Some (cmp_then (gm_timestamp g) (gm_timestamp g')
     (ord_reverse (cmp_u64 (gm_get_id g) (gm_get_id g'))))"

text \<open>\<open>PartialEq::eq\<close>: storage is compared by address. There is no case for two snapshots.\<close>

fun got_max_eq :: "'t got_max \<Rightarrow> 't got_max \<Rightarrow> bool" where
  "got_max_eq (GMulti ts s t i) (GMulti ts' s' t' i') \<longleftrightarrow> ts = ts' \<and> i = i' \<and> s = s'"
| "got_max_eq (GSenti ts s t i) (GSenti ts' s' t' i') \<longleftrightarrow> ts = ts' \<and> i = i' \<and> s = s'"
| "got_max_eq (GSimpleSingle ts s t i) (GSimpleSingle ts' s' t' i') \<longleftrightarrow> ts = ts' \<and> s = s'"
| "got_max_eq (GSingle ts n s t i) (GSingle ts' n' s' t' i') \<longleftrightarrow> ts = ts' \<and> n = n' \<and> s = s'"
| "got_max_eq g g' \<longleftrightarrow> False"

section \<open>The delivery order\<close>

text \<open>Deliveries are ordered by timestamp, then multi-appends before singles, then id.\<close>

definition gm_key :: "'t got_max \<Rightarrow> u64 \<times> bool \<times> uuid" where
  "gm_key g = (gm_timestamp g, \<not> is_multi g, gm_get_id g)"

text \<open>The variant \<open>Single\<close> is never constructed.\<close>

fun gm_valid :: "'t got_max \<Rightarrow> bool" where
  "gm_valid (GSingle _ _ _ _ _) = False"
| "gm_valid _ = True"

interpretation gm: cmp_heap got_max_cmp gm_key gm_valid
proof
  fix x y :: "'t got_max"
  assume "gm_valid x" "gm_valid y" "gm_key x \<noteq> gm_key y"
  then show "got_max_cmp x y = Some (cmp_u64 (gm_key y) (gm_key x))"
    by (cases x; cases y)
      (auto simp: gm_key_def cmp_then_def cmp_u64_def less_prod_def' split: ordering.splits)
qed

end
