(* ===== verification/Vec_Deque_Map.thy ===== *)
theory Vec_Deque_Map
  imports Prelude
begin

text \<open>
  \<^verbatim>\<open>fuzzy_log_util/src/vec_deque_map.rs\<close>: a map from \<open>u64\<close> keys kept as a deque of optional
  values and the key of its first cell, and the interface of such a queue. The crate has three
  variants of it and compiles this one out (\<^verbatim>\<open>lib.rs\<close> renames \<^verbatim>\<open>hash_deque_map\<close> to
  \<^verbatim>\<open>vec_deque_map\<close>); Skeen's queue is the one of \<open>Hash_Deque_Map\<close>.
  The deque is a list, front first; \<open>get_mut\<close> is a lookup together with the write-back
  \<open>vdm_put\<close> its caller performs through the returned reference.
\<close>

section \<open>Data and operations\<close>

record 'v vec_deque_map =
  vdm_data :: "'v option list"
  vdm_start :: u64

definition vdm_new :: "'v vec_deque_map" where
  "vdm_new = \<lparr>vdm_data = [], vdm_start = 0\<rparr>"

definition vdm_push_back :: "'v vec_deque_map \<Rightarrow> 'v \<Rightarrow> (u64 \<times> 'v vec_deque_map) option" where
  "vdm_push_back q val = do {
     let key = length (vdm_data q);
     k \<leftarrow> u64_add (vdm_start q) key;
     Some (k, q\<lparr>vdm_data := vdm_data q @ [Some val]\<rparr>)
   }"

definition vdm_pop_front :: "'v vec_deque_map \<Rightarrow> ('v option \<times> 'v vec_deque_map) option" where
  "vdm_pop_front q =
     (case vdm_data q of
        [] \<Rightarrow> Some (None, q)
      | v # d \<Rightarrow> do {
          s \<leftarrow> u64_add (vdm_start q) 1;
          Some (v, q\<lparr>vdm_data := d, vdm_start := s\<rparr>)
        })"

definition vdm_insert :: "'v vec_deque_map \<Rightarrow> u64 \<Rightarrow> 'v \<Rightarrow> ('v option \<times> 'v vec_deque_map) option" where
  "vdm_insert q key val =
     (if vdm_start q \<le> key then
        let index = key - vdm_start q;
            d = (if length (vdm_data q) \<le> index
                 then vdm_data q @ replicate (index - length (vdm_data q) + 1) None
                 else vdm_data q)
        in Some (d ! index, q\<lparr>vdm_data := d[index := Some val]\<rparr>)
      else do {
        additional \<leftarrow> u64_sub key (vdm_start q);
        let d = replicate additional None @ vdm_data q;
        rust_assert (d \<noteq> []);
        Some (d ! 0, q\<lparr>vdm_data := d[0 := Some val], vdm_start := key\<rparr>)
      })"

definition vdm_get :: "'v vec_deque_map \<Rightarrow> u64 \<Rightarrow> 'v option" where
  "vdm_get q key =
     (if key < vdm_start q then None
      else let index = key - vdm_start q
           in if index < length (vdm_data q) then vdm_data q ! index else None)"

definition vdm_get_mut :: "'v vec_deque_map \<Rightarrow> u64 \<Rightarrow> 'v option" where
  "vdm_get_mut q key =
     (if key < vdm_start q \<or> vdm_data q = [] then None
      else let index = key - vdm_start q
           in if index < length (vdm_data q) then vdm_data q ! index else None)"

definition vdm_put :: "'v vec_deque_map \<Rightarrow> u64 \<Rightarrow> 'v \<Rightarrow> 'v vec_deque_map" where
  "vdm_put q key val = q\<lparr>vdm_data := (vdm_data q)[key - vdm_start q := Some val]\<rparr>"

definition vdm_front :: "'v vec_deque_map \<Rightarrow> 'v option" where
  "vdm_front q = (case vdm_data q of [] \<Rightarrow> None | v # _ \<Rightarrow> v)"

definition vdm_start_index :: "'v vec_deque_map \<Rightarrow> u64" where
  "vdm_start_index q = vdm_start q"

definition vdm_push_index :: "'v vec_deque_map \<Rightarrow> u64 option" where
  "vdm_push_index q = u64_add (vdm_start q) (length (vdm_data q))"

definition vdm_is_empty :: "'v vec_deque_map \<Rightarrow> bool" where
  "vdm_is_empty q \<longleftrightarrow> vdm_data q = []"

definition vdm_increment_start :: "'v vec_deque_map \<Rightarrow> 'v vec_deque_map option" where
  "vdm_increment_start q = do {
     rust_assert (vdm_front q = None);
     s \<leftarrow> u64_add (vdm_start q) 1;
     Some (q\<lparr>vdm_start := s\<rparr>)
   }"

text \<open>The key space the deque uses stays inside \<open>u64\<close>.\<close>

definition vdm_bounded :: "'v vec_deque_map \<Rightarrow> bool" where
  "vdm_bounded q \<longleftrightarrow> vdm_start q + length (vdm_data q) \<le> u64_max"

lemmas vdm_defs = vdm_new_def vdm_push_back_def vdm_pop_front_def vdm_get_def vdm_get_mut_def
  vdm_put_def vdm_front_def vdm_start_index_def vdm_push_index_def vdm_is_empty_def

section \<open>Behaviour as a map\<close>

lemma vdm_get_mut_eq_get [simp]: "vdm_get_mut q k = vdm_get q k"
  by (auto simp: vdm_get_mut_def vdm_get_def Let_def)

lemma vdm_get_new [simp]: "vdm_get vdm_new k = None"
  by (simp add: vdm_defs)

lemma vdm_get_SomeD:
  assumes "vdm_get q k = Some v"
  obtains i where "k = vdm_start q + i" "i < length (vdm_data q)" "vdm_data q ! i = Some v"
proof -
  from assms have "vdm_start q \<le> k" "k - vdm_start q < length (vdm_data q)"
    "vdm_data q ! (k - vdm_start q) = Some v"
    by (auto simp: vdm_get_def Let_def split: if_splits)
  then show ?thesis by (intro that [of "k - vdm_start q"]) auto
qed

lemma vdm_get_offset [simp]:
  "vdm_get q (vdm_start q + i) = (if i < length (vdm_data q) then vdm_data q ! i else None)"
  by (simp add: vdm_get_def)

lemma vdm_get_below_start: "k < vdm_start q \<Longrightarrow> vdm_get q k = None"
  by (simp add: vdm_get_def)

lemma vdm_push_back_get:
  assumes "vdm_push_back q v = Some (k, q')"
  shows "vdm_push_index q = Some k" "vdm_get q k = None"
    "vdm_get q' = (vdm_get q)(k \<mapsto> v)" "vdm_start q' = vdm_start q"
proof -
  from assms have k: "k = vdm_start q + length (vdm_data q)" "k \<le> u64_max"
    and q': "q' = q\<lparr>vdm_data := vdm_data q @ [Some v]\<rparr>"
    by (auto simp: vdm_push_back_def rust_simps Let_def)
  show "vdm_push_index q = Some k" "vdm_get q k = None" "vdm_start q' = vdm_start q"
    using k q' by (auto simp: vdm_push_index_def vdm_get_def u64_add_def)
  show "vdm_get q' = (vdm_get q)(k \<mapsto> v)"
    using k q' by (auto simp: vdm_get_def Let_def nth_append fun_eq_iff)
qed

lemma vdm_push_back_Some: "vdm_bounded q \<Longrightarrow> \<exists>k q'. vdm_push_back q v = Some (k, q')"
  by (auto simp: vdm_push_back_def vdm_bounded_def u64_add_def)

lemma vdm_pop_front_get:
  assumes "vdm_pop_front q = Some (v, q')" "vdm_data q \<noteq> []"
  shows "v = vdm_get q (vdm_start q)" "vdm_start q' = vdm_start q + 1"
    "vdm_get q' = (vdm_get q)(vdm_start q := None)"
proof -
  from assms obtain d where d: "vdm_data q = v # d"
    and q': "q' = q\<lparr>vdm_data := d, vdm_start := vdm_start q + 1\<rparr>"
    by (auto simp: vdm_pop_front_def rust_simps split: list.splits)
  show "v = vdm_get q (vdm_start q)" "vdm_start q' = vdm_start q + 1"
    using d q' by (auto simp: vdm_get_def)
  show "vdm_get q' = (vdm_get q)(vdm_start q := None)"
    using d q' by (auto simp: vdm_get_def Let_def fun_eq_iff nth_Cons' diff_diff_left)
qed

lemma vdm_pop_front_empty: "vdm_data q = [] \<Longrightarrow> vdm_pop_front q = Some (None, q)"
  by (simp add: vdm_pop_front_def)

lemma vdm_insert_get:
  assumes "vdm_insert q k v = Some (old, q')"
  shows "old = vdm_get q k" "vdm_get q' = (vdm_get q)(k \<mapsto> v)" "vdm_start q' = vdm_start q"
proof -
  have le: "vdm_start q \<le> k"
    using assms by (auto simp: vdm_insert_def rust_simps split: if_splits)
  define d where "d = (if length (vdm_data q) \<le> k - vdm_start q
    then vdm_data q @ replicate (k - vdm_start q - length (vdm_data q) + 1) None else vdm_data q)"
  have len: "k - vdm_start q < length d" by (auto simp: d_def)
  have nth: "\<And>i. i < length d \<Longrightarrow> d ! i = (if i < length (vdm_data q) then vdm_data q ! i else None)"
    by (auto simp: d_def nth_append simp flip: replicate_Suc simp del: replicate.simps)
  have old: "old = d ! (k - vdm_start q)" and q': "q' = q\<lparr>vdm_data := d[k - vdm_start q := Some v]\<rparr>"
    using assms le by (auto simp: vdm_insert_def d_def Let_def)
  show "old = vdm_get q k"
    using le old nth [OF len] by (auto simp: vdm_get_def Let_def)
  show "vdm_start q' = vdm_start q" using q' by simp
  show "vdm_get q' = (vdm_get q)(k \<mapsto> v)"
  proof
    fix j
    show "vdm_get q' j = ((vdm_get q)(k \<mapsto> v)) j"
    proof (cases "j = k")
      case True
      then show ?thesis using le len q' by (simp add: vdm_get_def)
    next
      case False
      have "j - vdm_start q \<noteq> k - vdm_start q" if "vdm_start q \<le> j"
        using False le that by linarith
      moreover have "length (vdm_data q) \<le> length d" by (simp add: d_def)
      ultimately show ?thesis
        using False nth [of "j - vdm_start q"] q' by (auto simp: vdm_get_def Let_def)
    qed
  qed
qed

lemma vdm_insert_Some: "vdm_start q \<le> k \<Longrightarrow> \<exists>old q'. vdm_insert q k v = Some (old, q')"
  by (simp add: vdm_insert_def Let_def)

text \<open>A key below the start is never inserted: the offset computation underflows first.\<close>

lemma vdm_insert_below_start: "k < vdm_start q \<Longrightarrow> vdm_insert q k v = None"
  by (simp add: vdm_insert_def u64_sub_def)

lemma vdm_put_get:
  "vdm_get q k = Some w \<Longrightarrow> vdm_get (vdm_put q k v) = (vdm_get q)(k \<mapsto> v)"
  by (auto simp: vdm_get_def vdm_put_def Let_def fun_eq_iff nth_list_update split: if_splits)

section \<open>The interface of an indexed queue\<close>

text \<open>
  What Skeen's algorithm relies on: pushing returns the key the value is found at afterwards
  and that key is fresh; popping removes exactly the value at the start key and moves the start
  up by one; both keep the queue well-formed.
\<close>

locale indexed_queue =
  fixes queue_ok :: "'q \<Rightarrow> bool"
    and get :: "'q \<Rightarrow> u64 \<Rightarrow> 'v option"
    and start_of :: "'q \<Rightarrow> u64"
    and push :: "'q \<Rightarrow> 'v \<Rightarrow> (u64 \<times> 'q) option"
    and pop :: "'q \<Rightarrow> ('v option \<times> 'q) option"
    and is_nil :: "'q \<Rightarrow> bool"
  assumes push_ok: "push q v = Some (k, q') \<Longrightarrow> queue_ok q \<Longrightarrow> queue_ok q'"
    and pop_ok: "pop q = Some (r, q') \<Longrightarrow> queue_ok q \<Longrightarrow> queue_ok q'"
    and push_get: "push q v = Some (k, q') \<Longrightarrow> queue_ok q \<Longrightarrow> get q' = (get q)(k \<mapsto> v)"
    and push_fresh: "push q v = Some (k, q') \<Longrightarrow> queue_ok q \<Longrightarrow> get q k = None"
    and push_start: "push q v = Some (k, q') \<Longrightarrow> start_of q' = start_of q"
    and push_not_nil: "push q v = Some (k, q') \<Longrightarrow> \<not> is_nil q'"
    and pop_get: "pop q = Some (r, q') \<Longrightarrow> queue_ok q \<Longrightarrow> \<not> is_nil q \<Longrightarrow>
      r = get q (start_of q) \<and> get q' = (get q)(start_of q := None) \<and> start_of q' = start_of q + 1"
    and get_below: "queue_ok q \<Longrightarrow> k < start_of q \<Longrightarrow> get q k = None"
begin

lemma push_lookup: "push q v = Some (k, q') \<Longrightarrow> queue_ok q \<Longrightarrow> get q' k = Some v"
  by (simp add: push_get)

lemma push_lookup_other:
  "push q v = Some (k, q') \<Longrightarrow> queue_ok q \<Longrightarrow> get q j = Some w \<Longrightarrow> get q' j = Some w"
  using push_fresh push_get by fastforce

lemma push_key_ge_start: "push q v = Some (k, q') \<Longrightarrow> queue_ok q \<Longrightarrow> start_of q \<le> k"
  using push_start push_lookup push_ok get_below by (metis linorder_not_le option.discI)

lemma pop_keeps_later:
  "pop q = Some (r, q') \<Longrightarrow> queue_ok q \<Longrightarrow> \<not> is_nil q \<Longrightarrow> start_of q < j \<Longrightarrow> get q' j = get q j"
  using pop_get by fastforce

lemma pop_forgets:
  "pop q = Some (r, q') \<Longrightarrow> queue_ok q \<Longrightarrow> \<not> is_nil q \<Longrightarrow> j \<le> start_of q \<Longrightarrow> get q' j = None"
  using pop_get pop_ok get_below by (metis le_imp_less_Suc Suc_eq_plus1)

text \<open>A value pushed on a queue is the one popped when its key becomes the start.\<close>

lemma push_then_pop:
  assumes "push q v = Some (k, q1)" "queue_ok q" "start_of q = k" "pop q1 = Some (r, q2)"
  shows "r = Some v \<and> get q2 = get q"
  using pop_get [OF assms(4) push_ok [OF assms(1,2)] push_not_nil [OF assms(1)]] push_get [OF assms(1,2)]
    push_start [OF assms(1)] push_fresh [OF assms(1,2)] assms(3)
  by (auto simp: fun_eq_iff)

end

interpretation vdm: indexed_queue "\<lambda>_. True" vdm_get vdm_start vdm_push_back vdm_pop_front vdm_is_empty
proof (unfold_locales, goal_cases)
  case (3 q v k q') then show ?case by (simp add: vdm_push_back_get(3))
next
  case (4 q v k q') then show ?case by (simp add: vdm_push_back_get(2))
next
  case (5 q v k q') then show ?case by (rule vdm_push_back_get(4))
next
  case (6 q v k q') then show ?case
    by (auto simp: vdm_push_back_def vdm_is_empty_def rust_simps Let_def)
next
  case (7 q r q') then show ?case using vdm_pop_front_get by (auto simp: vdm_is_empty_def)
next
  case (8 q k) then show ?case by (simp add: vdm_get_below_start)
qed simp_all

end
