(* ===== verification/Hash_Deque_Map.thy ===== *)
theory Hash_Deque_Map
  imports Vec_Deque_Map "HOL-Library.Finite_Map"
begin

text \<open>
  \<^verbatim>\<open>fuzzy_log_util/src/hash_deque_map.rs\<close>, the variant of \<open>VecDequeMap\<close> the crate compiles: a hash map
  with the lowest key, the next key to push and the lowest key that may still be inserted. Skeen's queue
  of waiting appends is one of these. The hash map is a finite map; \<open>get_mut\<close> is a lookup together with
  the write-back \<open>hdm_put\<close> its caller performs through the returned reference.
\<close>

section \<open>Data and operations\<close>

record 'v hash_deque_map =
  hdm_data :: "(u64, 'v) fmap"
  hdm_start :: u64
  hdm_next :: u64
  hdm_min :: u64

definition hdm_new :: "'v hash_deque_map" where
  "hdm_new = \<lparr>hdm_data = fmempty, hdm_start = 0, hdm_next = 0, hdm_min = 0\<rparr>"

definition hdm_is_empty :: "'v hash_deque_map \<Rightarrow> bool" where
  "hdm_is_empty q \<longleftrightarrow> fmdom (hdm_data q) = {||}"

definition hdm_push_back :: "'v hash_deque_map \<Rightarrow> 'v \<Rightarrow> (u64 \<times> 'v hash_deque_map) option" where
  "hdm_push_back q val = do {
     let key = hdm_next q;
     n \<leftarrow> u64_add (hdm_next q) 1;
     Some (key, q\<lparr>hdm_data := fmupd key val (hdm_data q), hdm_next := n\<rparr>)
   }"

definition hdm_pop_front :: "'v hash_deque_map \<Rightarrow> ('v option \<times> 'v hash_deque_map) option" where
  "hdm_pop_front q =
     (if hdm_is_empty q then Some (None, q)
      else do {
        let val = fmlookup (hdm_data q) (hdm_start q);
        s \<leftarrow> u64_add (hdm_start q) 1;
        Some (val, q\<lparr>hdm_data := fmdrop (hdm_start q) (hdm_data q), hdm_start := s, hdm_min := s\<rparr>)
      })"

definition hdm_insert :: "'v hash_deque_map \<Rightarrow> u64 \<Rightarrow> 'v \<Rightarrow> ('v option \<times> 'v hash_deque_map) option" where
  "hdm_insert q key val = do {
     rust_assert (\<not> key < hdm_min q);
     let start = (if key < hdm_start q then key else hdm_start q);
     next \<leftarrow> (if hdm_next q \<le> key then u64_add key 1 else Some (hdm_next q));
     Some (fmlookup (hdm_data q) key,
       q\<lparr>hdm_data := fmupd key val (hdm_data q), hdm_start := start, hdm_next := next\<rparr>)
   }"

text \<open>A lookup outside the keys between the start and the next key asserts that it finds nothing.\<close>

definition hdm_get :: "'v hash_deque_map \<Rightarrow> u64 \<Rightarrow> 'v option option" where
  "hdm_get q key = do {
     let val = fmlookup (hdm_data q) key;
     (if key < hdm_start q \<or> hdm_next q \<le> key then rust_assert (val = None) else Some ());
     Some val
   }"

definition hdm_get_mut :: "'v hash_deque_map \<Rightarrow> u64 \<Rightarrow> 'v option option" where
  "hdm_get_mut q key = do {
     let val = fmlookup (hdm_data q) key;
     (if key < hdm_start q \<or> hdm_next q \<le> key then rust_assert (val = None) else Some ());
     Some val
   }"

definition hdm_put :: "'v hash_deque_map \<Rightarrow> u64 \<Rightarrow> 'v \<Rightarrow> 'v hash_deque_map" where
  "hdm_put q key val = q\<lparr>hdm_data := fmupd key val (hdm_data q)\<rparr>"

text \<open>The index operators unwrap the lookup.\<close>

definition hdm_index :: "'v hash_deque_map \<Rightarrow> u64 \<Rightarrow> 'v option" where
  "hdm_index q key = do { v \<leftarrow> hdm_get q key; v }"

definition hdm_index_mut :: "'v hash_deque_map \<Rightarrow> u64 \<Rightarrow> 'v option" where
  "hdm_index_mut q key = do { v \<leftarrow> hdm_get_mut q key; v }"

definition hdm_front :: "'v hash_deque_map \<Rightarrow> 'v option" where
  "hdm_front q = fmlookup (hdm_data q) (hdm_start q)"

definition hdm_start_index :: "'v hash_deque_map \<Rightarrow> u64" where
  "hdm_start_index q = hdm_start q"

definition hdm_push_index :: "'v hash_deque_map \<Rightarrow> u64" where
  "hdm_push_index q = hdm_next q"

definition hdm_increment_start :: "'v hash_deque_map \<Rightarrow> 'v hash_deque_map option" where
  "hdm_increment_start q = do {
     rust_assert (hdm_front q = None);
     s \<leftarrow> u64_add (hdm_start q) 1;
     Some (q\<lparr>hdm_start := s\<rparr>)
   }"

text \<open>The next push does not overflow.\<close>

definition hdm_bounded :: "'v hash_deque_map \<Rightarrow> bool" where
  "hdm_bounded q \<longleftrightarrow> hdm_next q < u64_max"

section \<open>Behaviour as a map\<close>

text \<open>Every key lies between the start and the next key, and none below the lowest one allowed.\<close>

definition hdm_ok :: "'v hash_deque_map \<Rightarrow> bool" where
  "hdm_ok q \<longleftrightarrow> hdm_min q \<le> hdm_start q \<and> hdm_start q \<le> hdm_next q \<and>
     (\<forall>k v. fmlookup (hdm_data q) k = Some v \<longrightarrow> hdm_start q \<le> k \<and> k < hdm_next q)"

lemma hdm_get_ok: "hdm_ok q \<Longrightarrow> hdm_get q k = Some (fmlookup (hdm_data q) k)"
  by (cases "fmlookup (hdm_data q) k") (auto simp: hdm_ok_def hdm_get_def rust_simps)

lemma hdm_get_mut_eq_get [simp]: "hdm_get_mut q k = hdm_get q k"
  by (simp add: hdm_get_mut_def hdm_get_def)

lemma hdm_index_mut_eq_index [simp]: "hdm_index_mut q k = hdm_index q k"
  by (simp add: hdm_index_mut_def hdm_index_def)

lemma hdm_index_ok: "hdm_ok q \<Longrightarrow> hdm_index q k = fmlookup (hdm_data q) k"
  by (simp add: hdm_index_def hdm_get_ok)

lemma hdm_new_ok: "hdm_ok hdm_new"
  by (simp add: hdm_ok_def hdm_new_def)

lemma hdm_is_empty_lookup: "hdm_is_empty q \<longleftrightarrow> (\<forall>k. fmlookup (hdm_data q) k = None)"
  by (auto simp: hdm_is_empty_def fmdom_notI dest: fmdom_notD)

lemma hdm_push_back_ok: "hdm_push_back q v = Some (k, q') \<Longrightarrow> hdm_ok q \<Longrightarrow> hdm_ok q'"
  by (fastforce simp: hdm_push_back_def hdm_ok_def rust_simps Let_def split: if_splits)

lemma hdm_push_back_get:
  assumes "hdm_push_back q v = Some (k, q')" "hdm_ok q"
  shows "hdm_push_index q = k" "hdm_index q k = None" "hdm_index q' = (hdm_index q)(k \<mapsto> v)"
proof -
  from assms(1) have k: "k = hdm_next q" and d: "hdm_data q' = fmupd k v (hdm_data q)"
    by (auto simp: hdm_push_back_def rust_simps Let_def)
  show "hdm_push_index q = k" using k by (simp add: hdm_push_index_def)
  show "hdm_index q k = None"
    using assms(2) k by (cases "fmlookup (hdm_data q) k") (auto simp: hdm_index_ok hdm_ok_def)
  show "hdm_index q' = (hdm_index q)(k \<mapsto> v)"
    using d by (auto simp: fun_eq_iff hdm_index_ok [OF assms(2)] hdm_index_ok [OF hdm_push_back_ok [OF assms]])
qed

lemma hdm_pop_front_ok: "hdm_pop_front q = Some (r, q') \<Longrightarrow> hdm_ok q \<Longrightarrow> hdm_ok q'"
  by (fastforce simp: hdm_pop_front_def hdm_is_empty_lookup hdm_ok_def rust_simps Let_def le_less Suc_le_eq
      split: if_splits)

lemma hdm_pop_front_get:
  assumes "hdm_pop_front q = Some (r, q')" "hdm_ok q" "\<not> hdm_is_empty q"
  shows "r = hdm_index q (hdm_start q)" "hdm_start q' = hdm_start q + 1"
    "hdm_index q' = (hdm_index q)(hdm_start q := None)"
proof -
  from assms(1,3) have "r = fmlookup (hdm_data q) (hdm_start q)" "hdm_start q' = hdm_start q + 1"
    and d: "hdm_data q' = fmdrop (hdm_start q) (hdm_data q)"
    by (auto simp: hdm_pop_front_def rust_simps Let_def)
  then show "r = hdm_index q (hdm_start q)" "hdm_start q' = hdm_start q + 1"
    by (simp_all add: hdm_index_ok [OF assms(2)])
  show "hdm_index q' = (hdm_index q)(hdm_start q := None)"
    using d by (auto simp: fun_eq_iff hdm_index_ok [OF assms(2)] hdm_index_ok [OF hdm_pop_front_ok [OF assms(1,2)]])
qed

lemma hdm_pop_front_shrinks:
  assumes "hdm_pop_front q = Some (v, q')" "hdm_front q \<noteq> None"
  shows "fcard (fmdom (hdm_data q')) < fcard (fmdom (hdm_data q))"
proof -
  have f: "hdm_start q |\<in>| fmdom (hdm_data q)" using assms(2) by (auto simp: hdm_front_def fmlookup_dom_iff)
  then have "\<not> hdm_is_empty q" by (auto simp: hdm_is_empty_def)
  then have "hdm_data q' = fmdrop (hdm_start q) (hdm_data q)"
    using assms(1) by (auto simp: hdm_pop_front_def rust_simps Let_def)
  then show ?thesis using fcard_fminus1_less [OF f] by simp
qed

lemma hdm_insert_ok: "hdm_insert q k v = Some (old, q') \<Longrightarrow> hdm_ok q \<Longrightarrow> hdm_ok q'"
  by (fastforce simp: hdm_insert_def hdm_ok_def rust_simps Let_def split: if_splits)

text \<open>Inserting a key is refused exactly below the lowest one allowed or at the largest integer.\<close>

lemma hdm_insert_get:
  assumes "hdm_insert q k v = Some (old, q')" "hdm_ok q"
  shows "old = hdm_index q k" "hdm_index q' = (hdm_index q)(k \<mapsto> v)"
  using assms(1) by (auto simp: fun_eq_iff hdm_index_ok [OF assms(2)] hdm_index_ok [OF hdm_insert_ok [OF assms]]
      hdm_insert_def rust_simps Let_def)

lemma hdm_insert_None:
  "hdm_ok q \<Longrightarrow> hdm_next q \<le> u64_max \<Longrightarrow>
   hdm_insert q k v = None \<longleftrightarrow> k < hdm_min q \<or> hdm_next q \<le> k \<and> u64_max \<le> k"
  by (auto simp: hdm_insert_def rust_assert_def u64_add_def Let_def)

interpretation hdm: indexed_queue hdm_ok hdm_index hdm_start hdm_push_back hdm_pop_front hdm_is_empty
proof (unfold_locales, goal_cases)
  case (1 q v k q') then show ?case by (rule hdm_push_back_ok)
next
  case (2 q r q') then show ?case by (rule hdm_pop_front_ok)
next
  case (3 q v k q') then show ?case by (rule hdm_push_back_get(3))
next
  case (4 q v k q') then show ?case by (rule hdm_push_back_get(2))
next
  case (5 q v k q') then show ?case by (auto simp: hdm_push_back_def rust_simps Let_def)
next
  case (6 q v k q') then show ?case by (auto simp: hdm_push_back_def hdm_is_empty_def rust_simps Let_def)
next
  case (7 q r q') then show ?case using hdm_pop_front_get by blast
next
  case (8 q k) then show ?case
    by (cases "fmlookup (hdm_data q) k") (auto simp: hdm_index_ok hdm_ok_def)
qed

section \<open>Queues without holes\<close>

text \<open>On the primary server a queue holds a value at every key from its start to the next one.\<close>

primrec dense_data :: "u64 \<Rightarrow> 'v list \<Rightarrow> (u64, 'v) fmap" where
  "dense_data k [] = fmempty"
| "dense_data k (v # vs) = fmupd k v (dense_data (Suc k) vs)"

definition dense :: "u64 \<Rightarrow> 'v list \<Rightarrow> 'v hash_deque_map" where
  "dense k vs = \<lparr>hdm_data = dense_data k vs, hdm_start = k, hdm_next = k + length vs, hdm_min = k\<rparr>"

definition hdm_list :: "'v hash_deque_map \<Rightarrow> 'v list" where
  "hdm_list q = map (\<lambda>i. the (fmlookup (hdm_data q) i)) [hdm_start q..<hdm_next q]"

lemma dense_data_lookup:
  "fmlookup (dense_data k vs) i = (if k \<le> i \<and> i < k + length vs then Some (vs ! (i - k)) else None)"
proof (induction vs arbitrary: k)
  case (Cons v vs)
  then show ?case by (cases "i = k") (auto simp: nth_Cons' Suc_le_eq)
qed simp

lemma dense_select [simp]: "hdm_start (dense k vs) = k" "hdm_next (dense k vs) = k + length vs"
  "hdm_data (dense k vs) = dense_data k vs" "hdm_min (dense k vs) = k"
  by (simp_all add: dense_def)

lemma hdm_list_dense [simp]: "hdm_list (dense k vs) = vs"
  by (rule nth_equalityI) (simp_all add: hdm_list_def dense_data_lookup)

lemma dense_ok [simp]: "hdm_ok (dense k vs)"
  by (auto simp: hdm_ok_def dense_data_lookup split: if_splits)

lemma hdm_new_dense: "hdm_new = dense 0 []"
  by (simp add: hdm_new_def dense_def)

lemma dense_is_empty [simp]: "hdm_is_empty (dense k vs) \<longleftrightarrow> vs = []"
  by (cases vs) (simp_all add: hdm_is_empty_def)

lemma dense_front [simp]: "hdm_front (dense k vs) = (case vs of [] \<Rightarrow> None | v # _ \<Rightarrow> Some v)"
  by (cases vs) (simp_all add: hdm_front_def)

lemma dense_index [simp]:
  "hdm_index (dense k vs) i = (if k \<le> i \<and> i < k + length vs then Some (vs ! (i - k)) else None)"
  by (simp add: hdm_index_ok dense_data_lookup)

lemma dense_push_back:
  "hdm_push_back (dense k vs) v =
     (if k + length vs < u64_max then Some (k + length vs, dense k (vs @ [v])) else None)"
proof -
  have "fmupd (k + length vs) v (dense_data k vs) = dense_data k (vs @ [v])"
    by (rule fmap_ext) (auto simp: dense_data_lookup nth_append)
  then show ?thesis by (simp add: hdm_push_back_def u64_add_def dense_def Let_def)
qed

lemma dense_pop_front:
  "hdm_pop_front (dense k (v # vs)) = (if k < u64_max then Some (Some v, dense (Suc k) vs) else None)"
proof -
  have "fmdrop k (dense_data k (v # vs)) = dense_data (Suc k) vs"
    by (rule fmap_ext) (auto simp: dense_data_lookup nth_Cons')
  then show ?thesis
    by (simp add: hdm_pop_front_def u64_add_def del: dense_data.simps) (simp add: dense_def dense_data_lookup)
qed

lemma dense_put:
  assumes "k \<le> i" "i < k + length vs"
  shows "hdm_put (dense k vs) i v = dense k (vs[i - k := v])"
proof -
  have "fmupd i v (dense_data k vs) = dense_data k (vs[i - k := v])"
    using assms by (intro fmap_ext) (auto simp: dense_data_lookup nth_list_update)
  then show ?thesis by (simp add: hdm_put_def dense_def)
qed

definition hdm_dense :: "'v hash_deque_map \<Rightarrow> bool" where
  "hdm_dense q \<longleftrightarrow> q = dense (hdm_start q) (hdm_list q)"

lemma hdm_dense_dense [simp]: "hdm_dense (dense k vs)"
  by (simp add: hdm_dense_def)

lemma hdm_denseE:
  assumes "hdm_dense q"
  obtains k vs where "q = dense k vs"
  using assms unfolding hdm_dense_def by blast

end
