(* ===== verification/Skeens.thy ===== *)
theory Skeens
  imports Skeens_Types Hash_Deque_Map
begin

text \<open>
  \<open>SkeensState\<close> of \<^verbatim>\<open>fuzzy_log_server/src/skeens.rs\<close>: one chain's half of Skeen's total-order
  multicast. Phase 1 hands a multi-append a local timestamp and queues it; phase 2 brings the
  maximum over all chains; an append is delivered once nothing that still waits can precede it.
  Every method is a function from the state to its return value and the new state; the callback
  arguments of the two flushing methods are replaced by the list of the values they would be
  called with, in call order (the callbacks do not touch the state).
\<close>

section \<open>State\<close>

record 't skeens_state =
  next_timestamp :: u64
  last_flush :: u64
  phase1_queue :: "'t waiting_for_max hash_deque_map"
  got_max_timestamp :: "'t got_max list"
  append_status :: "uuid \<rightharpoonup> append_status"
  recovering :: "uuid \<rightharpoonup> u64 \<times> uuid \<times> order_index list"

definition skeens_new :: "'t skeens_state" where
  "skeens_new = \<lparr>next_timestamp = 1, last_flush = 0, phase1_queue = hdm_new,
     got_max_timestamp = [], append_status = Map.empty, recovering = Map.empty\<rparr>"

text \<open>The block every method opens with: an empty queue must leave the heap empty.\<close>

definition debug_queue_assert :: "'t skeens_state \<Rightarrow> unit option" where
  "debug_queue_assert s =
     (if hdm_is_empty (phase1_queue s) then rust_assert (got_max_timestamp s = []) else Some ())"

text \<open>\<^verbatim>\<open>if self.next_timestamp <= ts { self.next_timestamp = ts + 1 }\<close>\<close>

definition bump_timestamp :: "'t skeens_state \<Rightarrow> u64 \<Rightarrow> 't skeens_state option" where
  "bump_timestamp s ts =
     (if next_timestamp s \<le> ts then do {
        n \<leftarrow> u64_add ts 1;
        Some (s\<lparr>next_timestamp := n\<rparr>)
      } else Some s)"

section \<open>Phase 1\<close>

text \<open>The answer to an append whose id is already known.\<close>

definition occupied_append :: "'t skeens_state \<Rightarrow> append_status \<Rightarrow> skeens_append_res option" where
  "occupied_append s st =
     (case st of
        ASPhase2 t \<Rightarrow> Some (ResPhase2 t)
      | ASPhase1 i \<Rightarrow> do {
          w \<leftarrow> hdm_index (phase1_queue s) i;
          Some (case multi_timestamp w of TPhase1 t \<Rightarrow> OldPhase1 t | TPhase2 t \<Rightarrow> ResPhase2 t)
        }
      | ASSingleton i \<Rightarrow> do {
          w \<leftarrow> hdm_index (phase1_queue s) i;
          Some (case multi_timestamp w of TPhase1 t \<Rightarrow> OldPhase1 t | TPhase2 t \<Rightarrow> ResPhase2 t)
        })"

text \<open>The vacant arm the three phase-1 methods share: take the next timestamp and queue index,
  push the waiting append and record its status.\<close>

definition vacant_append ::
  "'t skeens_state \<Rightarrow> uuid \<Rightarrow> (u64 \<Rightarrow> u64 \<Rightarrow> 't waiting_for_max) \<Rightarrow> (u64 \<Rightarrow> append_status) \<Rightarrow>
   (skeens_append_res \<times> 't skeens_state) option" where
  "vacant_append s uid mk st = do {
     let timestamp = next_timestamp s;
     n \<leftarrow> u64_add (next_timestamp s) 1;
     let node_num = hdm_push_index (phase1_queue s);
     (k, q) \<leftarrow> hdm_push_back (phase1_queue s) (mk timestamp node_num);
     rust_assert (node_num = k);
     Some (NewAppend timestamp node_num,
       s\<lparr>next_timestamp := n, phase1_queue := q, append_status := (append_status s)(uid \<mapsto> st node_num)\<rparr>)
   }"

definition add_single_append ::
  "'t skeens_state \<Rightarrow> uuid \<Rightarrow> u64 \<Rightarrow> val_edge \<Rightarrow> 't \<Rightarrow> (skeens_append_res \<times> 't skeens_state) option" where
  "add_single_append s0 uid timestamp storage t = do {
     debug_queue_assert s0;
     rust_assert (\<not> hdm_is_empty (phase1_queue s0));
     s \<leftarrow> bump_timestamp s0 timestamp;
     case append_status s uid of
       Some st \<Rightarrow> do { r \<leftarrow> occupied_append s st; Some (r, s) }
     | None \<Rightarrow> vacant_append s uid (\<lambda>ts n. SimpleSingle ts n storage t uid) ASSingleton
   }"

definition need_single_at :: "'t skeens_state \<Rightarrow> u64 \<Rightarrow> (bool \<times> 't skeens_state) option" where
  "need_single_at s timestamp = do {
     let is_empty = (hdm_is_empty (phase1_queue s) \<and> got_max_timestamp s = []);
     rust_assert (last_flush s < next_timestamp s);
     if is_empty \<or> timestamp \<le> last_flush s
     then do { s' \<leftarrow> bump_timestamp s timestamp; Some (False, s') }
     else Some (True, s)
   }"

definition add_multi_append ::
  "'t skeens_state \<Rightarrow> uuid \<Rightarrow> storage_ptr \<Rightarrow> bool \<Rightarrow> 't \<Rightarrow> (skeens_append_res \<times> 't skeens_state) option" where
  "add_multi_append s uid storage sentinel t = do {
     debug_queue_assert s;
     (ret, s') \<leftarrow>
       (case append_status s uid of
          Some st \<Rightarrow> do { r \<leftarrow> occupied_append s st; Some (r, s) }
        | None \<Rightarrow> vacant_append s uid
            (\<lambda>ts n. if sentinel then Senti ts n storage t uid else Multi ts n storage t uid) ASPhase1);
     debug_queue_assert s';
     Some (ret, s')
   }"

definition add_snapshot ::
  "'t skeens_state \<Rightarrow> uuid \<Rightarrow> storage_ptr \<Rightarrow> 't \<Rightarrow> (skeens_append_res \<times> 't skeens_state) option" where
  "add_snapshot s uid storage t = do {
     debug_queue_assert s;
     (ret, s') \<leftarrow>
       (case append_status s uid of
          Some st \<Rightarrow> do { r \<leftarrow> occupied_append s st; Some (r, s) }
        | None \<Rightarrow> vacant_append s uid (\<lambda>ts n. Snap ts n storage t uid) ASPhase1);
     debug_queue_assert s';
     Some (ret, s')
   }"

section \<open>Phase 2\<close>

definition can_flush :: "'t skeens_state \<Rightarrow> bool option" where
  "can_flush s =
     (case heap_peek (got_max_timestamp s) of
        None \<Rightarrow> Some False
      | Some g \<Rightarrow>
          (case hdm_front (phase1_queue s) of
             None \<Rightarrow> Some True
           | Some v \<Rightarrow> happens_before g v))"

text \<open>The loop that moves every leading queue entry with a final timestamp to the heap.\<close>

definition front_has_max :: "'t waiting_for_max hash_deque_map \<Rightarrow> bool" where
  "front_has_max q = (case hdm_front q of None \<Rightarrow> False | Some v \<Rightarrow> has_max v)"

function move_ready ::
  "'t waiting_for_max hash_deque_map \<Rightarrow> 't got_max list \<Rightarrow>
   ('t waiting_for_max hash_deque_map \<times> 't got_max list) option" where
  "move_ready q h =
     (if front_has_max q then
        (case hdm_pop_front q of
           Some (Some w, q') \<Rightarrow>
             (case into_got_max w of
                Some g \<Rightarrow>
                  (case heap_push got_max_cmp g h of
                     Some h' \<Rightarrow> move_ready q' h'
                   | None \<Rightarrow> None)
              | None \<Rightarrow> None)
         | _ \<Rightarrow> None)
      else Some (q, h))"
  by pat_completeness auto
termination
  by (relation "measure (\<lambda>(q, h). fcard (fmdom (hdm_data q)))")
    (auto simp: front_has_max_def split: option.splits intro: hdm_pop_front_shrinks)

declare move_ready.simps [simp del]

text \<open>The status update of the occupied arm: only an append still in phase 1 takes the maximum.\<close>

definition set_max_entry ::
  "'t skeens_state \<Rightarrow> uuid \<Rightarrow> u64 \<Rightarrow> (skeens_set_max_res \<times> 't skeens_state) option" where
  "set_max_entry s uid max_timestamp =
     (case append_status s uid of
        None \<Rightarrow> Some (NotWaiting, s)
      | Some (ASPhase2 timestamp) \<Rightarrow> Some (Duplicate timestamp, s)
      | Some (ASSingleton i) \<Rightarrow> do {
          w \<leftarrow> hdm_index (phase1_queue s) i;
          Some (case multi_timestamp w of
                  TPhase1 t \<Rightarrow> Duplicate t | TPhase2 t \<Rightarrow> Duplicate t, s)
        }
      | Some (ASPhase1 i) \<Rightarrow> do {
          w \<leftarrow> hdm_index_mut (phase1_queue s) i;
          set_max \<leftarrow> wfm_set_max_timestamp w max_timestamp;
          Some (case set_max of
                  Inl ts \<Rightarrow> (Duplicate ts, s)
                | Inr w' \<Rightarrow> (SetMaxOk,
                    s\<lparr>phase1_queue := hdm_put (phase1_queue s) i w',
                      append_status := (append_status s)(uid \<mapsto> ASPhase2 max_timestamp)\<rparr>))
        })"

definition set_max_timestamp ::
  "'t skeens_state \<Rightarrow> uuid \<Rightarrow> u64 \<Rightarrow> (skeens_set_max_res \<times> 't skeens_state) option" where
  "set_max_timestamp s0 sk2_id max_timestamp = do {
     debug_queue_assert s0;
     s1 \<leftarrow> bump_timestamp s0 max_timestamp;
     (ret, s2) \<leftarrow> set_max_entry s1 sk2_id max_timestamp;
     if ret = SetMaxOk then do {
       (q, h) \<leftarrow> move_ready (phase1_queue s2) (got_max_timestamp s2);
       let s3 = s2\<lparr>phase1_queue := q, got_max_timestamp := h\<rparr>;
       b \<leftarrow> can_flush s3;
       Some (if b then NeedsFlush else SetMaxOk, s3)
     } else do {
       debug_queue_assert s2;
       Some (ret, s2)
     }
   }"

function flush_got_max_timestamp :: "'t skeens_state \<Rightarrow> ('t got_max list \<times> 't skeens_state) option" where
  "flush_got_max_timestamp s =
     (case can_flush s of
        None \<Rightarrow> None
      | Some False \<Rightarrow> Some ([], s)
      | Some True \<Rightarrow>
          (case got_max_timestamp s of
             [] \<Rightarrow> None
           | g # h \<Rightarrow>
               if append_status s (gm_get_id g) = None then None
               else map_option (\<lambda>(gs, s'). (g # gs, s'))
                 (flush_got_max_timestamp
                    (s\<lparr>got_max_timestamp := h,
                       append_status := (append_status s)(gm_get_id g := None),
                       last_flush := max (gm_timestamp g) (last_flush s)\<rparr>))))"
  by pat_completeness auto
termination
  by (relation "measure (\<lambda>s. length (got_max_timestamp s))") auto

declare flush_got_max_timestamp.simps [simp del]

section \<open>Replication\<close>

text \<open>The part the three first-round replication methods share after their range check.\<close>

definition replicate_round1 ::
  "'t skeens_state \<Rightarrow> u64 \<Rightarrow> u64 \<Rightarrow> uuid \<Rightarrow> 't waiting_for_max \<Rightarrow> append_status \<Rightarrow>
   (bool \<times> 't skeens_state) option" where
  "replicate_round1 s0 timestamp node_num uid w st = do {
     rust_assert (hdm_start_index (phase1_queue s0) \<le> node_num);
     s \<leftarrow> bump_timestamp s0 timestamp;
     (case append_status s uid of
        Some _ \<Rightarrow> Some (False, s)
      | None \<Rightarrow> do {
          (old, q) \<leftarrow> hdm_insert (phase1_queue s) node_num w;
          rust_assert (old = None);
          Some (True, s\<lparr>append_status := (append_status s)(uid \<mapsto> st), phase1_queue := q\<rparr>)
        })
   }"

definition replicate_single_append_round1 ::
  "'t skeens_state \<Rightarrow> u64 \<Rightarrow> u64 \<Rightarrow> uuid \<Rightarrow> val_edge \<Rightarrow> 't \<Rightarrow> (bool \<times> 't skeens_state) option" where
  "replicate_single_append_round1 s timestamp node_num uid storage t = do {
     debug_queue_assert s;
     replicate_round1 s timestamp node_num uid
       (SimpleSingle timestamp node_num storage t uid) (ASSingleton node_num)
   }"

definition replicate_multi_append_round1 ::
  "'t skeens_state \<Rightarrow> u64 \<Rightarrow> u64 \<Rightarrow> uuid \<Rightarrow> storage_ptr \<Rightarrow> bool \<Rightarrow> 't \<Rightarrow>
   (bool \<times> 't skeens_state) option" where
  "replicate_multi_append_round1 s timestamp node_num uid storage sentinel t = do {
     debug_queue_assert s;
     replicate_round1 s timestamp node_num uid
       (if sentinel then Senti timestamp node_num storage t uid
        else Multi timestamp node_num storage t uid) (ASPhase1 node_num)
   }"

definition replicate_snapshot_round1 ::
  "'t skeens_state \<Rightarrow> u64 \<Rightarrow> u64 \<Rightarrow> uuid \<Rightarrow> storage_ptr \<Rightarrow> 't \<Rightarrow> (bool \<times> 't skeens_state) option" where
  "replicate_snapshot_round1 s timestamp node_num uid storage t =
     replicate_round1 s timestamp node_num uid (Snap timestamp node_num storage t uid)
       (ASPhase1 node_num)"

function flush_replicas :: "'t skeens_state \<Rightarrow> ('t replicated_skeens list \<times> 't skeens_state) option" where
  "flush_replicas s =
     (if (case hdm_front (phase1_queue s) of None \<Rightarrow> False | Some w \<Rightarrow> has_replication w) then
        (case hdm_pop_front (phase1_queue s) of
           Some (Some w, q) \<Rightarrow>
             (case to_replica w of
                None \<Rightarrow> None
              | Some (uid, replica) \<Rightarrow>
                  if append_status s uid = None then None
                  else map_option (\<lambda>(rs, s'). (replica # rs, s'))
                    (flush_replicas (s\<lparr>phase1_queue := q,
                       append_status := (append_status s)(uid := None)\<rparr>)))
         | _ \<Rightarrow> None)
      else Some ([], s))"
  by pat_completeness auto
termination
  by (relation "measure (\<lambda>s. fcard (fmdom (hdm_data (phase1_queue s))))")
    (auto split: option.splits intro: hdm_pop_front_shrinks)

declare flush_replicas.simps [simp del]

definition replicate_round2 ::
  "'t skeens_state \<Rightarrow> uuid \<Rightarrow> u64 \<Rightarrow> u64 \<Rightarrow> ('t replicated_skeens list \<times> 't skeens_state) option" where
  "replicate_round2 s0 uid max_timestamp index =
     (case (case append_status s0 uid of
              Some (ASPhase1 offset) \<Rightarrow> Some offset
            | Some (ASSingleton offset) \<Rightarrow> Some offset
            | _ \<Rightarrow> None) of
        None \<Rightarrow> Some ([], s0)
      | Some offset \<Rightarrow> do {
          s \<leftarrow> bump_timestamp s0 max_timestamp;
          found \<leftarrow> hdm_get_mut (phase1_queue s) offset;
          q \<leftarrow> (case found of
                 None \<Rightarrow> Some (phase1_queue s)
               | Some w \<Rightarrow> do {
                   w' \<leftarrow> replicate_max_timetamp w max_timestamp index uid;
                   Some (hdm_put (phase1_queue s) offset w')
                 });
          let s' = s\<lparr>phase1_queue := q\<rparr>;
          if offset \<noteq> hdm_start_index q then Some ([], s') else flush_replicas s'
        })"

section \<open>Recovery and the remaining queries\<close>

definition skeens_is_empty :: "'t skeens_state \<Rightarrow> bool" where
  "skeens_is_empty s \<longleftrightarrow> hdm_is_empty (phase1_queue s) \<and> got_max_timestamp s = []"

definition tas_recoverer ::
  "'t skeens_state \<Rightarrow> uuid \<Rightarrow> uuid \<times> order_index list \<Rightarrow> uuid option \<Rightarrow>
   ((uuid option + u64) \<times> 't skeens_state) option" where
  "tas_recoverer s write_id recoverer old_recoverer =
     (case (recovering s write_id, old_recoverer) of
        (None, Some _) \<Rightarrow> Some (Inl None, s)
      | (None, None) \<Rightarrow>
          Some (Inr 1, s\<lparr>recovering := (recovering s)(write_id \<mapsto> (1, recoverer))\<rparr>)
      | (Some (n, r, locs), Some old) \<Rightarrow>
          if r = old then do {
            n' \<leftarrow> u64_add n 1;
            Some (Inr n', s\<lparr>recovering := (recovering s)(write_id \<mapsto> (n', recoverer))\<rparr>)
          } else Some (Inl (Some r), s)
      | (Some (n, r, locs), None) \<Rightarrow> Some (Inl (Some r), s))"

definition replicate_recoverer ::
  "'t skeens_state \<Rightarrow> uuid \<Rightarrow> uuid \<times> order_index list \<Rightarrow> u64 \<Rightarrow> (uuid option + unit) \<times> 't skeens_state" where
  "replicate_recoverer s write_id recoverer recoverer_index =
     (case recovering s write_id of
        None \<Rightarrow>
          (Inr (), s\<lparr>recovering := (recovering s)(write_id \<mapsto> (recoverer_index, recoverer))\<rparr>)
      | Some (n, r, locs) \<Rightarrow>
          if n < recoverer_index
          then (Inr (), s\<lparr>recovering := (recovering s)(write_id \<mapsto> (recoverer_index, recoverer))\<rparr>)
          else (Inl (Some r), s))"

definition check_skeens1 :: "'t skeens_state \<Rightarrow> uuid \<Rightarrow> u64 \<Rightarrow> bool option" where
  "check_skeens1 s write_id timestamp =
     (case append_status s write_id of
        Some (ASPhase1 i) \<Rightarrow> do {
          w \<leftarrow> hdm_index (phase1_queue s) i;
          Some (case multi_timestamp w of TPhase1 t \<Rightarrow> t = timestamp | TPhase2 _ \<Rightarrow> False)
        }
      | _ \<Rightarrow> Some False)"

end
