(* ===== verification/Skeens_Inv.thy ===== *)
theory Skeens_Inv
  imports Skeens
begin

text \<open>
  The invariant of a chain's \<open>SkeensState\<close> on its primary server and what every method keeps of
  it. The queue holds appends in the order of their phase-1 timestamps; the heap holds appends
  that have their final timestamp, sorted by the delivery order; between two client requests the
  front of the queue still waits and the top of the heap may not overtake it.
\<close>

section \<open>Entries\<close>

definition wts :: "'t waiting_for_max \<Rightarrow> u64" where
  "wts w = (case multi_timestamp w of TPhase1 t \<Rightarrow> t | TPhase2 t \<Rightarrow> t)"

fun is_simple_single :: "'t waiting_for_max \<Rightarrow> bool" where
  "is_simple_single (SimpleSingle _ _ _ _ _) = True"
| "is_simple_single _ = False"

text \<open>The variants a primary queues.\<close>

fun primary_entry :: "'t waiting_for_max \<Rightarrow> bool" where
  "primary_entry (Single _ _ _ _ _) = False"
| "primary_entry (ReplicatedMulti _ _ _ _ _) = False"
| "primary_entry (ReplicatedSenti _ _ _ _ _) = False"
| "primary_entry (ReplicatedSnap _ _ _ _ _) = False"
| "primary_entry (ReplicatedSingle _ _ _ _ _) = False"
| "primary_entry _ = True"

text \<open>A multi-append whose maximum has arrived while it is still behind the front.\<close>

definition is_got_max :: "'t waiting_for_max \<Rightarrow> bool" where
  "is_got_max w \<longleftrightarrow> has_max w \<and> \<not> is_simple_single w"

text \<open>The least delivery key an entry can still get.\<close>

definition wkey :: "'t waiting_for_max \<Rightarrow> u64 \<times> bool \<times> uuid" where
  "wkey w = (wts w, is_simple_single w, wfm_get_id w)"

definition status_of_entry :: "u64 \<Rightarrow> 't waiting_for_max \<Rightarrow> append_status" where
  "status_of_entry k w =
     (if \<not> has_max w then ASPhase1 k
      else if is_simple_single w then ASSingleton k else ASPhase2 (wts w))"

lemma into_got_max_primary:
  assumes "primary_entry w" "has_max w"
  obtains g where "into_got_max w = Some g" "gm_key g = wkey w" "gm_valid g"
    "gm_get_id g = wfm_get_id w" "gm_timestamp g = wts w" "is_multi g = is_got_max w"
  using assms by (cases w) (auto simp: gm_key_def wkey_def wts_def is_got_max_def)

lemma set_max_waiting:
  assumes "\<not> has_max w" "wts w \<le> mx"
  obtains w' where "wfm_set_max_timestamp w mx = Some (Inr w')" "wfm_get_id w' = wfm_get_id w"
    "primary_entry w'" "is_got_max w'" "wts w' = mx"
  using assms by (cases w) (auto simp: wts_def is_got_max_def rust_assert_def)

lemma set_max_waiting_below:
  "\<not> has_max w \<Longrightarrow> mx < wts w \<Longrightarrow> wfm_set_max_timestamp w mx = None"
  by (cases w) (auto simp: wts_def rust_assert_def)

lemma happens_before_waiting:
  assumes "\<not> has_max w"
  shows "happens_before g w =
    Some (if is_multi g then gm_key g < wkey w else gm_timestamp g \<le> wts w)"
  using assms
  by (cases w)
    (auto simp: wts_def wkey_def gm_key_def happens_before_multi_def happens_before_single_def
      less_prod_def')

lemma waiting_not_single: "\<not> has_max w \<Longrightarrow> \<not> is_simple_single w \<and> \<not> is_got_max w"
  by (cases w) (auto simp: is_got_max_def)

section \<open>The core invariant\<close>

definition queue_order :: "'t waiting_for_max \<Rightarrow> 't waiting_for_max \<Rightarrow> bool" where
  "queue_order a b \<longleftrightarrow> (\<not> is_got_max a \<longrightarrow> wts a < wts b)"

definition statuses_ok ::
  "u64 \<Rightarrow> 't waiting_for_max list \<Rightarrow> 't got_max list \<Rightarrow> (uuid \<rightharpoonup> append_status) \<Rightarrow> bool" where
  "statuses_ok start ws h st \<longleftrightarrow>
     distinct (map wfm_get_id ws @ map gm_get_id h) \<and>
     dom st = wfm_get_id ` set ws \<union> gm_get_id ` set h \<and>
     (\<forall>i < length ws. st (wfm_get_id (ws ! i)) = Some (status_of_entry (start + i) (ws ! i))) \<and>
     (\<forall>g \<in> set h. is_multi g \<longrightarrow> st (gm_get_id g) = Some (ASPhase2 (gm_timestamp g)))"

definition core_rel ::
  "u64 \<Rightarrow> u64 \<Rightarrow> u64 \<Rightarrow> 't waiting_for_max list \<Rightarrow> 't got_max list \<Rightarrow> (uuid \<rightharpoonup> append_status) \<Rightarrow> bool" where
  "core_rel nt lf start ws h st \<longleftrightarrow>
     list_all primary_entry ws \<and> sorted_wrt queue_order ws \<and>
     (\<forall>w \<in> set ws. wts w < nt) \<and> (\<forall>g \<in> set h. gm_timestamp g < nt) \<and> lf < nt \<and>
     list_all gm_valid h \<and> key_sorted gm_key h \<and>
     statuses_ok start ws h st \<and>
     (\<forall>g \<in> set h. \<not> is_multi g \<longrightarrow> (\<forall>w \<in> set ws. gm_timestamp g < wts w))"

definition front_waits :: "'t waiting_for_max list \<Rightarrow> bool" where
  "front_waits ws \<longleftrightarrow> (ws \<noteq> [] \<longrightarrow> \<not> has_max (hd ws))"

text \<open>All delivery keys still to come are at least these.\<close>

definition pending_keys :: "'t waiting_for_max list \<Rightarrow> 't got_max list \<Rightarrow> (u64 \<times> bool \<times> uuid) set" where
  "pending_keys ws h = wkey ` set ws \<union> gm_key ` set h"

definition pending_ids :: "'t waiting_for_max list \<Rightarrow> 't got_max list \<Rightarrow> uuid multiset" where
  "pending_ids ws h = mset (map wfm_get_id ws) + mset (map gm_get_id h)"

definition queue_of :: "'t skeens_state \<Rightarrow> 't waiting_for_max list" where
  "queue_of s = hdm_list (phase1_queue s)"

definition sk_core :: "'t skeens_state \<Rightarrow> bool" where
  "sk_core s \<longleftrightarrow> hdm_dense (phase1_queue s) \<and>
     core_rel (next_timestamp s) (last_flush s) (hdm_start (phase1_queue s)) (queue_of s)
       (got_max_timestamp s) (append_status s)"

definition sk_inv :: "'t skeens_state \<Rightarrow> bool" where
  "sk_inv s \<longleftrightarrow> sk_core s \<and> front_waits (queue_of s) \<and> can_flush s = Some False"

lemma gm_key_id: "gm_key g = gm_key g' \<Longrightarrow> gm_get_id g = gm_get_id g'"
  by (simp add: gm_key_def)

section \<open>Moving ready entries to the heap\<close>

lemma core_rel_move:
  assumes core: "core_rel nt lf start (w # ws) h st" and hm: "has_max w"
  obtains g h' where "into_got_max w = Some g" "heap_push got_max_cmp g h = Some h'"
    "core_rel nt lf (Suc start) ws h' st" "pending_keys ws h' = pending_keys (w # ws) h"
    "pending_ids ws h' = pending_ids (w # ws) h"
proof -
  from core have pw: "primary_entry w" by (simp add: core_rel_def)
  then obtain g where g: "into_got_max w = Some g" "gm_key g = wkey w" "gm_valid g"
    "gm_get_id g = wfm_get_id w" "gm_timestamp g = wts w" "is_multi g = is_got_max w"
    using hm by (rule into_got_max_primary)
  have fresh: "gm_key g \<notin> gm_key ` set h"
  proof
    assume "gm_key g \<in> gm_key ` set h"
    then have "wfm_get_id w \<in> gm_get_id ` set h"
      using g(4) gm_key_id by (metis imageE imageI)
    then show False using core by (simp add: core_rel_def statuses_ok_def)
  qed
  obtain h' where h': "heap_push got_max_cmp g h = Some h'" "key_sorted gm_key h'"
    "set h' = insert g (set h)"
    using gm.push_total [of h g] core g(3) fresh by (auto simp: core_rel_def)
  have ms: "mset h' = add_mset g (mset h)" using h'(1) by (rule heap_push_mset)
  then have mi: "mset (map gm_get_id h') = add_mset (wfm_get_id w) (mset (map gm_get_id h))"
    using g(4) by simp
  have dist: "distinct (map wfm_get_id ws @ map gm_get_id h')"
  proof -
    have "mset (map wfm_get_id ws @ map gm_get_id h') = mset (map wfm_get_id (w # ws) @ map gm_get_id h)"
      using mi by simp
    then show ?thesis
      using core unfolding core_rel_def statuses_ok_def by (metis mset_eq_imp_distinct_iff)
  qed
  have stw: "st (wfm_get_id w) = Some (status_of_entry start w)"
    using core by (auto simp: core_rel_def statuses_ok_def)
  have "statuses_ok (Suc start) ws h' st"
    unfolding statuses_ok_def
  proof (intro conjI)
    show "distinct (map wfm_get_id ws @ map gm_get_id h')" by (rule dist)
    show "dom st = wfm_get_id ` set ws \<union> gm_get_id ` set h'"
      using core h'(3) g(4) by (auto simp: core_rel_def statuses_ok_def)
    show "\<forall>i < length ws. st (wfm_get_id (ws ! i)) = Some (status_of_entry (Suc start + i) (ws ! i))"
      using core by (fastforce simp: core_rel_def statuses_ok_def dest: spec [of _ "Suc _"])
    show "\<forall>g \<in> set h'. is_multi g \<longrightarrow> st (gm_get_id g) = Some (ASPhase2 (gm_timestamp g))"
      using core h'(3) g stw hm
      by (auto simp: core_rel_def statuses_ok_def status_of_entry_def is_got_max_def)
  qed
  then have "core_rel nt lf (Suc start) ws h' st"
    using core h' g unfolding core_rel_def
    by (auto simp: list_all_iff queue_order_def)
  moreover have "pending_keys ws h' = pending_keys (w # ws) h"
    using h'(3) g(2) by (auto simp: pending_keys_def)
  moreover have "pending_ids ws h' = pending_ids (w # ws) h"
    using mi by (simp add: pending_ids_def)
  ultimately show ?thesis using that g(1) h'(1) by blast
qed

lemma move_ready_front_waits:
  "front_waits ws \<Longrightarrow> move_ready (dense k ws) h =
     Some (dense k ws, h)"
  by (subst move_ready.simps) (cases ws; simp add: front_has_max_def front_waits_def)

lemma move_ready_step:
  assumes "has_max w" "into_got_max w = Some g" "heap_push got_max_cmp g h = Some h'"
  shows "move_ready (dense k (w # ws)) h =
    (if k < u64_max then move_ready (dense (Suc k) ws) h' else None)"
  using assms
  by (subst move_ready.simps)
    (auto simp: front_has_max_def dense_pop_front)

lemma move_ready_core:
  assumes "core_rel nt lf k ws h st"
  shows "case move_ready (dense k ws) h of
      None \<Rightarrow> u64_max < k + length ws
    | Some (q', h') \<Rightarrow> (\<exists>n. q' = dense (k + n) (drop n ws) \<and>
        n \<le> length ws \<and> core_rel nt lf (k + n) (drop n ws) h' st \<and> front_waits (drop n ws) \<and>
        pending_keys (drop n ws) h' = pending_keys ws h \<and>
        pending_ids (drop n ws) h' = pending_ids ws h)"
  using assms
proof (induction ws arbitrary: k h)
  case Nil
  then show ?case by (simp add: move_ready_front_waits [of "[]", simplified] front_waits_def)
next
  case (Cons w ws)
  show ?case
  proof (cases "has_max w")
    case False
    then have fw: "front_waits (w # ws)" by (simp add: front_waits_def)
    show ?thesis
      unfolding move_ready_front_waits [OF fw]
      using Cons.prems fw by (auto intro!: exI [of _ 0])
  next
    case True
    from core_rel_move [OF Cons.prems True] obtain g h' where
      g: "into_got_max w = Some g" "heap_push got_max_cmp g h = Some h'"
      and core': "core_rel nt lf (Suc k) ws h' st"
      and keys: "pending_keys ws h' = pending_keys (w # ws) h"
      and ids: "pending_ids ws h' = pending_ids (w # ws) h" by blast
    note step = move_ready_step [OF True g, of k ws]
    show ?thesis
    proof (cases "k < u64_max")
      case False
      then show ?thesis unfolding step by simp
    next
      case ku: True
      note IH = Cons.IH [OF core']
      show ?thesis
      proof (cases "move_ready (dense (Suc k) ws) h'")
        case None
        then show ?thesis using IH ku unfolding step by simp
      next
        case (Some r)
        then obtain n q2 h2 where "r = (q2, h2)"
          "q2 = dense (Suc k + n) (drop n ws)"
          "n \<le> length ws" "core_rel nt lf (Suc k + n) (drop n ws) h2 st" "front_waits (drop n ws)"
          "pending_keys (drop n ws) h2 = pending_keys ws h'"
          "pending_ids (drop n ws) h2 = pending_ids ws h'"
          using IH by (cases r) auto
        then show ?thesis
          using Some ku keys ids unfolding step by (auto intro!: exI [of _ "Suc n"])
      qed
    qed
  qed
qed

section \<open>Flushing the heap\<close>

lemma gm_key_less_wkeyI: "gm_timestamp g < wts w \<Longrightarrow> gm_key g < wkey w"
  by (simp add: gm_key_def wkey_def less_prod_def')

lemma flush_front:
  assumes core: "core_rel nt lf k ws h st" and g: "g \<in> set h" and fw: "front_waits ws"
    and ne: "ws \<noteq> []" and hb: "happens_before g (hd ws) = Some True" and w: "w \<in> set ws"
  shows "gm_key g < wkey w"
proof (cases "is_multi g")
  case False
  then have "gm_timestamp g < wts w" using core g w by (auto simp: core_rel_def)
  then show ?thesis by (rule gm_key_less_wkeyI)
next
  case True
  from fw ne have nm: "\<not> has_max (hd ws)" by (simp add: front_waits_def)
  then have lt: "gm_key g < wkey (hd ws)" using hb True by (simp add: happens_before_waiting)
  show ?thesis
  proof (cases "w = hd ws")
    case True
    then show ?thesis using lt by simp
  next
    case False
    then have "w \<in> set (tl ws)" using w ne by (cases ws) auto
    then have "queue_order (hd ws) w"
      using core ne by (cases ws) (auto simp: core_rel_def)
    then have "wts (hd ws) < wts w" using nm by (simp add: queue_order_def waiting_not_single)
    moreover have "gm_timestamp g \<le> wts (hd ws)"
      using lt by (auto simp: gm_key_def wkey_def less_prod_def')
    ultimately show ?thesis by (intro gm_key_less_wkeyI) simp
  qed
qed

lemma can_flush_core:
  assumes "phase1_queue s = dense k ws" "front_waits ws"
  shows "can_flush s = Some (case got_max_timestamp s of [] \<Rightarrow> False
    | g # _ \<Rightarrow> ws = [] \<or> happens_before g (hd ws) = Some True)"
proof (cases "got_max_timestamp s")
  case Nil
  then show ?thesis by (simp add: can_flush_def)
next
  case (Cons g h)
  then show ?thesis
    using assms happens_before_waiting [of "hd ws" g]
    by (cases ws) (auto simp: can_flush_def front_waits_def)
qed

lemma core_rel_flush_step:
  assumes core: "core_rel nt lf k ws (g # h) st"
  shows "core_rel nt (max (gm_timestamp g) lf) k ws h (st(gm_get_id g := None))"
proof -
  have "statuses_ok k ws h (st(gm_get_id g := None))"
    unfolding statuses_ok_def
  proof (intro conjI)
    show "distinct (map wfm_get_id ws @ map gm_get_id h)"
      using core by (simp add: core_rel_def statuses_ok_def)
    show "dom (st(gm_get_id g := None)) = wfm_get_id ` set ws \<union> gm_get_id ` set h"
      using core by (auto simp: core_rel_def statuses_ok_def)
    have "gm_get_id g \<notin> wfm_get_id ` set ws" "gm_get_id g \<notin> gm_get_id ` set h"
      using core by (auto simp: core_rel_def statuses_ok_def)
    then have ne: "\<And>w. w \<in> set ws \<Longrightarrow> wfm_get_id w \<noteq> gm_get_id g"
      "\<And>x. x \<in> set h \<Longrightarrow> gm_get_id x \<noteq> gm_get_id g" by (metis imageI)+
    show "\<forall>i < length ws. (st(gm_get_id g := None)) (wfm_get_id (ws ! i)) =
        Some (status_of_entry (k + i) (ws ! i))"
      using core ne(1) by (auto simp: core_rel_def statuses_ok_def)
    show "\<forall>x \<in> set h. is_multi x \<longrightarrow>
        (st(gm_get_id g := None)) (gm_get_id x) = Some (ASPhase2 (gm_timestamp x))"
      using core ne(2) by (auto simp: core_rel_def statuses_ok_def)
  qed
  then show ?thesis using core by (auto simp: core_rel_def)
qed

lemma flush_core:
  assumes "core_rel (next_timestamp s) (last_flush s) k ws (got_max_timestamp s) (append_status s)"
    and "front_waits ws" and "phase1_queue s = dense k ws"
  shows "\<exists>gs s'. flush_got_max_timestamp s = Some (gs, s') \<and>
    got_max_timestamp s = gs @ got_max_timestamp s' \<and>
    next_timestamp s' = next_timestamp s \<and> phase1_queue s' = phase1_queue s \<and>
    recovering s' = recovering s \<and> last_flush s' \<in> insert (last_flush s) (gm_timestamp ` set gs) \<and>
    core_rel (next_timestamp s') (last_flush s') k ws (got_max_timestamp s') (append_status s') \<and>
    can_flush s' = Some False \<and>
    (\<forall>g \<in> set gs. \<forall>x \<in> pending_keys ws (got_max_timestamp s'). gm_key g < x)"
  using assms
proof (induction "got_max_timestamp s" arbitrary: s)
  case Nil
  then have "can_flush s = Some False" by (simp add: can_flush_def)
  with Nil show ?case by (subst flush_got_max_timestamp.simps) auto
next
  case (Cons g h)
  note cf = can_flush_core [OF Cons.prems(3,2)]
  show ?case
  proof (cases "ws = [] \<or> happens_before g (hd ws) = Some True")
    case False
    then have "can_flush s = Some False" using cf Cons.hyps(2) [symmetric] by simp
    with Cons.prems show ?thesis by (subst flush_got_max_timestamp.simps) auto
  next
    case True
    then have cft: "can_flush s = Some True" using cf Cons.hyps(2) [symmetric] by simp
    let ?s = "s\<lparr>got_max_timestamp := h, append_status := (append_status s)(gm_get_id g := None),
      last_flush := max (gm_timestamp g) (last_flush s)\<rparr>"
    have core: "core_rel (next_timestamp s) (last_flush s) k ws (g # h) (append_status s)"
      using Cons.prems(1) Cons.hyps(2) by simp
    have "\<exists>gs s'. flush_got_max_timestamp ?s = Some (gs, s') \<and>
      got_max_timestamp ?s = gs @ got_max_timestamp s' \<and>
      next_timestamp s' = next_timestamp ?s \<and> phase1_queue s' = phase1_queue ?s \<and>
      recovering s' = recovering ?s \<and> last_flush s' \<in> insert (last_flush ?s) (gm_timestamp ` set gs) \<and>
      core_rel (next_timestamp s') (last_flush s') k ws (got_max_timestamp s') (append_status s') \<and>
      can_flush s' = Some False \<and>
      (\<forall>g \<in> set gs. \<forall>x \<in> pending_keys ws (got_max_timestamp s'). gm_key g < x)"
      using Cons.prems(2,3) core_rel_flush_step [OF core] by (intro Cons.hyps(1)) simp_all
    then obtain gs s' where IH: "flush_got_max_timestamp ?s = Some (gs, s')"
      "h = gs @ got_max_timestamp s'" "next_timestamp s' = next_timestamp s"
      "phase1_queue s' = phase1_queue s" "recovering s' = recovering s"
      and IH_lf: "last_flush s' \<in> insert (max (gm_timestamp g) (last_flush s)) (gm_timestamp ` set gs)"
      and IH2: "core_rel (next_timestamp s') (last_flush s') k ws (got_max_timestamp s') (append_status s')"
      "can_flush s' = Some False"
      "\<forall>g \<in> set gs. \<forall>x \<in> pending_keys ws (got_max_timestamp s'). gm_key g < x"
      by auto
    have known: "append_status s (gm_get_id g) \<noteq> None"
      using core by (auto simp: core_rel_def statuses_ok_def)
    have "flush_got_max_timestamp s = Some (g # gs, s')"
      by (subst flush_got_max_timestamp.simps)
        (use cft known IH(1) Cons.hyps(2) [symmetric] in auto)
    moreover have "last_flush s' \<in> insert (last_flush s) (gm_timestamp ` set (g # gs))"
      using IH_lf by (auto simp: max_def split: if_splits)
    moreover have "gm_key g < x" if "x \<in> pending_keys ws (got_max_timestamp s')" for x
    proof -
      from that consider w where "w \<in> set ws" "x = wkey w" | y where "y \<in> set h" "x = gm_key y"
        using IH(2) by (auto simp: pending_keys_def)
      then show ?thesis
      proof cases
        case 1
        moreover from 1 have "ws \<noteq> []" by auto
        ultimately show ?thesis using flush_front [OF core _ Cons.prems(2), of g w] True by auto
      next
        case 2
        then show ?thesis using core by (auto simp: core_rel_def)
      qed
    qed
    ultimately show ?thesis
      using IH IH2 Cons.hyps(2) [symmetric] by (intro exI [of _ "g # gs"] exI [of _ s']) simp
  qed
qed

section \<open>The invariant between requests\<close>

text \<open>Everything still to be delivered comes after the keys in \<open>K\<close>, and so will every append
  that arrives later.\<close>

definition above :: "(u64 \<times> bool \<times> uuid) set \<Rightarrow> 't skeens_state \<Rightarrow> bool" where
  "above K s \<longleftrightarrow> (\<forall>k \<in> K. fst k < next_timestamp s \<and>
     (\<forall>x \<in> pending_keys (queue_of s) (got_max_timestamp s). k < x))"

lemma sk_coreE:
  assumes "sk_core s"
  obtains k ws where "phase1_queue s = dense k ws" "queue_of s = ws"
    "core_rel (next_timestamp s) (last_flush s) k ws (got_max_timestamp s) (append_status s)"
proof -
  obtain k ws where q: "phase1_queue s = dense k ws"
    using assms by (auto simp: sk_core_def elim: hdm_denseE)
  with assms show ?thesis by (intro that) (auto simp: sk_core_def queue_of_def)
qed

lemma queue_of_map_Some [simp]:
  "phase1_queue s = dense k ws \<Longrightarrow> queue_of s = ws"
  by (simp add: queue_of_def)

lemma sk_coreI:
  "phase1_queue s = dense k ws \<Longrightarrow>
   core_rel (next_timestamp s) (last_flush s) k ws (got_max_timestamp s) (append_status s) \<Longrightarrow>
   sk_core s"
  by (auto simp: sk_core_def)

lemma sk_inv_new: "sk_inv skeens_new"
  by (simp add: sk_inv_def sk_core_def core_rel_def skeens_new_def hdm_new_dense queue_of_def
      statuses_ok_def front_waits_def can_flush_def)

lemma sk_inv_queue:
  assumes "sk_inv s"
  obtains k where "phase1_queue s = dense k (queue_of s)"
  using assms by (auto simp: sk_inv_def elim: sk_coreE)

lemma sk_inv_heap_queue:
  assumes "sk_inv s" "got_max_timestamp s \<noteq> []"
  shows "queue_of s \<noteq> []"
proof
  assume "queue_of s = []"
  with sk_inv_queue [OF assms(1)] obtain k where "phase1_queue s = dense k []" by metis
  then have "can_flush s = Some True" using assms(2) by (cases "got_max_timestamp s") (simp_all add: can_flush_def)
  then show False using assms(1) by (simp add: sk_inv_def)
qed

lemma queue_of_empty:
  assumes "sk_inv s"
  shows "hdm_is_empty (phase1_queue s) \<longleftrightarrow> queue_of s = []"
  using sk_inv_queue [OF assms] dense_is_empty by metis

lemma sk_inv_next: "sk_inv s \<Longrightarrow> hdm_next (phase1_queue s) = hdm_start (phase1_queue s) + length (queue_of s)"
  by (metis sk_inv_queue dense_select(1,2))

lemma sk_inv_debug_assert: "sk_inv s \<Longrightarrow> debug_queue_assert s = Some ()"
  using sk_inv_heap_queue [of s] queue_of_empty [of s]
  by (cases "got_max_timestamp s") (auto simp: debug_queue_assert_def)

lemma sk_inv_heap_multi:
  assumes inv: "sk_inv s" and g: "g \<in> set (got_max_timestamp s)"
  shows "is_multi g"
proof (rule ccontr)
  assume nm: "\<not> is_multi g"
  from inv have core: "sk_core s" and fw: "front_waits (queue_of s)"
    and cf: "can_flush s = Some False" by (auto simp: sk_inv_def)
  from core obtain k ws where q: "phase1_queue s = dense k ws"
    "queue_of s = ws"
    "core_rel (next_timestamp s) (last_flush s) k ws (got_max_timestamp s) (append_status s)"
    by (rule sk_coreE)
  from g obtain g0 h where h: "got_max_timestamp s = g0 # h" by (cases "got_max_timestamp s") auto
  have ne: "ws \<noteq> []" using sk_inv_heap_queue [OF inv] h q(2) by auto
  have hb: "happens_before g0 (hd ws) \<noteq> Some True"
    using can_flush_core [OF q(1)] fw q(2) cf h ne by simp
  have "gm_timestamp g < wts (hd ws)" using q(3) g nm ne by (auto simp: core_rel_def)
  moreover have "gm_key g0 \<le> gm_key g" using q(3) h g by (auto simp: core_rel_def)
  then have "gm_timestamp g0 \<le> gm_timestamp g" by (auto simp: gm_key_def less_eq_prod_def)
  ultimately have "gm_timestamp g0 < wts (hd ws)" by simp
  then have "happens_before g0 (hd ws) = Some True"
    using fw q(2) ne gm_key_less_wkeyI [of g0 "hd ws"]
    by (simp add: front_waits_def happens_before_waiting)
  with hb show False by simp
qed

text \<open>What a recorded status says about the queue.\<close>

lemma sk_inv_status:
  assumes inv: "sk_inv s" and st: "append_status s uid = Some a"
  shows "case a of
      ASPhase1 i \<Rightarrow> (\<exists>w. hdm_index (phase1_queue s) i = Some w \<and> wfm_get_id w = uid \<and> \<not> has_max w)
    | ASSingleton i \<Rightarrow>
        (\<exists>w. hdm_index (phase1_queue s) i = Some w \<and> wfm_get_id w = uid \<and> is_simple_single w)
    | ASPhase2 t \<Rightarrow> (\<exists>w \<in> set (queue_of s). wfm_get_id w = uid \<and> is_got_max w \<and> wts w = t) \<or>
        (\<exists>g \<in> set (got_max_timestamp s). gm_get_id g = uid \<and> gm_timestamp g = t)"
proof -
  from inv have "sk_core s" by (simp add: sk_inv_def)
  then obtain k ws where q: "phase1_queue s = dense k ws"
    "queue_of s = ws"
    "core_rel (next_timestamp s) (last_flush s) k ws (got_max_timestamp s) (append_status s)"
    by (rule sk_coreE)
  have "uid \<in> wfm_get_id ` set ws \<union> gm_get_id ` set (got_max_timestamp s)"
    using q(3) st by (auto simp: core_rel_def statuses_ok_def)
  then consider j where "j < length ws" "wfm_get_id (ws ! j) = uid"
    | g where "g \<in> set (got_max_timestamp s)" "gm_get_id g = uid"
    by (auto simp: in_set_conv_nth)
  then show ?thesis
  proof cases
    case 1
    then have "a = status_of_entry (k + j) (ws ! j)"
      using q(3) st by (auto simp: core_rel_def statuses_ok_def)
    moreover have "hdm_index (phase1_queue s) (k + j) = Some (ws ! j)"
      using q(1) 1(1) by simp
    ultimately show ?thesis
      using 1 q(2) by (auto simp: status_of_entry_def is_got_max_def)
  next
    case 2
    then have "a = ASPhase2 (gm_timestamp g)"
      using q(3) st sk_inv_heap_multi [OF inv] by (auto simp: core_rel_def statuses_ok_def)
    then show ?thesis using 2 by auto
  qed
qed

section \<open>Phase 1 keeps the invariant\<close>

lemma bump_timestamp_eq:
  "bump_timestamp s ts = Some s' \<longleftrightarrow>
     s' = s\<lparr>next_timestamp := max (next_timestamp s) (ts + 1)\<rparr> \<and>
     (next_timestamp s \<le> ts \<longrightarrow> ts < u64_max)"
  by (auto simp: bump_timestamp_def rust_simps max_def)

lemma core_rel_mono: "core_rel nt lf k ws h st \<Longrightarrow> nt \<le> nt' \<Longrightarrow> core_rel nt' lf k ws h st"
  by (fastforce simp: core_rel_def)

lemma queue_of_simps [simp]:
  "queue_of (s\<lparr>next_timestamp := a\<rparr>) = queue_of s"
  "queue_of (s\<lparr>append_status := b\<rparr>) = queue_of s"
  "queue_of (s\<lparr>got_max_timestamp := c\<rparr>) = queue_of s"
  "queue_of (s\<lparr>last_flush := d\<rparr>) = queue_of s"
  by (simp_all add: queue_of_def)

lemma can_flush_simps [simp]:
  "can_flush (s\<lparr>next_timestamp := a\<rparr>) = can_flush s"
  "can_flush (s\<lparr>append_status := b\<rparr>) = can_flush s"
  by (simp_all add: can_flush_def split: option.split)

lemma bump_timestamp_core:
  "sk_core s \<Longrightarrow> sk_core (s\<lparr>next_timestamp := max (next_timestamp s) n\<rparr>)"
  by (auto simp: sk_core_def intro: core_rel_mono)

lemma bump_timestamp_inv:
  assumes "bump_timestamp s ts = Some s'" "sk_inv s"
  shows "sk_inv s'" "above K s \<Longrightarrow> above K s'"
  using assms by (auto simp: bump_timestamp_eq sk_inv_def bump_timestamp_core above_def)

text \<open>The shape of a new queue entry, shared by the three phase-1 methods.\<close>

definition new_entry :: "uuid \<Rightarrow> (u64 \<Rightarrow> u64 \<Rightarrow> 't waiting_for_max) \<Rightarrow> (u64 \<Rightarrow> append_status) \<Rightarrow> bool" where
  "new_entry uid mk st \<longleftrightarrow> (\<forall>ts n. wts (mk ts n) = ts \<and> wfm_get_id (mk ts n) = uid \<and>
     primary_entry (mk ts n) \<and> \<not> is_got_max (mk ts n) \<and> status_of_entry n (mk ts n) = st n)"

lemma new_entry_single: "new_entry uid (\<lambda>ts n. SimpleSingle ts n storage t uid) ASSingleton"
  by (simp add: new_entry_def wts_def is_got_max_def status_of_entry_def)

lemma new_entry_multi:
  "new_entry uid (\<lambda>ts n. if b then Senti ts n storage t uid else Multi ts n storage t uid) ASPhase1"
  by (simp add: new_entry_def wts_def is_got_max_def status_of_entry_def)

lemma new_entry_snap: "new_entry uid (\<lambda>ts n. Snap ts n storage t uid) ASPhase1"
  by (simp add: new_entry_def wts_def is_got_max_def status_of_entry_def)

lemma core_rel_push:
  assumes core: "core_rel nt lf k ws h st" and fresh: "st uid = None"
    and new: "new_entry uid mk a" and n: "n = k + length ws"
  shows "core_rel (Suc nt) lf k (ws @ [mk nt n]) h (st(uid \<mapsto> a n))"
proof -
  let ?w = "mk nt n"
  from new have w: "wts ?w = nt" "wfm_get_id ?w = uid" "primary_entry ?w" "\<not> is_got_max ?w"
    "status_of_entry n ?w = a n" by (auto simp: new_entry_def)
  have "uid \<notin> dom st" using fresh by (simp add: domIff)
  then have out: "uid \<notin> wfm_get_id ` set ws" "uid \<notin> gm_get_id ` set h"
    using core by (simp_all add: core_rel_def statuses_ok_def)
  have old: "st (wfm_get_id (ws ! i)) = Some (status_of_entry (k + i) (ws ! i))"
    "wfm_get_id (ws ! i) \<noteq> uid" if "i < length ws" for i
    using core that out by (auto simp: core_rel_def statuses_ok_def)
  have "statuses_ok k (ws @ [?w]) h (st(uid \<mapsto> a n))"
    unfolding statuses_ok_def
  proof (intro conjI)
    show "distinct (map wfm_get_id (ws @ [?w]) @ map gm_get_id h)"
      using core out w by (auto simp: core_rel_def statuses_ok_def)
    show "dom (st(uid \<mapsto> a n)) = wfm_get_id ` set (ws @ [?w]) \<union> gm_get_id ` set h"
      using core w by (auto simp: core_rel_def statuses_ok_def)
    show "\<forall>i < length (ws @ [?w]). (st(uid \<mapsto> a n)) (wfm_get_id ((ws @ [?w]) ! i)) =
        Some (status_of_entry (k + i) ((ws @ [?w]) ! i))"
      using old w n by (auto simp: nth_append less_Suc_eq)
    show "\<forall>g \<in> set h. is_multi g \<longrightarrow> (st(uid \<mapsto> a n)) (gm_get_id g) = Some (ASPhase2 (gm_timestamp g))"
      using core out by (auto simp: core_rel_def statuses_ok_def)
  qed
  then show ?thesis
    using core w by (auto simp: core_rel_def sorted_wrt_append queue_order_def less_Suc_eq)
qed

lemma vacant_append_eq:
  assumes "phase1_queue s = dense k ws"
  shows "vacant_append s uid mk st =
    (if next_timestamp s < u64_max \<and> k + length ws < u64_max then
       Some (NewAppend (next_timestamp s) (k + length ws),
         s\<lparr>next_timestamp := Suc (next_timestamp s),
           phase1_queue := dense k (ws @ [mk (next_timestamp s) (k + length ws)]),
           append_status := (append_status s)(uid \<mapsto> st (k + length ws))\<rparr>)
     else None)"
  using assms
  by (simp add: vacant_append_def hdm_push_index_def dense_push_back u64_add_def Let_def)

lemma vacant_append_inv:
  assumes inv: "sk_inv s" and fresh: "append_status s uid = None" and new: "new_entry uid mk st"
    and front: "queue_of s \<noteq> [] \<or> (\<forall>ts n. \<not> has_max (mk ts n))"
    and res: "vacant_append s uid mk st = Some (r, s')"
  shows "sk_inv s'" "above K s \<Longrightarrow> above K s'"
    "r = NewAppend (next_timestamp s) (hdm_start (phase1_queue s) + length (queue_of s))"
    "queue_of s' = queue_of s @
       [mk (next_timestamp s) (hdm_start (phase1_queue s) + length (queue_of s))]"
    "got_max_timestamp s' = got_max_timestamp s" "next_timestamp s' = Suc (next_timestamp s)"
    "last_flush s' = last_flush s" "recovering s' = recovering s"
proof -
  from inv have "sk_core s" by (simp add: sk_inv_def)
  then obtain k ws where q: "phase1_queue s = dense k ws"
    "queue_of s = ws"
    "core_rel (next_timestamp s) (last_flush s) k ws (got_max_timestamp s) (append_status s)"
    by (rule sk_coreE)
  let ?n = "k + length ws" let ?w = "mk (next_timestamp s) ?n"
  from res have r: "r = NewAppend (next_timestamp s) ?n"
    and s': "s' = s\<lparr>next_timestamp := Suc (next_timestamp s),
        phase1_queue := dense k (ws @ [?w]),
        append_status := (append_status s)(uid \<mapsto> st ?n)\<rparr>"
    unfolding vacant_append_eq [OF q(1)] by (auto split: if_splits)
  from s' have q': "phase1_queue s' = dense k (ws @ [?w])" by simp
  note qo = queue_of_map_Some [OF q']
  show "r = NewAppend (next_timestamp s) (hdm_start (phase1_queue s) + length (queue_of s))"
    "queue_of s' = queue_of s @
       [mk (next_timestamp s) (hdm_start (phase1_queue s) + length (queue_of s))]"
    "got_max_timestamp s' = got_max_timestamp s" "next_timestamp s' = Suc (next_timestamp s)"
    "last_flush s' = last_flush s" "recovering s' = recovering s"
    using r qo q(1,2) s' by simp_all
  have gs': "got_max_timestamp s' = got_max_timestamp s" and ns': "next_timestamp s' = Suc (next_timestamp s)"
    by (simp_all add: s')
  have core': "sk_core s'"
    using core_rel_push [OF q(3) fresh new refl] s' q' by (intro sk_coreI [OF q']) simp
  have fw: "front_waits (ws @ [?w])"
    using inv front q(2) by (cases ws) (auto simp: sk_inv_def front_waits_def)
  have hq: "got_max_timestamp s \<noteq> [] \<Longrightarrow> ws \<noteq> []" using sk_inv_heap_queue [OF inv] q(2) by simp
  have "can_flush s' = can_flush s"
    using can_flush_core [OF q' fw] can_flush_core [OF q(1)] inv q(2) hq s'
    by (cases "got_max_timestamp s") (auto simp: sk_inv_def)
  then show "sk_inv s'" using inv core' fw qo by (simp add: sk_inv_def)
  have "wts ?w = next_timestamp s" using new by (simp add: new_entry_def)
  then have "x < wkey ?w" if "fst x < next_timestamp s" for x
    using that by (simp add: wkey_def less_prod_def')
  moreover have "pending_keys (queue_of s') (got_max_timestamp s') =
      insert (wkey ?w) (pending_keys (queue_of s) (got_max_timestamp s))"
    unfolding pending_keys_def qo q(2) gs' by auto
  ultimately show "above K s'" if "above K s"
    using that unfolding above_def ns' by (auto simp: less_Suc_eq)
qed

text \<open>A repeated request is answered from the recorded status.\<close>

lemma occupied_append_old:
  assumes inv: "sk_inv s" and st: "append_status s uid = Some a"
  shows "\<exists>r. occupied_append s a = Some r \<and> (\<nexists>t n. r = NewAppend t n)"
  using sk_inv_status [OF inv st]
  by (cases a) (auto simp: occupied_append_def split: timestamp.splits)

text \<open>What a phase-1 request does: a known id changes at most the clock, a new one is queued.\<close>

definition phase1_effect ::
  "'t skeens_state \<Rightarrow> uuid \<Rightarrow> skeens_append_res \<Rightarrow> 't skeens_state \<Rightarrow> bool" where
  "phase1_effect s uid r s' \<longleftrightarrow>
     sk_inv s' \<and> (\<forall>K. above K s \<longrightarrow> above K s') \<and> next_timestamp s \<le> next_timestamp s' \<and>
     got_max_timestamp s' = got_max_timestamp s \<and> last_flush s' = last_flush s \<and>
     recovering s' = recovering s \<and>
     (if append_status s uid = None
      then \<exists>w. queue_of s' = queue_of s @ [w] \<and> wfm_get_id w = uid \<and> \<not> is_got_max w \<and>
        r = NewAppend (wts w) (hdm_start (phase1_queue s) + length (queue_of s)) \<and>
        next_timestamp s \<le> wts w
      else queue_of s' = queue_of s \<and> (\<nexists>t n. r = NewAppend t n))"

lemma vacant_append_effect:
  assumes inv: "sk_inv s" and fresh: "append_status s uid = None" and new: "new_entry uid mk st"
    and front: "queue_of s \<noteq> [] \<or> (\<forall>ts n. \<not> has_max (mk ts n))"
    and res: "vacant_append s uid mk st = Some (r, s')"
  shows "phase1_effect s uid r s'"
  unfolding phase1_effect_def
  using vacant_append_inv [OF assms] fresh new by (auto simp: new_entry_def)

lemma occupied_append_effect:
  assumes "sk_inv s" "append_status s uid = Some a" "occupied_append s a = Some r"
  shows "phase1_effect s uid r s"
  unfolding phase1_effect_def using assms occupied_append_old [OF assms(1,2)] by auto

lemma add_multi_append_effect:
  assumes inv: "sk_inv s" and res: "add_multi_append s uid storage b t = Some (r, s')"
  shows "phase1_effect s uid r s'"
proof (cases "append_status s uid")
  case None
  then have "vacant_append s uid (\<lambda>ts n. if b then Senti ts n storage t uid else Multi ts n storage t uid)
      ASPhase1 = Some (r, s')"
    using res by (auto simp: add_multi_append_def rust_simps)
  then show ?thesis by (rule vacant_append_effect [OF inv None new_entry_multi, rotated]) simp
next
  case (Some a)
  then have "occupied_append s a = Some r" "s' = s"
    using res by (auto simp: add_multi_append_def rust_simps)
  then show ?thesis using occupied_append_effect [OF inv Some] by simp
qed

lemma add_snapshot_effect:
  assumes inv: "sk_inv s" and res: "add_snapshot s uid storage t = Some (r, s')"
  shows "phase1_effect s uid r s'"
proof (cases "append_status s uid")
  case None
  then have "vacant_append s uid (\<lambda>ts n. Snap ts n storage t uid) ASPhase1 = Some (r, s')"
    using res by (auto simp: add_snapshot_def rust_simps)
  then show ?thesis by (rule vacant_append_effect [OF inv None new_entry_snap, rotated]) simp
next
  case (Some a)
  then have "occupied_append s a = Some r" "s' = s"
    using res by (auto simp: add_snapshot_def rust_simps)
  then show ?thesis using occupied_append_effect [OF inv Some] by simp
qed

lemma phase1_effect_bump:
  assumes "bump_timestamp s ts = Some s1" "sk_inv s" "phase1_effect s1 uid r s'"
  shows "phase1_effect s uid r s'"
  using assms bump_timestamp_inv(2) [OF assms(1,2)]
  by (auto simp: phase1_effect_def bump_timestamp_eq split: if_splits)

lemma add_single_append_effect:
  assumes inv: "sk_inv s" and res: "add_single_append s uid ts storage t = Some (r, s')"
  shows "phase1_effect s uid r s'"
proof -
  from res obtain s1 where ne: "queue_of s \<noteq> []" and s1: "bump_timestamp s ts = Some s1"
    by (auto simp: add_single_append_def rust_simps queue_of_empty [OF inv])
  from s1 inv have inv1: "sk_inv s1" by (rule bump_timestamp_inv)
  have ne1: "queue_of s1 \<noteq> []" using s1 ne by (auto simp: bump_timestamp_eq)
  have "phase1_effect s1 uid r s'"
  proof (cases "append_status s1 uid")
    case None
    then have "vacant_append s1 uid (\<lambda>ts n. SimpleSingle ts n storage t uid) ASSingleton = Some (r, s')"
      using res s1 by (auto simp: add_single_append_def rust_simps)
    then show ?thesis using ne1 by (intro vacant_append_effect [OF inv1 None new_entry_single]) auto
  next
    case (Some a)
    then have "occupied_append s1 a = Some r" "s' = s1"
      using res s1 by (auto simp: add_single_append_def rust_simps)
    then show ?thesis using occupied_append_effect [OF inv1 Some] by simp
  qed
  with s1 inv show ?thesis by (rule phase1_effect_bump)
qed

lemma vacant_append_total:
  assumes "sk_inv s" "next_timestamp s < u64_max" "hdm_bounded (phase1_queue s)"
  shows "\<exists>r s'. vacant_append s uid mk st = Some (r, s')"
proof -
  from assms(1) have "sk_core s" by (simp add: sk_inv_def)
  then obtain k ws where q: "phase1_queue s = dense k ws" "queue_of s = ws"
    by (rule sk_coreE)
  show ?thesis using assms(2,3) q(1) unfolding vacant_append_eq [OF q(1)] by (simp add: hdm_bounded_def)
qed

lemma add_multi_append_total:
  assumes "sk_inv s" "next_timestamp s < u64_max" "hdm_bounded (phase1_queue s)"
  shows "\<exists>r s'. add_multi_append s uid storage b t = Some (r, s')"
proof (cases "append_status s uid")
  case None
  obtain r s' where v: "vacant_append s uid (\<lambda>ts n. if b then Senti ts n storage t uid
      else Multi ts n storage t uid) ASPhase1 = Some (r, s')"
    using vacant_append_total [OF assms] by blast
  then have "sk_inv s'" using vacant_append_inv(1) [OF assms(1) None new_entry_multi] by auto
  then show ?thesis using v None assms(1) by (simp add: add_multi_append_def sk_inv_debug_assert)
next
  case (Some a)
  then show ?thesis
    using occupied_append_old [OF assms(1) Some] assms(1)
    by (auto simp: add_multi_append_def sk_inv_debug_assert)
qed

lemma add_snapshot_total:
  assumes "sk_inv s" "next_timestamp s < u64_max" "hdm_bounded (phase1_queue s)"
  shows "\<exists>r s'. add_snapshot s uid storage t = Some (r, s')"
proof (cases "append_status s uid")
  case None
  obtain r s' where v: "vacant_append s uid (\<lambda>ts n. Snap ts n storage t uid) ASPhase1 = Some (r, s')"
    using vacant_append_total [OF assms] by blast
  then have "sk_inv s'" using vacant_append_inv(1) [OF assms(1) None new_entry_snap] by auto
  then show ?thesis using v None assms(1) by (simp add: add_snapshot_def sk_inv_debug_assert)
next
  case (Some a)
  then show ?thesis
    using occupied_append_old [OF assms(1) Some] assms(1)
    by (auto simp: add_snapshot_def sk_inv_debug_assert)
qed

lemma add_single_append_total:
  assumes inv: "sk_inv s" and room: "next_timestamp s < u64_max" "Suc ts < u64_max"
    "hdm_bounded (phase1_queue s)" and ne: "queue_of s \<noteq> []"
  shows "\<exists>r s'. add_single_append s uid ts storage t = Some (r, s')"
proof -
  define s1 where "s1 = s\<lparr>next_timestamp := max (next_timestamp s) (ts + 1)\<rparr>"
  have s1: "bump_timestamp s ts = Some s1" using room(2) by (simp add: s1_def bump_timestamp_eq)
  from s1 inv have inv1: "sk_inv s1" by (rule bump_timestamp_inv)
  have v: "\<exists>r s'. vacant_append s1 uid mk st = Some (r, s')" for mk st
    using room by (intro vacant_append_total [OF inv1]) (auto simp: s1_def)
  show ?thesis
  proof (cases "append_status s1 uid")
    case None
    then show ?thesis using v s1 ne inv
      by (simp add: add_single_append_def sk_inv_debug_assert queue_of_empty)
  next
    case (Some a)
    then show ?thesis using occupied_append_old [OF inv1 Some] s1 ne inv
      by (auto simp: add_single_append_def sk_inv_debug_assert queue_of_empty)
  qed
qed

lemma need_single_at_inv:
  assumes "sk_inv s" "need_single_at s ts = Some (b, s')"
  shows "sk_inv s'" "above K s \<Longrightarrow> above K s'" "queue_of s' = queue_of s"
    "got_max_timestamp s' = got_max_timestamp s" "append_status s' = append_status s"
    "recovering s' = recovering s" "last_flush s' = last_flush s"
    "b \<longleftrightarrow> queue_of s \<noteq> [] \<and> last_flush s < ts"
    "if b then s' = s else next_timestamp s' = max (next_timestamp s) (ts + 1)"
proof -
  have e: "(queue_of s = [] \<and> got_max_timestamp s = []) \<longleftrightarrow> queue_of s = []"
    using sk_inv_heap_queue [OF assms(1)] by blast
  have "b \<longleftrightarrow> queue_of s \<noteq> [] \<and> last_flush s < ts" and s': "if b then s' = s else bump_timestamp s ts = Some s'"
    using assms(2) e by (auto simp: need_single_at_def rust_simps queue_of_empty [OF assms(1)] Let_def split: if_splits)
  then show "b \<longleftrightarrow> queue_of s \<noteq> [] \<and> last_flush s < ts" by simp
  show "sk_inv s'" "above K s \<Longrightarrow> above K s'"
    using s' assms(1) bump_timestamp_inv [of s ts s'] by (auto split: if_splits)
  show "queue_of s' = queue_of s"
    "got_max_timestamp s' = got_max_timestamp s" "append_status s' = append_status s"
    "recovering s' = recovering s" "last_flush s' = last_flush s"
    "if b then s' = s else next_timestamp s' = max (next_timestamp s) (ts + 1)"
    using s' by (auto simp: bump_timestamp_eq split: if_splits)
qed

lemma need_single_at_total:
  assumes "sk_inv s" "ts < u64_max"
  shows "\<exists>b s'. need_single_at s ts = Some (b, s')"
proof -
  have "last_flush s < next_timestamp s" using assms(1) by (simp add: sk_inv_def sk_core_def core_rel_def)
  moreover have "\<exists>s'. bump_timestamp s ts = Some s'" using assms(2) by (simp add: bump_timestamp_eq)
  ultimately show ?thesis by (auto simp: need_single_at_def Let_def)
qed

section \<open>Phase 2 keeps the invariant\<close>

lemma core_rel_set_max:
  assumes core: "core_rel nt lf k ws h st" and i: "i < length ws" and nm: "\<not> has_max (ws ! i)"
    and w': "wfm_get_id w' = wfm_get_id (ws ! i)" "primary_entry w'" "is_got_max w'" "wts w' = mx"
    and mx: "wts (ws ! i) \<le> mx" "mx < nt"
  shows "core_rel nt lf k (ws[i := w']) h (st(wfm_get_id w' \<mapsto> ASPhase2 mx))"
proof -
  have ids: "map wfm_get_id (ws[i := w']) = map wfm_get_id ws"
    using w'(1) i by (intro map_list_update_same) simp_all
  have dist: "distinct (map wfm_get_id ws)" and disj: "wfm_get_id (ws ! i) \<notin> gm_get_id ` set h"
    using core nth_mem [OF i] by (auto simp: core_rel_def statuses_ok_def)
  have old: "st (wfm_get_id (ws ! j)) = Some (status_of_entry (k + j) (ws ! j))"
    if "j < length ws" for j
    using core that by (auto simp: core_rel_def statuses_ok_def)
  have ne: "wfm_get_id (ws ! j) \<noteq> wfm_get_id (ws ! i)" if "j < length ws" "j \<noteq> i" for j
    using dist i that by (simp add: distinct_conv_nth)
  have sub: "set (ws[i := w']) \<subseteq> insert w' (set ws)" by (rule set_update_subset_insert)
  have "statuses_ok k (ws[i := w']) h (st(wfm_get_id w' \<mapsto> ASPhase2 mx))"
    unfolding statuses_ok_def
  proof (intro conjI)
    show "distinct (map wfm_get_id (ws[i := w']) @ map gm_get_id h)"
      using core unfolding ids by (simp add: core_rel_def statuses_ok_def)
    have "wfm_get_id ` set (ws[i := w']) = wfm_get_id ` set ws" by (metis ids set_map)
    then show "dom (st(wfm_get_id w' \<mapsto> ASPhase2 mx)) = wfm_get_id ` set (ws[i := w']) \<union> gm_get_id ` set h"
      using core i w'(1) by (auto simp: core_rel_def statuses_ok_def)
    show "\<forall>j < length (ws[i := w']). (st(wfm_get_id w' \<mapsto> ASPhase2 mx)) (wfm_get_id (ws[i := w'] ! j)) =
        Some (status_of_entry (k + j) (ws[i := w'] ! j))"
      using old ne w' i by (auto simp: nth_list_update status_of_entry_def is_got_max_def)
    show "\<forall>g \<in> set h. is_multi g \<longrightarrow>
        (st(wfm_get_id w' \<mapsto> ASPhase2 mx)) (gm_get_id g) = Some (ASPhase2 (gm_timestamp g))"
    proof
      fix g assume g: "g \<in> set h"
      then have "gm_get_id g \<noteq> wfm_get_id w'" using disj w'(1) by (metis imageI)
      then show "is_multi g \<longrightarrow>
          (st(wfm_get_id w' \<mapsto> ASPhase2 mx)) (gm_get_id g) = Some (ASPhase2 (gm_timestamp g))"
        using core g by (simp add: core_rel_def statuses_ok_def)
    qed
  qed
  moreover have "sorted_wrt queue_order (ws[i := w'])"
    using core i w' mx(1) by (intro sorted_wrt_list_update) (auto simp: core_rel_def queue_order_def)
  moreover have "gm_timestamp g < wts w'" if "g \<in> set h" "\<not> is_multi g" for g
    using core that i mx(1) w'(4) by (auto simp: core_rel_def dest!: bspec [of _ _ "ws ! i"])
  ultimately show ?thesis
    using core sub w' mx(2) by (auto simp: core_rel_def list_all_iff)
qed

text \<open>The append waits for its maximum, holding \<open>w\<close> in the queue.\<close>

definition waits_with :: "'t skeens_state \<Rightarrow> uuid \<Rightarrow> 't waiting_for_max \<Rightarrow> bool" where
  "waits_with s uid w \<longleftrightarrow>
     (\<exists>i. append_status s uid = Some (ASPhase1 i) \<and> hdm_index (phase1_queue s) i = Some w)"

lemma set_max_entry_not_waiting:
  assumes inv: "sk_inv s" and w: "\<nexists>w. waits_with s uid w"
  shows "\<exists>r. set_max_entry s uid mx = Some (r, s) \<and>
    (r = NotWaiting \<and> append_status s uid = None \<or>
     append_status s uid \<noteq> None \<and> (\<exists>t. r = Duplicate t))"
proof (cases "append_status s uid")
  case None
  then show ?thesis by (simp add: set_max_entry_def)
next
  case (Some a)
  then show ?thesis
    using sk_inv_status [OF inv Some] w
    by (cases a) (auto simp: set_max_entry_def waits_with_def split: timestamp.splits)
qed

lemma set_max_entry_waiting:
  assumes inv: "sk_inv s" and w: "waits_with s uid w" and mx: "mx < next_timestamp s"
  shows "if wts w \<le> mx
    then (\<exists>s2 k ws h. set_max_entry s uid mx = Some (SetMaxOk, s2) \<and>
      phase1_queue s2 = dense k ws \<and>
      k = hdm_start (phase1_queue s) \<and> length ws = length (queue_of s) \<and>
      core_rel (next_timestamp s2) (last_flush s2) k ws (got_max_timestamp s2) (append_status s2) \<and>
      next_timestamp s2 = next_timestamp s \<and> last_flush s2 = last_flush s \<and>
      recovering s2 = recovering s \<and>
      append_status s2 = (append_status s)(uid \<mapsto> ASPhase2 mx) \<and>
      pending_ids ws (got_max_timestamp s2) = pending_ids (queue_of s) (got_max_timestamp s) \<and>
      (\<forall>x \<in> pending_keys ws (got_max_timestamp s2).
         \<exists>y \<in> pending_keys (queue_of s) (got_max_timestamp s). y \<le> x))
    else set_max_entry s uid mx = None"
proof -
  from inv have "sk_core s" by (simp add: sk_inv_def)
  then obtain k ws where q: "phase1_queue s = dense k ws"
    "queue_of s = ws"
    "core_rel (next_timestamp s) (last_flush s) k ws (got_max_timestamp s) (append_status s)"
    by (rule sk_coreE)
  from w obtain i where st: "append_status s uid = Some (ASPhase1 i)"
    and get: "hdm_index (phase1_queue s) i = Some w" by (auto simp: waits_with_def)
  from get q(1) have "k \<le> i" "i < k + length ws" "ws ! (i - k) = w" by (auto split: if_splits)
  then obtain j where j: "i = k + j" "j < length ws" "ws ! j = w" by (intro that [of "i - k"]) auto
  from sk_inv_status [OF inv st] get have nm: "\<not> has_max w" and uid: "wfm_get_id w = uid" by auto
  show ?thesis
  proof (cases "wts w \<le> mx")
    case False
    then show ?thesis
      using st get set_max_waiting_below [OF nm, of mx] by (simp add: set_max_entry_def)
  next
    case True
    obtain w' where w': "wfm_set_max_timestamp w mx = Some (Inr w')" "wfm_get_id w' = wfm_get_id w"
      "primary_entry w'" "is_got_max w'" "wts w' = mx"
      using set_max_waiting [OF nm True] by blast
    let ?s2 = "s\<lparr>phase1_queue := hdm_put (phase1_queue s) i w',
      append_status := (append_status s)(uid \<mapsto> ASPhase2 mx)\<rparr>"
    have "set_max_entry s uid mx = Some (SetMaxOk, ?s2)"
      using st get w'(1) by (simp add: set_max_entry_def)
    moreover have "phase1_queue ?s2 = dense k (ws[j := w'])"
      using q(1) j(1,2) by (simp add: dense_put)
    moreover have "core_rel (next_timestamp s) (last_flush s) k (ws[j := w']) (got_max_timestamp s)
        ((append_status s)(uid \<mapsto> ASPhase2 mx))"
      using core_rel_set_max [OF q(3) j(2), of w' mx] j nm w' True mx uid by simp
    moreover have "pending_ids (ws[j := w']) (got_max_timestamp s) = pending_ids ws (got_max_timestamp s)"
      using w'(2) j map_list_update_same [of j ws wfm_get_id w'] unfolding pending_ids_def by metis
    moreover have "\<exists>y \<in> pending_keys ws (got_max_timestamp s). y \<le> x"
      if "x \<in> pending_keys (ws[j := w']) (got_max_timestamp s)" for x
    proof -
      have "set (ws[j := w']) \<subseteq> insert w' (set ws)" by (rule set_update_subset_insert)
      then consider "x \<in> pending_keys ws (got_max_timestamp s)" | "x = wkey w'"
        using \<open>x \<in> _\<close> by (auto simp: pending_keys_def)
      then show ?thesis
      proof cases
        case 2
        have "wkey w \<le> wkey w'"
          using True w' waiting_not_single [OF nm]
          by (auto simp: wkey_def less_eq_prod_def is_got_max_def)
        moreover have "wkey w \<in> pending_keys ws (got_max_timestamp s)"
          using j by (auto simp: pending_keys_def)
        ultimately show ?thesis using 2 by blast
      qed auto
    qed
    ultimately show ?thesis using True q by auto
  qed
qed

lemma waits_with_bump [simp]:
  "waits_with (s\<lparr>next_timestamp := n\<rparr>) uid w \<longleftrightarrow> waits_with s uid w"
  by (simp add: waits_with_def)

text \<open>A maximum for an append that does not wait changes nothing but the clock.\<close>

lemma set_max_timestamp_not_waiting:
  assumes inv: "sk_inv s" and w: "\<nexists>w. waits_with s uid w"
    and res: "set_max_timestamp s uid mx = Some (r, s')"
  shows "bump_timestamp s mx = Some s'" "r \<noteq> NeedsFlush" "r \<noteq> SetMaxOk"
    "r = NotWaiting \<longleftrightarrow> append_status s uid = None"
proof -
  from res obtain s1 where s1: "bump_timestamp s mx = Some s1"
    by (auto simp: set_max_timestamp_def rust_simps)
  from s1 inv have inv1: "sk_inv s1" by (rule bump_timestamp_inv)
  from s1 have s1_eq: "s1 = s\<lparr>next_timestamp := max (next_timestamp s) (mx + 1)\<rparr>"
    by (simp add: bump_timestamp_eq)
  have "\<nexists>w. waits_with s1 uid w" using w by (simp add: s1_eq)
  from set_max_entry_not_waiting [OF inv1 this, of mx] obtain r' where
    r': "set_max_entry s1 uid mx = Some (r', s1)"
    "r' = NotWaiting \<and> append_status s1 uid = None \<or>
     append_status s1 uid \<noteq> None \<and> (\<exists>t. r' = Duplicate t)" by blast
  then have r: "r = r'" "s' = s1" using res s1 by (auto simp: set_max_timestamp_def rust_simps)
  show "bump_timestamp s mx = Some s'" "r \<noteq> NeedsFlush" "r \<noteq> SetMaxOk"
    using s1 r r' by auto
  show "r = NotWaiting \<longleftrightarrow> append_status s uid = None" using r r'(2) by (auto simp: s1_eq)
qed

lemma set_max_timestamp_waiting:
  assumes inv: "sk_inv s" and w: "waits_with s uid w"
    and res: "set_max_timestamp s uid mx = Some (r, s')"
  shows "sk_core s'" "front_waits (queue_of s')"
    "r = (if can_flush s' = Some True then NeedsFlush else SetMaxOk)" "wts w \<le> mx"
    "next_timestamp s' = max (next_timestamp s) (mx + 1)" "last_flush s' = last_flush s"
    "recovering s' = recovering s"
    "pending_ids (queue_of s') (got_max_timestamp s') = pending_ids (queue_of s) (got_max_timestamp s)"
    "above K s \<Longrightarrow> above K s'" "append_status s' = (append_status s)(uid \<mapsto> ASPhase2 mx)"
proof -
  from res obtain s1 where s1: "bump_timestamp s mx = Some s1"
    by (auto simp: set_max_timestamp_def rust_simps)
  from s1 inv have inv1: "sk_inv s1" by (rule bump_timestamp_inv)
  from s1 have s1_eq: "s1 = s\<lparr>next_timestamp := max (next_timestamp s) (mx + 1)\<rparr>"
    by (simp add: bump_timestamp_eq)
  have "waits_with s1 uid w" "mx < next_timestamp s1" using w by (simp_all add: s1_eq)
  note step = set_max_entry_waiting [OF inv1 this]
  have le: "wts w \<le> mx"
    using step res s1 by (cases "wts w \<le> mx") (auto simp: set_max_timestamp_def rust_simps)
  with step obtain s2 k ws where s2: "set_max_entry s1 uid mx = Some (SetMaxOk, s2)"
    "phase1_queue s2 = dense k ws"
    "core_rel (next_timestamp s2) (last_flush s2) k ws (got_max_timestamp s2) (append_status s2)"
    "next_timestamp s2 = next_timestamp s1" "last_flush s2 = last_flush s1"
    "recovering s2 = recovering s1"
    "pending_ids ws (got_max_timestamp s2) = pending_ids (queue_of s1) (got_max_timestamp s1)"
    and st2: "append_status s2 = (append_status s1)(uid \<mapsto> ASPhase2 mx)"
    and keys: "\<forall>x \<in> pending_keys ws (got_max_timestamp s2).
       \<exists>y \<in> pending_keys (queue_of s1) (got_max_timestamp s1). y \<le> x" by auto
  from res s1 s2(1) obtain q h where mv: "move_ready (phase1_queue s2) (got_max_timestamp s2) = Some (q, h)"
    and s': "s' = s2\<lparr>phase1_queue := q, got_max_timestamp := h\<rparr>"
    and r: "\<exists>b. can_flush s' = Some b \<and> r = (if b then NeedsFlush else SetMaxOk)"
    by (auto simp: set_max_timestamp_def rust_simps Let_def)
  from move_ready_core [OF s2(3)] mv s2(2) obtain n where
    q: "q = dense (k + n) (drop n ws)"
    and core': "core_rel (next_timestamp s2) (last_flush s2) (k + n) (drop n ws) h (append_status s2)"
    and fw: "front_waits (drop n ws)" "pending_keys (drop n ws) h = pending_keys ws (got_max_timestamp s2)"
    "pending_ids (drop n ws) h = pending_ids ws (got_max_timestamp s2)" by auto
  have q': "phase1_queue s' = dense (k + n) (drop n ws)"
    by (simp add: s' q)
  note qo = queue_of_map_Some [OF q']
  have s'_sel: "got_max_timestamp s' = h" "next_timestamp s' = next_timestamp s1"
    "last_flush s' = last_flush s1" "append_status s' = append_status s2" "recovering s' = recovering s1"
    using s2 by (simp_all add: s')
  show "sk_core s'" using core' s2(4,5) by (intro sk_coreI [OF q']) (simp add: s'_sel)
  show "front_waits (queue_of s')" using fw(1) by (simp only: qo)
  show "r = (if can_flush s' = Some True then NeedsFlush else SetMaxOk)" "wts w \<le> mx"
    using r le by auto
  show "next_timestamp s' = max (next_timestamp s) (mx + 1)" "last_flush s' = last_flush s"
    "recovering s' = recovering s" "append_status s' = (append_status s)(uid \<mapsto> ASPhase2 mx)"
    using st2 by (simp_all add: s'_sel s1_eq)
  show "pending_ids (queue_of s') (got_max_timestamp s') = pending_ids (queue_of s) (got_max_timestamp s)"
    unfolding qo s'_sel(1) fw(3) s2(7) by (simp add: s1_eq)
  have same: "queue_of s1 = queue_of s" "got_max_timestamp s1 = got_max_timestamp s"
    "next_timestamp s \<le> next_timestamp s1" by (simp_all add: s1_eq)
  show "above K s'" if "above K s"
    using that keys unfolding above_def qo s'_sel(1,2) fw(2) same(1,2)
    by (meson less_le_trans same(3))
qed

text \<open>Enough room in the counters, and a maximum that is at least the append's own proposal.\<close>

lemma set_max_timestamp_total:
  assumes inv: "sk_inv s" and room: "mx < u64_max" "hdm_bounded (phase1_queue s)"
    and le: "\<And>w. waits_with s uid w \<Longrightarrow> wts w \<le> mx"
  shows "\<exists>r s'. set_max_timestamp s uid mx = Some (r, s')"
proof -
  define s1 where "s1 = s\<lparr>next_timestamp := max (next_timestamp s) (mx + 1)\<rparr>"
  have s1: "bump_timestamp s mx = Some s1" using room by (simp add: s1_def bump_timestamp_eq)
  from s1 inv have inv1: "sk_inv s1" by (rule bump_timestamp_inv)
  show ?thesis
  proof (cases "\<exists>w. waits_with s1 uid w")
    case False
    from set_max_entry_not_waiting [OF inv1 False, of mx] show ?thesis
      using inv inv1 s1 by (auto simp: set_max_timestamp_def sk_inv_debug_assert)
  next
    case True
    then obtain w where w: "waits_with s1 uid w" by blast
    have lt: "mx < next_timestamp s1" by (simp add: s1_def)
    have "wts w \<le> mx" using le w by (simp add: s1_def)
    then obtain s2 k ws where s2: "set_max_entry s1 uid mx = Some (SetMaxOk, s2)"
      "phase1_queue s2 = dense k ws"
      "k = hdm_start (phase1_queue s1)" "length ws = length (queue_of s1)"
      "core_rel (next_timestamp s2) (last_flush s2) k ws (got_max_timestamp s2) (append_status s2)"
      using set_max_entry_waiting [OF inv1 w lt] by auto
    have "k + length ws \<le> u64_max"
      using room(2) s2(3,4) sk_inv_next [OF inv] by (simp add: hdm_bounded_def s1_def queue_of_def)
    then obtain q h n where mv: "move_ready (phase1_queue s2) (got_max_timestamp s2) = Some (q, h)"
      "q = dense (k + n) (drop n ws)" "front_waits (drop n ws)"
      using move_ready_core [OF s2(5)] s2(2) by (auto split: option.splits)
    then show ?thesis
      using inv s1 s2(1) can_flush_core [OF _ mv(3), of "s2\<lparr>phase1_queue := q, got_max_timestamp := h\<rparr>"]
      by (simp add: set_max_timestamp_def sk_inv_debug_assert)
  qed
qed

section \<open>Phase 2 and its flush\<close>

text \<open>\<open>Chain::finish_multi\<close> runs the flush when the maximum asks for it; these are the deliveries.\<close>

definition finish_skeens ::
  "'t skeens_state \<Rightarrow> uuid \<Rightarrow> u64 \<Rightarrow> (skeens_set_max_res \<times> 't got_max list \<times> 't skeens_state) option" where
  "finish_skeens s uid mx = do {
     (r, s1) \<leftarrow> set_max_timestamp s uid mx;
     if r = NeedsFlush
     then do { (gs, s2) \<leftarrow> flush_got_max_timestamp s1; Some (r, gs, s2) }
     else Some (r, [], s1)
   }"

lemma flush_inv:
  assumes "sk_core s" "front_waits (queue_of s)"
  obtains gs s' where "flush_got_max_timestamp s = Some (gs, s')" "sk_inv s'"
    "got_max_timestamp s = gs @ got_max_timestamp s'" "queue_of s' = queue_of s"
    "next_timestamp s' = next_timestamp s" "recovering s' = recovering s"
    "last_flush s' \<in> insert (last_flush s) (gm_timestamp ` set gs)"
    "key_sorted gm_key gs" "\<forall>g \<in> set gs. gm_timestamp g < next_timestamp s'"
    "above (gm_key ` set gs) s'"
    "\<forall>g \<in> set gs. \<forall>x \<in> pending_keys (queue_of s') (got_max_timestamp s'). gm_key g < x"
proof -
  from assms(1) obtain k ws where q: "phase1_queue s = dense k ws"
    "queue_of s = ws"
    "core_rel (next_timestamp s) (last_flush s) k ws (got_max_timestamp s) (append_status s)"
    by (rule sk_coreE)
  from flush_core [OF q(3) _ q(1)] assms(2) q(2) obtain gs s' where
    f: "flush_got_max_timestamp s = Some (gs, s')" "got_max_timestamp s = gs @ got_max_timestamp s'"
    "next_timestamp s' = next_timestamp s" "phase1_queue s' = phase1_queue s"
    "recovering s' = recovering s"
    and lf: "last_flush s' \<in> insert (last_flush s) (gm_timestamp ` set gs)"
    and f2: "core_rel (next_timestamp s') (last_flush s') k ws (got_max_timestamp s') (append_status s')"
    "can_flush s' = Some False"
    "\<forall>g \<in> set gs. \<forall>x \<in> pending_keys ws (got_max_timestamp s'). gm_key g < x" by auto
  have q': "phase1_queue s' = dense k ws" using q(1) f(4) by simp
  note qo = queue_of_map_Some [OF q']
  have inv: "sk_inv s'" using sk_coreI [OF q' f2(1)] f2(2) assms(2) qo q(2) by (simp add: sk_inv_def)
  have ts: "\<forall>g \<in> set gs. gm_timestamp g < next_timestamp s'" and ks: "key_sorted gm_key gs"
    using q(3) f(2,3) by (auto simp: core_rel_def key_sorted_append)
  have "above (gm_key ` set gs) s'"
    using ts f2(3) unfolding above_def qo by (auto simp: gm_key_def)
  then show ?thesis using that [OF f(1) inv f(2) _ f(3,5) lf ks ts] f2(3) qo q(2) by simp
qed

text \<open>Every final timestamp in the state is a maximum of \<open>M\<close>.\<close>

definition maxima_from :: "(uuid \<times> u64) set \<Rightarrow> 't skeens_state \<Rightarrow> bool" where
  "maxima_from M s \<longleftrightarrow>
     (\<forall>w \<in> set (queue_of s). is_got_max w \<longrightarrow> (wfm_get_id w, wts w) \<in> M) \<and>
     (\<forall>g \<in> set (got_max_timestamp s). is_multi g \<longrightarrow> (gm_get_id g, gm_timestamp g) \<in> M)"

lemma maxima_fromI:
  assumes core: "sk_core s" and st: "\<And>i t. append_status s i = Some (ASPhase2 t) \<Longrightarrow> (i, t) \<in> M"
  shows "maxima_from M s"
proof -
  from core obtain k ws where q: "phase1_queue s = dense k ws"
    "queue_of s = ws"
    "core_rel (next_timestamp s) (last_flush s) k ws (got_max_timestamp s) (append_status s)"
    by (rule sk_coreE)
  have "append_status s (wfm_get_id w) = Some (ASPhase2 (wts w))" if w: "w \<in> set ws" "is_got_max w" for w
  proof -
    from w(1) obtain i where i: "i < length ws" "ws ! i = w" by (auto simp: in_set_conv_nth)
    then have "append_status s (wfm_get_id w) = Some (status_of_entry (k + i) w)"
      using q(3) by (auto simp: core_rel_def statuses_ok_def)
    then show ?thesis using w(2) by (simp add: status_of_entry_def is_got_max_def)
  qed
  moreover have "append_status s (gm_get_id g) = Some (ASPhase2 (gm_timestamp g))"
    if "g \<in> set (got_max_timestamp s)" "is_multi g" for g
    using q(3) that by (simp add: core_rel_def statuses_ok_def)
  ultimately show ?thesis using st q(2) by (auto simp: maxima_from_def)
qed

lemma pending_ids_heap_append:
  "pending_ids ws (gs @ h) = mset (map gm_get_id gs) + pending_ids ws h"
  by (simp add: pending_ids_def)

text \<open>The step lemma of phase 2: the invariant, the order and the conservation of appends.\<close>

lemma finish_skeens_inv:
  assumes inv: "sk_inv s" and res: "finish_skeens s uid mx = Some (r, gs, s')"
  shows "sk_inv s'" "key_sorted gm_key gs"
    "next_timestamp s' = max (next_timestamp s) (mx + 1)" "recovering s' = recovering s"
    "pending_ids (queue_of s) (got_max_timestamp s) =
       mset (map gm_get_id gs) + pending_ids (queue_of s') (got_max_timestamp s')"
    "last_flush s' \<in> insert (last_flush s) (gm_timestamp ` set gs)"
    "above K s \<Longrightarrow> above (K \<union> gm_key ` set gs) s'"
    "above K s \<Longrightarrow> k \<in> K \<Longrightarrow> g \<in> set gs \<Longrightarrow> k < gm_key g"
    "maxima_from M s \<Longrightarrow> maxima_from (insert (uid, mx) M) s' \<and>
       (\<forall>g \<in> set gs. is_multi g \<longrightarrow> (gm_get_id g, gm_timestamp g) \<in> insert (uid, mx) M)"
proof -
  from res obtain r1 s1 where s1: "set_max_timestamp s uid mx = Some (r1, s1)"
    by (auto simp: finish_skeens_def rust_simps)
  have "sk_inv s' \<and> key_sorted gm_key gs \<and>
    next_timestamp s' = max (next_timestamp s) (mx + 1) \<and> recovering s' = recovering s \<and>
    pending_ids (queue_of s) (got_max_timestamp s) =
       mset (map gm_get_id gs) + pending_ids (queue_of s') (got_max_timestamp s') \<and>
    last_flush s' \<in> insert (last_flush s) (gm_timestamp ` set gs) \<and>
    (\<forall>K. above K s \<longrightarrow> above (K \<union> gm_key ` set gs) s' \<and> (\<forall>k \<in> K. \<forall>g \<in> set gs. k < gm_key g)) \<and>
    (maxima_from M s \<longrightarrow> maxima_from (insert (uid, mx) M) s' \<and>
      (\<forall>g \<in> set gs. is_multi g \<longrightarrow> (gm_get_id g, gm_timestamp g) \<in> insert (uid, mx) M))"
  proof (cases "\<exists>w. waits_with s uid w")
    case False
    from set_max_timestamp_not_waiting [OF inv False s1] have nw: "bump_timestamp s mx = Some s1"
      "r1 \<noteq> NeedsFlush" by auto
    then have "gs = []" "s' = s1" using res s1 by (auto simp: finish_skeens_def rust_simps)
    then show ?thesis
      using nw bump_timestamp_inv [OF nw(1) inv] by (auto simp: bump_timestamp_eq maxima_from_def)
  next
    case True
    then obtain w where w: "waits_with s uid w" by blast
    note sm = set_max_timestamp_waiting [OF inv w s1]
    from flush_inv [OF sm(1,2)] obtain gs2 s2 where
      f: "flush_got_max_timestamp s1 = Some (gs2, s2)" "sk_inv s2"
      "got_max_timestamp s1 = gs2 @ got_max_timestamp s2" "queue_of s2 = queue_of s1"
      "next_timestamp s2 = next_timestamp s1" "recovering s2 = recovering s1"
      "last_flush s2 \<in> insert (last_flush s1) (gm_timestamp ` set gs2)"
      "key_sorted gm_key gs2" "above (gm_key ` set gs2) s2" by metis
    have noflush: "gs2 = [] \<and> s2 = s1" if "r1 \<noteq> NeedsFlush"
    proof -
      have "can_flush s1 \<noteq> Some True" using sm(3) that by (auto split: if_splits)
      then show ?thesis using f(1) by (subst (asm) flush_got_max_timestamp.simps) (auto split: option.splits)
    qed
    have e: "gs = gs2" "s' = s2" using res s1 f(1) noflush
      by (auto simp: finish_skeens_def rust_simps split: if_splits)
    have pk: "pending_keys (queue_of s1) (got_max_timestamp s1) =
        gm_key ` set gs2 \<union> pending_keys (queue_of s2) (got_max_timestamp s2)"
      unfolding f(3,4) by (auto simp: pending_keys_def)
    have "above (K \<union> gm_key ` set gs2) s2 \<and> (\<forall>k \<in> K. \<forall>g \<in> set gs2. k < gm_key g)" if "above K s" for K
      using sm(9) [OF that] f(9) f(5) unfolding above_def pk by auto
    moreover have "maxima_from (insert (uid, mx) M) s1" if "maxima_from M s"
    proof -
      have "(i, t) \<in> M" if "append_status s i = Some (ASPhase2 t)" for i t
        using \<open>maxima_from M s\<close> sk_inv_status [OF inv that]
        by (auto simp: maxima_from_def dest: sk_inv_heap_multi [OF inv])
      then show ?thesis using sm(10) by (intro maxima_fromI [OF sm(1)]) (auto split: if_splits)
    qed
    ultimately show ?thesis
      using f sm(5-8) unfolding e by (auto simp: pending_ids_heap_append maxima_from_def)
  qed
  then show "sk_inv s'" "key_sorted gm_key gs"
    "next_timestamp s' = max (next_timestamp s) (mx + 1)" "recovering s' = recovering s"
    "pending_ids (queue_of s) (got_max_timestamp s) =
       mset (map gm_get_id gs) + pending_ids (queue_of s') (got_max_timestamp s')"
    "last_flush s' \<in> insert (last_flush s) (gm_timestamp ` set gs)"
    "above K s \<Longrightarrow> above (K \<union> gm_key ` set gs) s'"
    "above K s \<Longrightarrow> k \<in> K \<Longrightarrow> g \<in> set gs \<Longrightarrow> k < gm_key g"
    "maxima_from M s \<Longrightarrow> maxima_from (insert (uid, mx) M) s' \<and>
       (\<forall>g \<in> set gs. is_multi g \<longrightarrow> (gm_get_id g, gm_timestamp g) \<in> insert (uid, mx) M)"
    by blast+
qed

end
