(* ===== verification/Skeens_Trace.thy ===== *)
theory Skeens_Trace
  imports Skeens_Inv
begin

text \<open>
  Runs of a chain's \<open>SkeensState\<close>: any sequence of the requests a primary server issues, with
  the log of the appends it delivered and the ids it accepted as ghost state. The theorems are the
  guarantees of Skeen's protocol: the delivery order is the total order on keys, two chains agree
  on the order of the multi-appends they share, nothing is lost or delivered twice, and once no
  append waits for its maximum everything accepted has been delivered.
\<close>

section \<open>Requests and runs\<close>

datatype 't sk_req =
    ReqSingle uuid u64 val_edge 't
  | ReqNeedSingle u64
  | ReqMulti uuid storage_ptr bool 't
  | ReqSnapshot uuid storage_ptr 't
  | ReqMax uuid u64

datatype sk_resp = RespAppend skeens_append_res | RespNeed bool | RespMax skeens_set_max_res

fun sk_exec ::
  "'t skeens_state \<Rightarrow> 't sk_req \<Rightarrow> (sk_resp \<times> 't got_max list \<times> 't skeens_state) option" where
  "sk_exec s (ReqSingle uid ts storage t) = do {
     (r, s') \<leftarrow> add_single_append s uid ts storage t;
     Some (RespAppend r, [], s')
   }"
| "sk_exec s (ReqNeedSingle ts) = do {
     (b, s') \<leftarrow> need_single_at s ts;
     Some (RespNeed b, [], s')
   }"
| "sk_exec s (ReqMulti uid storage sentinel t) = do {
     (r, s') \<leftarrow> add_multi_append s uid storage sentinel t;
     Some (RespAppend r, [], s')
   }"
| "sk_exec s (ReqSnapshot uid storage t) = do {
     (r, s') \<leftarrow> add_snapshot s uid storage t;
     Some (RespAppend r, [], s')
   }"
| "sk_exec s (ReqMax uid mx) = do {
     (r, gs, s') \<leftarrow> finish_skeens s uid mx;
     Some (RespMax r, gs, s')
   }"

text \<open>The ids a response accepts.\<close>

fun accepts :: "uuid \<Rightarrow> skeens_append_res \<Rightarrow> uuid multiset" where
  "accepts uid (NewAppend _ _) = {#uid#}"
| "accepts uid _ = {#}"

fun accepted :: "'t sk_req \<Rightarrow> sk_resp \<Rightarrow> uuid multiset" where
  "accepted (ReqSingle uid _ _ _) (RespAppend r) = accepts uid r"
| "accepted (ReqMulti uid _ _ _) (RespAppend r) = accepts uid r"
| "accepted (ReqSnapshot uid _ _) (RespAppend r) = accepts uid r"
| "accepted _ _ = {#}"

inductive sk_run ::
  "'t sk_req list \<Rightarrow> uuid multiset \<Rightarrow> 't got_max list \<Rightarrow> 't skeens_state \<Rightarrow> bool" where
  start: "sk_run [] {#} [] skeens_new"
| step: "\<lbrakk>sk_run rs acc log s; sk_exec s req = Some (resp, gs, s')\<rbrakk>
    \<Longrightarrow> sk_run (rs @ [req]) (acc + accepted req resp) (log @ gs) s'"

inductive_simps sk_run_Nil [simp]: "sk_run [] acc log s"

text \<open>An executable form of runs, for concrete traces.\<close>

fun sk_exec_all ::
  "'t skeens_state \<Rightarrow> 't sk_req list \<Rightarrow> (uuid multiset \<times> 't got_max list \<times> 't skeens_state) option" where
  "sk_exec_all s [] = Some ({#}, [], s)"
| "sk_exec_all s (req # rs) = do {
     (resp, gs, s1) \<leftarrow> sk_exec s req;
     (acc, log, s2) \<leftarrow> sk_exec_all s1 rs;
     Some (accepted req resp + acc, gs @ log, s2)
   }"

lemma sk_run_exec_all:
  "sk_run rs0 acc0 log0 s \<Longrightarrow> sk_exec_all s rs = Some (acc, log, s') \<Longrightarrow>
   sk_run (rs0 @ rs) (acc0 + acc) (log0 @ log) s'"
proof (induction rs arbitrary: rs0 acc0 log0 s acc log)
  case Nil
  then show ?case by simp
next
  case (Cons req rs)
  from Cons.prems(2) obtain resp gs s1 acc' log' where
    e: "sk_exec s req = Some (resp, gs, s1)" "sk_exec_all s1 rs = Some (acc', log', s')"
    "acc = accepted req resp + acc'" "log = gs @ log'"
    by (auto simp: rust_simps)
  from Cons.IH [OF sk_run.step [OF Cons.prems(1) e(1)] e(2)] show ?case
    using e(3,4) by (simp add: add.assoc)
qed

lemma sk_run_of_exec:
  "sk_exec_all skeens_new rs = Some (acc, log, s) \<Longrightarrow> sk_run rs acc log s"
  using sk_run_exec_all [OF sk_run.start] by fastforce

section \<open>One step\<close>

definition pending_of :: "'t skeens_state \<Rightarrow> uuid multiset" where
  "pending_of s = pending_ids (queue_of s) (got_max_timestamp s)"

definition maxima_in :: "'t sk_req list \<Rightarrow> (uuid \<times> u64) set" where
  "maxima_in rs = {(uid, mx). ReqMax uid mx \<in> set rs}"

lemma maxima_in_snoc [simp]:
  "maxima_in (rs @ [ReqMax uid mx]) = insert (uid, mx) (maxima_in rs)"
  "\<nexists>uid mx. req = ReqMax uid mx \<Longrightarrow> maxima_in (rs @ [req]) = maxima_in rs"
  by (auto simp: maxima_in_def)

lemma phase1_effect_step:
  assumes "phase1_effect s uid r s'"
  shows "sk_inv s'" "above K s \<Longrightarrow> above K s'" "pending_of s' = pending_of s + accepts uid r"
    "last_flush s' = last_flush s" "maxima_from M s \<Longrightarrow> maxima_from M s'"
  using assms
  by (cases r; auto simp: phase1_effect_def pending_of_def pending_ids_def maxima_from_def
      split: if_splits)+

text \<open>A request that brings no maximum delivers nothing.\<close>

lemma sk_exec_no_max:
  assumes inv: "sk_inv s" and res: "sk_exec s req = Some (resp, gs, s')"
    and nm: "\<nexists>uid mx. req = ReqMax uid mx"
  shows "sk_inv s'" "gs = []" "above K s \<Longrightarrow> above K s'"
    "pending_of s' = pending_of s + accepted req resp"
    "last_flush s' = last_flush s" "maxima_from M s \<Longrightarrow> maxima_from M s'"
proof -
  have "sk_inv s' \<and> gs = [] \<and> (above K s \<longrightarrow> above K s') \<and>
    pending_of s' = pending_of s + accepted req resp \<and>
    last_flush s' = last_flush s \<and> (maxima_from M s \<longrightarrow> maxima_from M s')"
  proof (cases req)
    case (ReqSingle uid ts storage t)
    then obtain r where r: "add_single_append s uid ts storage t = Some (r, s')" "resp = RespAppend r" "gs = []"
      using res by (auto simp: rust_simps)
    then show ?thesis
      using phase1_effect_step [OF add_single_append_effect [OF inv r(1)]] ReqSingle by auto
  next
    case (ReqMulti uid storage b t)
    then obtain r where r: "add_multi_append s uid storage b t = Some (r, s')" "resp = RespAppend r" "gs = []"
      using res by (auto simp: rust_simps)
    then show ?thesis
      using phase1_effect_step [OF add_multi_append_effect [OF inv r(1)]] ReqMulti by auto
  next
    case (ReqSnapshot uid storage t)
    then obtain r where r: "add_snapshot s uid storage t = Some (r, s')" "resp = RespAppend r" "gs = []"
      using res by (auto simp: rust_simps)
    then show ?thesis
      using phase1_effect_step [OF add_snapshot_effect [OF inv r(1)]] ReqSnapshot by auto
  next
    case (ReqNeedSingle ts)
    then obtain b where b: "need_single_at s ts = Some (b, s')" "gs = []" using res by (auto simp: rust_simps)
    note n = need_single_at_inv [OF inv b(1)]
    then show ?thesis using b ReqNeedSingle by (simp add: pending_of_def maxima_from_def)
  qed (use nm in auto)
  then show "sk_inv s'" "gs = []" "above K s \<Longrightarrow> above K s'"
    "pending_of s' = pending_of s + accepted req resp"
    "last_flush s' = last_flush s" "maxima_from M s \<Longrightarrow> maxima_from M s'" by blast+
qed

section \<open>The invariant of runs\<close>

definition run_inv ::
  "'t sk_req list \<Rightarrow> uuid multiset \<Rightarrow> 't got_max list \<Rightarrow> 't skeens_state \<Rightarrow> bool" where
  "run_inv rs acc log s \<longleftrightarrow>
     sk_inv s \<and> key_sorted gm_key log \<and> above (gm_key ` set log) s \<and>
     acc = mset (map gm_get_id log) + pending_of s \<and> maxima_from (maxima_in rs) s \<and>
     (\<forall>g \<in> set log. is_multi g \<longrightarrow> (gm_get_id g, gm_timestamp g) \<in> maxima_in rs) \<and>
     last_flush s \<in> insert 0 (gm_timestamp ` set log)"

lemma run_inv_max:
  assumes inv: "run_inv rs acc log s" and fin: "finish_skeens s uid mx = Some (r, gs, s')"
  shows "run_inv (rs @ [ReqMax uid mx]) acc (log @ gs) s'"
proof -
  from inv have sk: "sk_inv s" and ab: "above (gm_key ` set log) s" by (auto simp: run_inv_def)
  note f = finish_skeens_inv [OF sk fin]
  have "key_sorted gm_key (log @ gs)"
    using inv f(2) f(8) [OF ab] by (auto simp: run_inv_def key_sorted_append)
  moreover have "above (gm_key ` set (log @ gs)) s'" using f(7) [OF ab] by (simp add: image_Un)
  moreover have "acc = mset (map gm_get_id (log @ gs)) + pending_of s'"
    using inv f(5) by (simp add: run_inv_def pending_of_def)
  moreover have "last_flush s' \<in> insert 0 (gm_timestamp ` set (log @ gs))"
    using inv f(6) by (auto simp: run_inv_def)
  moreover have "maxima_from (maxima_in rs) s" using inv by (simp add: run_inv_def)
  then have "maxima_from (maxima_in (rs @ [ReqMax uid mx])) s' \<and>
      (\<forall>g \<in> set gs. is_multi g \<longrightarrow> (gm_get_id g, gm_timestamp g) \<in> maxima_in (rs @ [ReqMax uid mx]))"
    using f(9) [of "maxima_in rs"] by simp
  ultimately show ?thesis using f(1) inv by (auto simp: run_inv_def)
qed

lemma run_inv_no_max:
  assumes inv: "run_inv rs acc log s" and res: "sk_exec s req = Some (resp, gs, s')"
    and nm: "\<nexists>uid mx. req = ReqMax uid mx"
  shows "run_inv (rs @ [req]) (acc + accepted req resp) (log @ gs) s'"
proof -
  from inv have sk: "sk_inv s" by (simp add: run_inv_def)
  from sk_exec_no_max [OF sk res nm] inv nm show ?thesis by (simp add: run_inv_def add.assoc)
qed

lemma skeens_new_sel:
  "queue_of skeens_new = []" "got_max_timestamp skeens_new = []" "last_flush skeens_new = 0"
  by (simp_all add: queue_of_def skeens_new_def hdm_new_dense)

lemma sk_run_inv: "sk_run rs acc log s \<Longrightarrow> run_inv rs acc log s"
proof (induction rule: sk_run.induct)
  case start
  show ?case
    by (simp add: run_inv_def sk_inv_new above_def pending_of_def pending_ids_def maxima_from_def
        skeens_new_sel)
next
  case (step rs acc log s req resp gs s')
  show ?case
  proof (cases "\<exists>uid mx. req = ReqMax uid mx")
    case False
    then show ?thesis using run_inv_no_max [OF step.IH step.hyps(2)] by blast
  next
    case True
    then obtain uid mx where req: "req = ReqMax uid mx" by blast
    then obtain r where "finish_skeens s uid mx = Some (r, gs, s')" "accepted req resp = {#}"
      using step.hyps(2) by (auto simp: rust_simps)
    then show ?thesis using run_inv_max [OF step.IH] req by simp
  qed
qed

lemmas skeens_eval = skeens_new_def hdm_new_dense add_multi_append_def add_single_append_def
  add_snapshot_def need_single_at_def debug_queue_assert_def vacant_append_def
  occupied_append_def u64_add_def u64_max_def hdm_push_index_def dense_push_back finish_skeens_def
  set_max_timestamp_def bump_timestamp_def set_max_entry_def dense_put
  move_ready.simps front_has_max_def dense_pop_front can_flush_def
  flush_got_max_timestamp.simps happens_before_multi_def happens_before_single_def cmp_then_def
  cmp_u64_def rust_assert_def

section \<open>Total order and agreement\<close>

text \<open>C19: the appends a chain delivers, in delivery order, are strictly increasing in their final
  timestamp, with ties broken by multi-appends before singles and then by id; and everything
  still queued can only be delivered after all of them.\<close>

theorem delivery_order:
  assumes "sk_run rs acc log s"
  shows "sorted_wrt (\<lambda>g g'. gm_key g < gm_key g') log \<and>
    (\<forall>g \<in> set log. \<forall>k \<in> pending_keys (queue_of s) (got_max_timestamp s). gm_key g < k)"
  using sk_run_inv [OF assms] by (auto simp: run_inv_def key_sorted_def above_def)

definition two_multis :: "nat sk_req list" where
  "two_multis = [ReqMulti 10 100 False 0, ReqMulti 20 200 False 0, ReqMax 20 2, ReqMax 10 2]"

definition two_multis_swapped :: "nat sk_req list" where
  "two_multis_swapped =
     [ReqMulti 20 201 False 0, ReqMulti 10 101 True 0, ReqSnapshot 30 300 0, ReqMax 10 2, ReqMax 20 2]"

definition idle_at :: "u64 \<Rightarrow> u64 \<Rightarrow> u64 \<Rightarrow> nat skeens_state" where
  "idle_at nt lf start = skeens_new\<lparr>next_timestamp := nt, last_flush := lf,
     phase1_queue := dense start []\<rparr>"

lemma two_multis_run:
  "sk_run two_multis {#10, 20#} [GMulti 2 100 0 10, GMulti 2 200 0 20] (idle_at 3 2 2)"
  by (rule sk_run_of_exec) (simp add: two_multis_def idle_at_def skeens_eval)

lemma two_multis_swapped_run:
  "sk_run two_multis_swapped {#10, 20, 30#} [GSenti 2 101 0 10, GMulti 2 201 0 20]
     (skeens_new\<lparr>next_timestamp := 4, last_flush := 2,
        phase1_queue := dense 2 [Snap 3 2 300 0 30],
        append_status := [30 \<mapsto> ASPhase1 2]\<rparr>)"
  by (rule sk_run_of_exec) (simp add: two_multis_swapped_def skeens_eval numeral_2_eq_2 [symmetric] fun_upd_twist)

theorem delivery_order_witness:
  "sk_run two_multis {#10, 20#} [GMulti 2 100 0 10, GMulti 2 200 0 20] (idle_at 3 2 2) \<and>
   gm_key (GMulti 2 100 (0::nat) 10) < gm_key (GMulti 2 200 (0::nat) 20)"
  using delivery_order [OF two_multis_run] two_multis_run by simp

lemma agree_positions:
  assumes r1: "sk_run rs1 acc1 log1 s1" and r2: "sk_run rs2 acc2 log2 s2"
    and same_max: "\<forall>uid m m'. ReqMax uid m \<in> set rs1 \<longrightarrow> ReqMax uid m' \<in> set rs2 \<longrightarrow> m = m'"
    and i: "i < length log1" "j < length log1" "i' < length log2" "j' < length log2"
    and multi: "is_multi (log1 ! i)" "is_multi (log1 ! j)" "is_multi (log2 ! i')" "is_multi (log2 ! j')"
    and ids: "gm_get_id (log1 ! i) = gm_get_id (log2 ! i')" "gm_get_id (log1 ! j) = gm_get_id (log2 ! j')"
  shows "i < j \<longleftrightarrow> i' < j'"
proof -
  from sk_run_inv [OF r1] sk_run_inv [OF r2]
  have sorted: "key_sorted gm_key log1" "key_sorted gm_key log2"
    and m1: "\<And>g. g \<in> set log1 \<Longrightarrow> is_multi g \<Longrightarrow> ReqMax (gm_get_id g) (gm_timestamp g) \<in> set rs1"
    and m2: "\<And>g. g \<in> set log2 \<Longrightarrow> is_multi g \<Longrightarrow> ReqMax (gm_get_id g) (gm_timestamp g) \<in> set rs2"
    by (auto simp: run_inv_def maxima_in_def)
  have key: "gm_key g = gm_key g'"
    if "g \<in> set log1" "g' \<in> set log2" "is_multi g" "is_multi g'" "gm_get_id g = gm_get_id g'" for g g'
    using m1 [OF that(1,3)] m2 [OF that(2,4)] that same_max by (auto simp: gm_key_def)
  have "gm_key (log1 ! i) = gm_key (log2 ! i')" "gm_key (log1 ! j) = gm_key (log2 ! j')"
    using i multi ids by (auto intro: key)
  then show ?thesis using key_sorted_nth_less [OF sorted(1)] key_sorted_nth_less [OF sorted(2)] i by metis
qed

text \<open>C18: two chains that were given the same maximum for every multi-append they share deliver
  any two such appends in the same relative order, whatever order the requests arrived in.\<close>

theorem chains_agree:
  assumes r1: "sk_run rs1 acc1 log1 s1" and r2: "sk_run rs2 acc2 log2 s2"
    and same_max: "\<forall>uid m m'. ReqMax uid m \<in> set rs1 \<longrightarrow> ReqMax uid m' \<in> set rs2 \<longrightarrow> m = m'"
    and i: "i < length log1" "j < length log1" "i' < length log2" "j' < length log2"
    and multi: "is_multi (log1 ! i)" "is_multi (log1 ! j)" "is_multi (log2 ! i')" "is_multi (log2 ! j')"
    and ids: "gm_get_id (log1 ! i) = gm_get_id (log2 ! i')" "gm_get_id (log1 ! j) = gm_get_id (log2 ! j')"
  shows "i < j \<longleftrightarrow> i' < j'"
  by (rule agree_positions [OF assms])

theorem chains_agree_witness:
  "sk_run two_multis {#10, 20#} [GMulti 2 100 0 10, GMulti 2 200 0 20] (idle_at 3 2 2) \<and>
   gm_get_id ([GMulti 2 100 (0::nat) 10, GMulti 2 200 0 20] ! 0) =
     gm_get_id ([GSenti 2 101 (0::nat) 10, GMulti 2 201 0 20] ! 0) \<and>
   ((0::nat) < 1 \<longleftrightarrow> (0::nat) < 1)"
proof -
  have same: "\<forall>uid m m'. ReqMax uid m \<in> set two_multis \<longrightarrow> ReqMax uid m' \<in> set two_multis_swapped \<longrightarrow> m = m'"
    by (auto simp: two_multis_def two_multis_swapped_def)
  from chains_agree [OF two_multis_run two_multis_swapped_run same, of 0 1 0 1] two_multis_run
  show ?thesis by simp
qed

section \<open>Conservation and progress\<close>

text \<open>C20: every accepted append is either delivered or still pending, exactly once: the ids a chain
  accepted are, with multiplicity, the ids it delivered and the ids it still holds, and no id is
  held twice.\<close>

theorem nothing_lost_or_duplicated:
  assumes "sk_run rs acc log s"
  shows "acc = mset (map gm_get_id log) + pending_of s \<and> (\<forall>uid. count (pending_of s) uid \<le> 1) \<and>
    set_mset (pending_of s) = dom (append_status s)"
proof -
  from sk_run_inv [OF assms] have r: "acc = mset (map gm_get_id log) + pending_of s" "sk_core s"
    by (auto simp: run_inv_def sk_inv_def)
  from r(2) have ok: "statuses_ok (hdm_start (phase1_queue s)) (queue_of s) (got_max_timestamp s) (append_status s)"
    by (simp add: sk_core_def core_rel_def)
  have p: "pending_of s = mset (map wfm_get_id (queue_of s) @ map gm_get_id (got_max_timestamp s))"
    by (simp add: pending_of_def pending_ids_def)
  have "count (pending_of s) uid \<le> 1" for uid
    using ok unfolding p statuses_ok_def by (metis count_mset_0_iff distinct_count_atmost_1 le_refl zero_le)
  then show ?thesis using r ok by (simp add: p statuses_ok_def)
qed

theorem nothing_lost_or_duplicated_witness:
  "{#10, 20#} = mset (map gm_get_id [GMulti 2 100 (0::nat) 10, GMulti 2 200 0 20]) + pending_of (idle_at 3 2 2)"
  using nothing_lost_or_duplicated [OF two_multis_run] by blast

text \<open>C21: once no append waits for its maximum, every accepted append has been delivered and the
  chain holds nothing.\<close>

theorem all_delivered_when_no_one_waits:
  assumes "sk_run rs acc log s" and quiet: "\<forall>uid i. append_status s uid \<noteq> Some (ASPhase1 i)"
  shows "mset (map gm_get_id log) = acc \<and> skeens_is_empty s"
proof -
  from sk_run_inv [OF assms(1)] have r: "acc = mset (map gm_get_id log) + pending_of s" "sk_inv s"
    by (auto simp: run_inv_def)
  have q: "queue_of s = []"
  proof (rule ccontr)
    assume ne: "queue_of s \<noteq> []"
    from r(2) have "\<not> has_max (hd (queue_of s))"
      and "statuses_ok (hdm_start (phase1_queue s)) (queue_of s) (got_max_timestamp s) (append_status s)"
      using ne by (auto simp: sk_inv_def front_waits_def sk_core_def core_rel_def)
    then have "append_status s (wfm_get_id (hd (queue_of s))) = Some (ASPhase1 (hdm_start (phase1_queue s)))"
      using ne by (auto simp: statuses_ok_def status_of_entry_def hd_conv_nth dest!: spec [of _ 0])
    then show False using quiet by blast
  qed
  then have "got_max_timestamp s = []" using sk_inv_heap_queue [OF r(2)] by blast
  then show ?thesis
    using r(1) q by (simp add: pending_of_def pending_ids_def skeens_is_empty_def queue_of_empty [OF r(2)])
qed

theorem all_delivered_when_no_one_waits_witness:
  "mset (map gm_get_id [GMulti 2 100 (0::nat) 10, GMulti 2 200 0 20]) = {#10, 20#} \<and>
   skeens_is_empty (idle_at 3 2 2)"
proof -
  have "\<forall>uid i. append_status (idle_at 3 2 2) uid \<noteq> Some (ASPhase1 i)"
    by (simp add: idle_at_def skeens_new_def)
  from all_delivered_when_no_one_waits [OF two_multis_run this] show ?thesis .
qed

section \<open>Absence of panics and the single-append fast path\<close>

text \<open>The counters have room for one more request.\<close>

definition sk_room :: "'t skeens_state \<Rightarrow> bool" where
  "sk_room s \<longleftrightarrow> next_timestamp s < u64_max \<and> hdm_bounded (phase1_queue s)"

text \<open>What a caller owes: a single is queued only after \<open>need_single_at\<close> asked for it, and a maximum
  is at least the timestamp the chain itself proposed.\<close>

fun legal_req :: "'t skeens_state \<Rightarrow> 't sk_req \<Rightarrow> bool" where
  "legal_req s (ReqSingle uid ts _ _) \<longleftrightarrow> Suc ts < u64_max \<and> \<not> skeens_is_empty s"
| "legal_req s (ReqNeedSingle ts) \<longleftrightarrow> ts < u64_max"
| "legal_req s (ReqMax uid mx) \<longleftrightarrow> mx < u64_max \<and> (\<forall>w. waits_with s uid w \<longrightarrow> wts w \<le> mx)"
| "legal_req s _ \<longleftrightarrow> True"

lemma finish_skeens_total:
  assumes inv: "sk_inv s" and "mx < u64_max" "hdm_bounded (phase1_queue s)"
    "\<And>w. waits_with s uid w \<Longrightarrow> wts w \<le> mx"
  shows "\<exists>r gs s'. finish_skeens s uid mx = Some (r, gs, s')"
proof -
  from set_max_timestamp_total [OF assms] obtain r s1 where
    s1: "set_max_timestamp s uid mx = Some (r, s1)" by blast
  show ?thesis
  proof (cases "\<exists>w. waits_with s uid w")
    case False
    then show ?thesis using set_max_timestamp_not_waiting(2) [OF inv False s1] s1
      by (simp add: finish_skeens_def)
  next
    case True
    then obtain w where w: "waits_with s uid w" by blast
    note sm = set_max_timestamp_waiting [OF inv w s1]
    from flush_inv [OF sm(1,2)] obtain gs s2 where "flush_got_max_timestamp s1 = Some (gs, s2)" by metis
    then show ?thesis using s1 by (simp add: finish_skeens_def)
  qed
qed

text \<open>C22: no request panics: in any reachable state with room in its counters every request that
  keeps the caller's side of the protocol is answered.\<close>

theorem legal_requests_answered:
  assumes "sk_run rs acc log s" "sk_room s" "legal_req s req"
  shows "\<exists>resp gs s'. sk_exec s req = Some (resp, gs, s')"
proof -
  from sk_run_inv [OF assms(1)] have inv: "sk_inv s" by (simp add: run_inv_def)
  from assms(2) have room: "next_timestamp s < u64_max" "hdm_bounded (phase1_queue s)"
    by (auto simp: sk_room_def)
  show ?thesis
  proof (cases req)
    case (ReqSingle uid ts storage t)
    have "queue_of s \<noteq> []"
      using assms(3) ReqSingle sk_inv_heap_queue [OF inv] by (auto simp: skeens_is_empty_def queue_of_empty [OF inv])
    then show ?thesis
      using ReqSingle assms(3) add_single_append_total [OF inv room(1) _ room(2), of ts uid storage t]
      by auto
  next
    case (ReqMulti uid storage b t)
    then show ?thesis using add_multi_append_total [OF inv room, of uid storage b t] by auto
  next
    case (ReqSnapshot uid storage t)
    then show ?thesis using add_snapshot_total [OF inv room, of uid storage t] by auto
  next
    case (ReqNeedSingle ts)
    then show ?thesis using assms(3) need_single_at_total [OF inv, of ts] by auto
  next
    case (ReqMax uid mx)
    then show ?thesis using assms(3) finish_skeens_total [OF inv _ room(2), of mx uid] by fastforce
  qed
qed

theorem legal_requests_answered_witness:
  "\<exists>resp gs s'. sk_exec (idle_at 3 2 2) (ReqMax 10 7) = Some (resp, gs, s')"
proof -
  have "sk_room (idle_at 3 2 2)" "legal_req (idle_at 3 2 2) (ReqMax 10 7)"
    by (simp_all add: sk_room_def idle_at_def skeens_new_def u64_max_def hdm_bounded_def waits_with_def)
  from legal_requests_answered [OF two_multis_run this] show ?thesis .
qed

text \<open>C23: when \<open>need_single_at\<close> lets a single append through to the log at once, every append that is still
  queued has, or will get, a timestamp that is not below the client's, though it may be the same, and every
  later append gets a greater one. An append that is held back finds a queue to wait in, and nothing changes.\<close>

theorem need_single_at_correct:
  assumes "sk_run rs acc log s" "need_single_at s ts = Some (needed, s')"
  shows "if needed then \<not> skeens_is_empty s \<and> s' = s
    else (\<forall>x \<in> pending_keys (queue_of s) (got_max_timestamp s). ts \<le> fst x) \<and> ts < next_timestamp s'"
proof -
  from sk_run_inv [OF assms(1)] have inv: "sk_inv s" and ab: "above (gm_key ` set log) s"
    and lf: "last_flush s \<in> insert 0 (gm_timestamp ` set log)" by (auto simp: run_inv_def)
  note n = need_single_at_inv [OF inv assms(2)]
  have "ts \<le> fst x" if nn: "\<not> needed" and x: "x \<in> pending_keys (queue_of s) (got_max_timestamp s)" for x
  proof -
    have "queue_of s \<noteq> []"
      using x sk_inv_heap_queue [OF inv] by (cases "got_max_timestamp s") (auto simp: pending_keys_def)
    then have le: "ts \<le> last_flush s" using n(8) nn by auto
    show ?thesis
    proof (cases "last_flush s = 0")
      case True
      then show ?thesis using le by simp
    next
      case False
      then obtain g where g: "g \<in> set log" "gm_timestamp g = last_flush s" using lf by auto
      then have "gm_key g < x" using ab x by (auto simp: above_def)
      then have "gm_timestamp g \<le> fst x" by (auto simp: gm_key_def less_prod_def')
      then show ?thesis using le g(2) by simp
    qed
  qed
  then show ?thesis using n(8,9) by (auto simp: skeens_is_empty_def queue_of_empty [OF inv] split: if_splits)
qed

theorem need_single_at_correct_witness:
  "\<exists>s :: nat skeens_state. sk_run two_multis_swapped {#10, 20, 30#} [GSenti 2 101 0 10, GMulti 2 201 0 20] s \<and>
    queue_of s = [Snap 3 2 300 0 30] \<and>
    need_single_at s 2 = Some (False, s) \<and> pending_keys (queue_of s) (got_max_timestamp s) \<subseteq> {x. 2 \<le> fst x} \<and>
    need_single_at s 3 = Some (True, s) \<and> \<not> skeens_is_empty s"
proof -
  define s :: "nat skeens_state" where "s = skeens_new\<lparr>next_timestamp := 4, last_flush := 2,
    phase1_queue := dense 2 [Snap 3 2 300 0 30], append_status := [30 \<mapsto> ASPhase1 2]\<rparr>"
  have r: "sk_run two_multis_swapped {#10, 20, 30#} [GSenti 2 101 0 10, GMulti 2 201 0 20] s"
    using two_multis_swapped_run by (simp add: s_def)
  have n: "need_single_at s 2 = Some (False, s)" "need_single_at s 3 = Some (True, s)"
    by (simp_all add: s_def skeens_eval)
  have "queue_of s = [Snap 3 2 300 0 30]" by (simp add: s_def queue_of_def skeens_new_def)
  then show ?thesis using r n need_single_at_correct [OF r n(1)] need_single_at_correct [OF r n(2)] by (intro exI [of _ s]) auto
qed

end
