(* ===== verification/Trie.thy ===== *)
theory Trie
  imports Prelude
begin

text \<open>
  \<^verbatim>\<open>fuzzy_log_server/src/trie.rs\<close>: the radix tree that holds a chain's entries. Six levels of
  1024-slot tables hang off a 16-slot root array; appends go through \<open>Shortcut\<close>s, raw slices into
  the interior of the last table of every level, so that an append does not walk the tree.
  Tables live in an explicit store: \<open>segs a i\<close> is the machine word in slot \<open>i\<close> of the table at
  address \<open>a\<close>, with 0 for \<open>None\<close> and for a null \<open>ValEdge\<close>. The six shortcut fields \<open>l1\<close> to \<open>l6\<close> are
  indexed by their level.
\<close>

section \<open>Data\<close>

type_synonym addr = nat
type_synonym slot = "addr \<times> nat"

text \<open>\<open>Shortcut\<close>: a slice, as the table it points into, the offset of its first cell and its length.\<close>

record shortcut =
  sc_seg :: addr
  sc_off :: nat
  sc_len :: nat

record trie =
  segs :: "addr \<Rightarrow> nat \<Rightarrow> nat"
  fresh_seg :: addr
  root_array :: "nat \<Rightarrow> addr"
  shortcuts :: "nat \<Rightarrow> shortcut"
  next_entry :: u64
  min_entry :: u64
  first_entry :: u64
  last_lock :: u64
  last_unlock :: u64

definition trie_new :: trie where
  "trie_new = \<lparr>segs = (\<lambda>_ _. 0), fresh_seg = 1, root_array = (\<lambda>_. 0),
     shortcuts = (\<lambda>_. \<lparr>sc_seg = 0, sc_off = 0, sc_len = 0\<rparr>),
     next_entry = 0, min_entry = 0, first_entry = 0, last_lock = 0, last_unlock = 0\<rparr>"

definition whole_seg :: "addr \<Rightarrow> shortcut" where
  "whole_seg a = \<lparr>sc_seg = a, sc_off = 0, sc_len = 1024\<rparr>"

definition root_index :: "u64 \<Rightarrow> nat" where
  "root_index key = (key div 2 ^ 60) mod 1024"

definition level_index_for_key :: "u64 \<Rightarrow> nat \<Rightarrow> nat" where
  "level_index_for_key key depth = (key div 2 ^ (60 - 10 * depth)) mod 1024"

definition alloc_seg :: "trie \<Rightarrow> addr \<times> trie" where
  "alloc_seg t = (fresh_seg t,
     t\<lparr>fresh_seg := Suc (fresh_seg t), segs := (segs t)(fresh_seg t := (\<lambda>_. 0))\<rparr>)"

definition write_seg :: "trie \<Rightarrow> slot \<Rightarrow> nat \<Rightarrow> trie" where
  "write_seg t sl v = t\<lparr>segs := (segs t)(fst sl := (segs t (fst sl))(snd sl := v))\<rparr>"

section \<open>Appending through the shortcuts\<close>

definition cannot_append :: "trie \<Rightarrow> nat \<Rightarrow> bool" where
  "cannot_append t d \<longleftrightarrow> sc_len (shortcuts t d) = 0"

definition shortcut_append :: "trie \<Rightarrow> nat \<Rightarrow> nat \<Rightarrow> (slot \<times> trie) option" where
  "shortcut_append t d v =
     (let s = shortcuts t d in
      if sc_len s = 0 then None
      else let t' = write_seg t (sc_seg s, sc_off s) v
           in Some ((sc_seg s, sc_off s), t'\<lparr>shortcuts := (shortcuts t')(d :=
                s\<lparr>sc_off := Suc (sc_off s), sc_len := sc_len s - 1\<rparr>)\<rparr>))"

definition refresh_root :: "trie \<Rightarrow> trie option" where
  "refresh_root t =
     (if next_entry t mod 2 ^ 60 = 0 then do {
        rust_assert (cannot_append t 1);
        let index = root_index (next_entry t);
        rust_assert (index < 4);
        let (a, t1) = alloc_seg t;
        Some (t1\<lparr>root_array := (root_array t1)(index := a), shortcuts := (shortcuts t1)(1 := whole_seg a)\<rparr>)
      } else Some t)"

definition refresh_level :: "nat \<Rightarrow> trie \<Rightarrow> trie option" where
  "refresh_level d t =
     (if next_entry t mod 2 ^ (70 - 10 * d) = 0 then do {
        rust_assert (cannot_append t d);
        let (a, t1) = alloc_seg t;
        (_, t2) \<leftarrow> shortcut_append t1 (d - 1) a;
        Some (t2\<lparr>shortcuts := (shortcuts t2)(d := whole_seg a)\<rparr>)
      } else Some t)"

definition prep_append :: "trie \<Rightarrow> val_edge \<Rightarrow> (u64 \<times> slot \<times> trie) option" where
  "prep_append t v = do {
     let next = next_entry t;
     rust_assert (next \<noteq> u64_max);
     t1 \<leftarrow> refresh_root t;
     t2 \<leftarrow> refresh_level 2 t1;
     t3 \<leftarrow> refresh_level 3 t2;
     t4 \<leftarrow> refresh_level 4 t3;
     t5 \<leftarrow> refresh_level 5 t4;
     t6 \<leftarrow> refresh_level 6 t5;
     n \<leftarrow> u64_add (next_entry t6) 1;
     (sl, t7) \<leftarrow> shortcut_append (t6\<lparr>next_entry := n\<rparr>) 6 v;
     Some (next, sl, t7)
   }"

section \<open>Walking from the root\<close>

definition index_step :: "trie \<Rightarrow> u64 \<Rightarrow> nat \<Rightarrow> addr \<Rightarrow> nat option" where
  "index_step t k d a = (if a = 0 then None else Some (segs t a (level_index_for_key k d)))"

text \<open>\<open>ValEdge::ptr\<close> clears the low bit, the mark of the last entry of an allocation block.\<close>

definition val_ptr :: "val_edge \<Rightarrow> nat" where
  "val_ptr v = v - v mod 2"

definition trie_get :: "trie \<Rightarrow> u64 \<Rightarrow> val_edge option" where
  "trie_get t k = do {
     let l1 = root_array t (root_index k);
     l2 \<leftarrow> index_step t k 1 l1;
     l3 \<leftarrow> index_step t k 2 l2;
     l4 \<leftarrow> index_step t k 3 l3;
     l5 \<leftarrow> index_step t k 4 l4;
     l6 \<leftarrow> index_step t k 5 l5;
     v \<leftarrow> index_step t k 6 l6;
     if val_ptr v = 0 then None else Some v
   }"

text \<open>The walk of a worker, which may run while the ordering thread appends. A loaded pointer is turned into a
  reference at once (\<open>as_ref\<close>), the macro \<open>atomic_index!\<close> follows a reference and returns from the whole lookup
  where there is none, and what the last level holds is a \<^typ>\<open>val_edge\<close>, a reference by the pointer in it.
  The assertion of the macro that the index is below the size of a table holds by the mask.\<close>

definition as_ref :: "addr \<Rightarrow> addr option" where
  "as_ref p = (if p = 0 then None else Some p)"

definition atomic_index :: "trie \<Rightarrow> u64 \<Rightarrow> nat \<Rightarrow> addr option \<Rightarrow> nat option" where
  "atomic_index t k depth array =
     (let index = level_index_for_key k depth
      in case array of None \<Rightarrow> None | Some ptr \<Rightarrow> Some (segs t ptr index))"

definition edge_as_ref :: "val_edge \<Rightarrow> val_edge option" where
  "edge_as_ref v = (case as_ref (val_ptr v) of None \<Rightarrow> None | Some p \<Rightarrow> Some v)"

definition trie_atomic_get :: "trie \<Rightarrow> u64 \<Rightarrow> val_edge option" where
  "trie_atomic_get t k =
     (if k < min_entry t then None
      else do {
        let l1 = as_ref (root_array t (root_index k));
        l2 \<leftarrow> atomic_index t k 1 l1;
        l3 \<leftarrow> atomic_index t k 2 (as_ref l2);
        l4 \<leftarrow> atomic_index t k 3 (as_ref l3);
        l5 \<leftarrow> atomic_index t k 4 (as_ref l4);
        l6 \<leftarrow> atomic_index t k 5 (as_ref l5);
        v \<leftarrow> atomic_index t k 6 (as_ref l6);
        edge_as_ref v
      })"

text \<open>The cell a pointer refers to: a slot of the root array or of a table.\<close>

datatype place = PRoot nat | PCell addr nat

fun read_place :: "trie \<Rightarrow> place \<Rightarrow> nat" where
  "read_place t (PRoot i) = root_array t i"
| "read_place t (PCell a i) = segs t a i"

fun write_place :: "trie \<Rightarrow> place \<Rightarrow> nat \<Rightarrow> trie" where
  "write_place t (PRoot i) v = t\<lparr>root_array := (root_array t)(i := v)\<rparr>"
| "write_place t (PCell a i) v = write_seg t (a, i) v"

text \<open>The \<open>insert!\<close> macro: follow the edge, hanging a fresh table on it where there is none.\<close>

definition insert_step :: "u64 \<Rightarrow> nat \<Rightarrow> place \<times> trie \<Rightarrow> place \<times> trie" where
  "insert_step key depth = (\<lambda>(p, t).
     (let a = read_place t p; index = level_index_for_key key depth
      in if a \<noteq> 0 then (PCell a index, t)
         else let (a', t') = alloc_seg t in (PCell a' index, write_place t' p a')))"

definition prep_append_at :: "trie \<Rightarrow> u64 \<Rightarrow> (place \<times> trie) option" where
  "prep_append_at t key = do {
     t1 \<leftarrow> (if next_entry t \<le> key then do { n \<leftarrow> u64_add key 1; Some (t\<lparr>next_entry := n\<rparr>) } else Some t);
     let l1 = (PRoot (root_index key), t1);
     let l2 = insert_step key 1 l1;
     let l3 = insert_step key 2 l2;
     let l4 = insert_step key 3 l3;
     let l5 = insert_step key 4 l4;
     let l6 = insert_step key 5 l5;
     Some (insert_step key 6 l6)
   }"

section \<open>Locks and bounds\<close>

definition is_locked :: "trie \<Rightarrow> bool" where
  "is_locked t \<longleftrightarrow> last_lock t \<noteq> last_unlock t"

definition cannot_lock :: "trie \<Rightarrow> u64 \<Rightarrow> bool option" where
  "cannot_lock t lock_num =
     (if is_locked t then Some True
      else do { n \<leftarrow> u64_add (last_unlock t) 1; Some (lock_num \<noteq> n) })"

definition increment_lock :: "trie \<Rightarrow> trie option" where
  "increment_lock t = do {
     l \<leftarrow> u64_add (last_lock t) 1;
     u \<leftarrow> u64_add (last_unlock t) 1;
     rust_assert (l = u);
     Some (t\<lparr>last_lock := l\<rparr>)
   }"

definition unlock :: "trie \<Rightarrow> u64 \<Rightarrow> (bool \<times> trie) option" where
  "unlock t lock_num =
     (if lock_num = last_lock t then do {
        rust_assert (last_unlock t \<le> last_lock t);
        Some (True, t\<lparr>last_unlock := lock_num\<rparr>)
      } else Some (False, t))"

definition lock_pair :: "trie \<Rightarrow> u64 \<times> u64" where
  "lock_pair t = (last_lock t, last_unlock t)"

definition trie_set_min :: "trie \<Rightarrow> u64 \<Rightarrow> trie" where
  "trie_set_min t m = t\<lparr>min_entry := m\<rparr>"

definition trie_len :: "trie \<Rightarrow> u64" where
  "trie_len t = next_entry t"

definition trie_horizon :: "trie \<Rightarrow> u64 option" where
  "trie_horizon t = u64_sub (next_entry t) 1"

definition trie_bounds :: "trie \<Rightarrow> u64 \<times> u64" where
  "trie_bounds t = (min_entry t, next_entry t)"

section \<open>The tree the store holds\<close>

text \<open>
  \<open>node t d p\<close> is the word at level \<open>d\<close> on the path with prefix \<open>p\<close>: the root array's slot \<open>p\<close> at level
  1, the values at level 7. \<open>span d\<close> keys share a prefix of level \<open>d\<close>.
\<close>

fun node :: "trie \<Rightarrow> nat \<Rightarrow> nat \<Rightarrow> nat" where
  "node t 0 p = 0"
| "node t (Suc 0) p = root_array t p"
| "node t (Suc (Suc d)) p =
     (let a = node t (Suc d) (p div 1024) in if a = 0 then 0 else segs t a (p mod 1024))"

definition span :: "nat \<Rightarrow> nat" where
  "span d = 2 ^ (70 - 10 * d)"

definition trie_wf :: "trie \<Rightarrow> bool" where
  "trie_wf t \<longleftrightarrow> 0 < fresh_seg t \<and>
     (\<forall>d p. 1 \<le> d \<longrightarrow> d \<le> 6 \<longrightarrow> node t d p < fresh_seg t) \<and>
     (\<forall>d p d' p'. 1 \<le> d \<longrightarrow> d \<le> 6 \<longrightarrow> 1 \<le> d' \<longrightarrow> d' \<le> 6 \<longrightarrow>
        node t d p = node t d' p' \<longrightarrow> node t d p \<noteq> 0 \<longrightarrow> d = d' \<and> p = p')"

lemma span_Suc: "d \<le> 6 \<Longrightarrow> span d = 1024 * span (Suc d)"
proof -
  assume "d \<le> 6"
  then have "70 - 10 * d = 10 + (70 - 10 * Suc d)" by simp
  then have "span d = 2 ^ 10 * span (Suc d)" unfolding span_def by (metis power_add)
  then show ?thesis by simp
qed

lemma span_pos [simp]: "0 < span d" "span d \<noteq> 0"
  by (simp_all add: span_def)

lemma span_7 [simp]: "span 7 = 1"
  by (simp add: span_def)

lemma prefix_Suc: "d \<le> 6 \<Longrightarrow> k div span (Suc d) div 1024 = k div span d"
  by (simp add: span_Suc div_mult2_eq [symmetric] mult.commute)

lemma level_index_span:
  "level_index_for_key k d = k div span (Suc d) mod 1024"
  by (simp add: level_index_for_key_def span_def)

lemma root_index_span: "k < 2 ^ 64 \<Longrightarrow> root_index k = k div span 1"
  by (simp add: root_index_def span_def)

lemma prefix_split:
  "d \<le> 6 \<Longrightarrow> k div span (Suc d) = k div span d * 1024 + level_index_for_key k d"
  using prefix_Suc [of d k] by (metis div_mult_mod_eq level_index_span mult.commute)

lemma level_index_less [simp]: "level_index_for_key k d < 1024"
  by (simp add: level_index_for_key_def)

lemma node_Suc:
  "1 \<le> d \<Longrightarrow> node t (Suc d) p =
     (if node t d (p div 1024) = 0 then 0 else segs t (node t d (p div 1024)) (p mod 1024))"
  by (cases d) (auto simp: Let_def)

lemma index_step_node:
  assumes "1 \<le> d" "d \<le> 6"
  shows "index_step t k d (node t d (k div span d)) =
    (if node t d (k div span d) = 0 then None else Some (node t (Suc d) (k div span (Suc d))))"
  using assms by (simp add: index_step_def node_Suc prefix_Suc level_index_span)

lemma node_zero_below:
  "1 \<le> d \<Longrightarrow> d \<le> 6 \<Longrightarrow> node t d (k div span d) = 0 \<Longrightarrow> node t (Suc d) (k div span (Suc d)) = 0"
  by (simp add: node_Suc prefix_Suc)

lemma trie_atomic_get_walk: "trie_atomic_get t k = (if k < min_entry t then None else trie_get t k)"
  by (simp add: trie_atomic_get_def trie_get_def atomic_index_def as_ref_def index_step_def edge_as_ref_def Let_def
      split: bind_splits)

lemma trie_get_node:
  assumes "k < 2 ^ 64"
  shows "trie_get t k = (if val_ptr (node t 7 k) = 0 then None else Some (node t 7 k))"
proof -
  define N where "N d = node t d (k div span d)" for d
  have l1: "root_array t (root_index k) = N 1"
    using assms by (simp add: root_index_span N_def)
  have v: "node t 7 k = N 7" by (simp add: N_def)
  have step: "index_step t k d (N d) = (if N d = 0 then None else Some (N (Suc d)))"
    and zero: "N d = 0 \<Longrightarrow> N (Suc d) = 0" if "1 \<le> d" "d \<le> 6" for d
    using that by (auto simp: N_def index_step_node node_zero_below)
  have z: "val_ptr 0 = 0" "\<And>d. index_step t k d 0 = None" by (simp_all add: val_ptr_def index_step_def)
  have steps: "index_step t k 1 (N 1) = (if N 1 = 0 then None else Some (N 2))"
    "index_step t k 2 (N 2) = (if N 2 = 0 then None else Some (N 3))"
    "index_step t k 3 (N 3) = (if N 3 = 0 then None else Some (N 4))"
    "index_step t k 4 (N 4) = (if N 4 = 0 then None else Some (N 5))"
    "index_step t k 5 (N 5) = (if N 5 = 0 then None else Some (N 6))"
    "index_step t k 6 (N 6) = (if N 6 = 0 then None else Some (N 7))"
    using step [of 1] step [of 2] step [of 3] step [of 4] step [of 5] step [of 6]
    by (simp_all flip: One_nat_def add: Suc_1)
  have zeros: "N 1 = 0 \<Longrightarrow> N 2 = 0" "N 2 = 0 \<Longrightarrow> N 3 = 0" "N 3 = 0 \<Longrightarrow> N 4 = 0"
    "N 4 = 0 \<Longrightarrow> N 5 = 0" "N 5 = 0 \<Longrightarrow> N 6 = 0" "N 6 = 0 \<Longrightarrow> N 7 = 0"
    using zero [of 1] zero [of 2] zero [of 3] zero [of 4] zero [of 5] zero [of 6]
    by (simp_all flip: One_nat_def add: Suc_1)
  show ?thesis
    unfolding trie_get_def l1 Let_def v steps(1)
    by (cases "N 1 = 0"; cases "N 2 = 0"; cases "N 3 = 0"; cases "N 4 = 0"; cases "N 5 = 0"; cases "N 6 = 0")
      (use zeros z in \<open>simp_all add: steps del: One_nat_def\<close>)
qed

section \<open>Writing to the tree\<close>

lemma wf_inj:
  "trie_wf t \<Longrightarrow> 1 \<le> d \<Longrightarrow> d \<le> 6 \<Longrightarrow> 1 \<le> d' \<Longrightarrow> d' \<le> 6 \<Longrightarrow> node t d p \<noteq> 0 \<Longrightarrow>
   node t d p = node t d' p' \<longleftrightarrow> d = d' \<and> p = p'"
  unfolding trie_wf_def by metis

lemma wf_fresh: "trie_wf t \<Longrightarrow> 1 \<le> d \<Longrightarrow> d \<le> 6 \<Longrightarrow> node t d p \<noteq> fresh_seg t"
  unfolding trie_wf_def by (metis less_irrefl)

text \<open>The tree depends on the tables and the root array only.\<close>

lemma node_cong: "segs t' = segs t \<Longrightarrow> root_array t' = root_array t \<Longrightarrow> node t' d p = node t d p"
  by (induction t d p rule: node.induct) (auto simp: Let_def)

lemma node_update [simp]:
  "node (t\<lparr>shortcuts := a\<rparr>) = node t" "node (t\<lparr>next_entry := b\<rparr>) = node t"
  "node (t\<lparr>last_lock := b\<rparr>) = node t" "node (t\<lparr>last_unlock := b\<rparr>) = node t"
  "node (t\<lparr>min_entry := b\<rparr>) = node t" "node (t\<lparr>fresh_seg := b\<rparr>) = node t"
  by (intro ext node_cong; simp)+

lemma trie_wf_update [simp]:
  "trie_wf (t\<lparr>shortcuts := a\<rparr>) = trie_wf t" "trie_wf (t\<lparr>next_entry := b\<rparr>) = trie_wf t"
  by (simp_all add: trie_wf_def)

text \<open>Storing a value in a leaf table changes that value and nothing else.\<close>

lemma node_write_value:
  assumes wf: "trie_wf t" and a: "a = node t 6 p" "a \<noteq> 0" and i: "i < 1024"
  shows "e \<le> 6 \<Longrightarrow> node (write_seg t (a, i) v) e q = node t e q"
    "node (write_seg t (a, i) v) 7 q = (if q = p * 1024 + i then v else node t 7 q)"
proof -
  let ?t = "write_seg t (a, i) v"
  show low: "node ?t e q = node t e q" if "e \<le> 6" for e q
    using that
  proof (induction e arbitrary: q)
    case (Suc e)
    show ?case
    proof (cases "e = 0")
      case True
      then show ?thesis by (simp add: write_seg_def)
    next
      case False
      have "node t e (q div 1024) \<noteq> a \<or> node t e (q div 1024) = 0"
        using wf_inj [OF wf, of 6 e p "q div 1024"] a False Suc.prems by auto
      then show ?thesis using False Suc by (auto simp: node_Suc write_seg_def)
    qed
  qed simp
  have n7: "node u 7 q = (if node u 6 (q div 1024) = 0 then 0 else segs u (node u 6 (q div 1024)) (q mod 1024))"
    for u by (simp add: node_Suc [of 6, simplified])
  show "node ?t 7 q = (if q = p * 1024 + i then v else node t 7 q)"
  proof (cases "q div 1024 = p")
    case True
    then have "q = p * 1024 + q mod 1024" by (metis div_mult_mod_eq)
    then have "q = p * 1024 + i \<longleftrightarrow> q mod 1024 = i" by linarith
    then show ?thesis using True a low [of 6] by (simp add: n7 write_seg_def)
  next
    case False
    then have "node t 6 (q div 1024) \<noteq> a" using wf_inj [OF wf, of 6 6 p "q div 1024"] a by auto
    moreover have "q \<noteq> p * 1024 + i" using False i by auto
    ultimately show ?thesis using low [of 6] by (simp add: n7 write_seg_def)
  qed
qed

text \<open>Hanging a fresh table on an empty edge adds that table and nothing else.\<close>

definition add_table :: "trie \<Rightarrow> place \<Rightarrow> trie" where
  "add_table t p = write_place (snd (alloc_seg t)) p (fresh_seg t)"

definition place_of :: "trie \<Rightarrow> nat \<Rightarrow> nat \<Rightarrow> place" where
  "place_of t d q = (if d = 1 then PRoot q else PCell (node t (d - 1) (q div 1024)) (q mod 1024))"

lemma node_add_table:
  assumes wf: "trie_wf t" and d: "1 \<le> d" "d \<le> 6" and edge: "node t d q = 0"
    and parent: "d = 1 \<or> node t (d - 1) (q div 1024) \<noteq> 0" and e: "1 \<le> e" "e \<le> 7"
  shows "node (add_table t (place_of t d q)) e p =
    (if e = d \<and> p = q then fresh_seg t else node t e p)"
  using e
proof (induction e arbitrary: p)
  case (Suc e)
  let ?t = "add_table t (place_of t d q)"
  have fresh: "segs ?t (fresh_seg t) = (\<lambda>_. 0)"
  proof (cases "d = 1")
    case False
    then have "node t (d - 1) (q div 1024) \<noteq> fresh_seg t" using d by (intro wf_fresh [OF wf]) linarith+
    then show ?thesis using False by (simp add: add_table_def place_of_def alloc_seg_def write_seg_def)
  qed (simp add: add_table_def place_of_def alloc_seg_def write_seg_def)
  have seg: "segs ?t b = (if d \<noteq> 1 \<and> b = node t (d - 1) (q div 1024)
      then (segs t b)(q mod 1024 := fresh_seg t) else segs t b)" if "b \<noteq> fresh_seg t" for b
    using that by (auto simp: add_table_def place_of_def alloc_seg_def write_seg_def)
  show ?case
  proof (cases "e = 0")
    case True
    then show ?thesis
      by (auto simp: add_table_def place_of_def alloc_seg_def write_seg_def)
  next
    case False
    let ?b = "node t e (p div 1024)"
    have IH: "node ?t e (p div 1024) = (if e = d \<and> p div 1024 = q then fresh_seg t else ?b)"
      using Suc False by simp
    have pos: "0 < fresh_seg t" using wf by (simp add: trie_wf_def)
    have bf: "?b \<noteq> fresh_seg t" using wf_fresh [OF wf, of e] False Suc.prems by simp
    have par: "?b = node t (d - 1) (q div 1024) \<longleftrightarrow> e = d - 1 \<and> p div 1024 = q div 1024"
      if "d \<noteq> 1" using wf_inj [OF wf, of "d - 1" e "q div 1024" "p div 1024"] that d parent False Suc.prems
      by auto
    have pq: "p = q \<longleftrightarrow> p div 1024 = q div 1024 \<and> p mod 1024 = q mod 1024"
      by (metis div_mult_mod_eq)
    show ?thesis
    proof (cases "e = d \<and> p div 1024 = q")
      case True
      then show ?thesis using IH fresh edge False pos by (simp add: node_Suc)
    next
      case ne: False
      then have b: "node ?t e (p div 1024) = ?b" using IH by metis
      have e1: "1 \<le> e" using False by simp
      have here: "node ?t (Suc e) p = (if ?b = 0 then 0 else segs ?t ?b (p mod 1024))"
        "node t (Suc e) p = (if ?b = 0 then 0 else segs t ?b (p mod 1024))"
        by (simp_all only: node_Suc [OF e1, of ?t p] node_Suc [OF e1, of t p] b)
      show ?thesis
      proof (cases "Suc e = d \<and> p div 1024 = q div 1024")
        case True
        then have "?b \<noteq> 0" "segs ?t ?b = (segs t ?b)(q mod 1024 := fresh_seg t)"
          using parent False seg [OF bf] by auto
        then have "node ?t (Suc e) p = (if p mod 1024 = q mod 1024 then fresh_seg t else node t (Suc e) p)"
          using here by simp
        moreover have "p mod 1024 = q mod 1024 \<longleftrightarrow> Suc e = d \<and> p = q" using True pq by blast
        ultimately show ?thesis by (simp only:)
      next
        case no: False
        then have "d = 1 \<or> ?b \<noteq> node t (d - 1) (q div 1024)"
          using par d(1) by (cases "d = 1") auto
        then have "segs ?t ?b = segs t ?b" using seg [OF bf] by auto
        then have "node ?t (Suc e) p = node t (Suc e) p" by (simp only: here)
        moreover have "\<not> (Suc e = d \<and> p = q)" using no by blast
        ultimately show ?thesis by (simp only: if_False)
      qed
    qed
  qed
qed simp

lemma trie_wf_add_table:
  assumes wf: "trie_wf t" and d: "1 \<le> d" "d \<le> 6" and edge: "node t d q = 0"
    and parent: "d = 1 \<or> node t (d - 1) (q div 1024) \<noteq> 0"
  shows "trie_wf (add_table t (place_of t d q))"
proof -
  let ?t = "add_table t (place_of t d q)"
  note n = node_add_table [OF wf d edge parent]
  have f: "fresh_seg ?t = Suc (fresh_seg t)"
    by (simp add: add_table_def place_of_def alloc_seg_def write_seg_def)
  have lt: "node t e p < fresh_seg t" if "1 \<le> e" "e \<le> 6" for e p
    using wf that by (simp add: trie_wf_def)
  have "node ?t e p < fresh_seg ?t" if "1 \<le> e" "e \<le> 6" for e p
    using n [of e p] lt [OF that] that f by (simp add: less_Suc_eq)
  moreover have "e = e' \<and> p = p'"
    if "1 \<le> e" "e \<le> 6" "1 \<le> e'" "e' \<le> 6" "node ?t e p = node ?t e' p'" "node ?t e p \<noteq> 0" for e p e' p'
  proof -
    have l: "node t e p < fresh_seg t" "node t e' p' < fresh_seg t" using lt that(1-4) by auto
    have e: "node ?t e p = (if e = d \<and> p = q then fresh_seg t else node t e p)"
      "node ?t e' p' = (if e' = d \<and> p' = q then fresh_seg t else node t e' p')"
      using n that(1-4) by simp_all
    show ?thesis
    proof (cases "(e = d \<and> p = q) \<or> (e' = d \<and> p' = q)")
      case True
      then show ?thesis using l e that(5) by (metis less_irrefl)
    next
      case False
      then show ?thesis using e that wf_inj [OF wf that(1-4), of p p'] by metis
    qed
  qed
  moreover have "0 < fresh_seg ?t" by (simp add: f)
  ultimately show ?thesis unfolding trie_wf_def by blast
qed

end
