(* ===== verification/Trie_Append.thy ===== *)
theory Trie_Append
  imports Trie
begin

text \<open>
  Appending to the trie through its shortcuts is appending to a list: the shortcut of every level
  always points behind the cell on the path of the last entry, a fresh table is hung exactly where
  the radix walk of a later lookup goes, and so \<open>get\<close> returns the appended values in order.
\<close>

section \<open>Shortcuts follow the tree\<close>

definition slice_from :: "addr \<Rightarrow> nat \<Rightarrow> shortcut" where
  "slice_from a i = \<lparr>sc_seg = a, sc_off = i, sc_len = 1024 - i\<rparr>"

text \<open>
  Half way through an append at index \<open>n\<close>, with the levels up to \<open>d\<close> refreshed: refreshed levels have
  the tables that keys up to \<open>n\<close> need, the others those that keys below \<open>n\<close> need; shortcuts above
  level \<open>d\<close> stand behind \<open>n\<close>'s cell, the one of level \<open>d\<close> at or behind it, the rest behind \<open>n - 1\<close>'s.
\<close>

definition shortcut_at :: "trie \<Rightarrow> nat \<Rightarrow> nat \<Rightarrow> nat \<Rightarrow> bool" where
  "shortcut_at t n d e \<longleftrightarrow>
     (if e < d then shortcuts t e = slice_from (node t e (n div span e)) (Suc (level_index_for_key n e))
      else if e = d then shortcuts t e = slice_from (node t e (n div span e))
        (if n mod span (Suc e) = 0 then level_index_for_key n e else Suc (level_index_for_key n e))
      else if n = 0 then sc_len (shortcuts t e) = 0
      else shortcuts t e = slice_from (node t e ((n - 1) div span e)) (Suc (level_index_for_key (n - 1) e)))"

definition mid_append :: "nat list \<Rightarrow> nat \<Rightarrow> trie \<Rightarrow> bool" where
  "mid_append vals d t \<longleftrightarrow>
     trie_wf t \<and> next_entry t = length vals \<and>
     (\<forall>e p. 1 \<le> e \<longrightarrow> e \<le> 6 \<longrightarrow> (node t e p \<noteq> 0 \<longleftrightarrow>
        (if e \<le> d then p * span e \<le> length vals else p * span e < length vals))) \<and>
     (\<forall>k. node t 7 k = (if k < length vals then vals ! k else 0)) \<and>
     (\<forall>e. 1 \<le> e \<longrightarrow> e \<le> 6 \<longrightarrow> shortcut_at t (length vals) d e)"

text \<open>A trie that has been built by appends: entry \<open>k\<close> is \<open>vals ! k\<close>.\<close>

definition appended :: "nat list \<Rightarrow> trie \<Rightarrow> bool" where
  "appended vals t \<longleftrightarrow> mid_append vals 0 t"

lemma prev_index:
  assumes "d \<le> 6" "0 < n"
  shows "n mod span d = 0 \<Longrightarrow> Suc (level_index_for_key (n - 1) d) = 1024"
    "n mod span d \<noteq> 0 \<Longrightarrow> (n - 1) div span d = n div span d"
    "n mod span d \<noteq> 0 \<Longrightarrow> n mod span (Suc d) = 0 \<Longrightarrow>
       Suc (level_index_for_key (n - 1) d) = level_index_for_key n d"
    "n mod span (Suc d) \<noteq> 0 \<Longrightarrow> level_index_for_key (n - 1) d = level_index_for_key n d"
proof -
  let ?u = "span (Suc d)"
  have u: "span d = 1024 * ?u" using assms(1) by (rule span_Suc)
  obtain m where m: "n = Suc m" using assms(2) gr0_implies_Suc by blast
  have div_eq: "m div s = n div s" if "n mod s \<noteq> 0" for s
    using that m by (simp add: div_Suc)
  have div_Suc': "Suc (m div s) = n div s" if "n mod s = 0" for s
    using that m by (simp add: div_Suc)
  have dvd: "span d dvd n \<Longrightarrow> ?u dvd n" unfolding u by (rule dvd_mult_right)
  have idx: "level_index_for_key k d = k div ?u mod 1024" for k by (rule level_index_span)
  have n1: "n - 1 = m" using m by simp
  show "Suc (level_index_for_key (n - 1) d) = 1024" if z: "n mod span d = 0"
  proof -
    have "?u dvd n" using z dvd by (simp add: mod_eq_0_iff_dvd)
    then have s: "Suc (m div ?u) = n div ?u" by (intro div_Suc') (simp add: mod_eq_0_iff_dvd)
    have "1024 dvd n div ?u" using z unfolding u mod_eq_0_iff_dvd
      by (metis dvd_div_iff_mult dvd_mult_right mult.commute span_pos less_numeral_extra(3))
    then have "Suc (m div ?u) mod 1024 = 0" using s by (simp add: mod_eq_0_iff_dvd)
    then show ?thesis unfolding idx n1 by (simp add: mod_Suc split: if_splits)
  qed
  show "(n - 1) div span d = n div span d" if "n mod span d \<noteq> 0"
    using div_eq [OF that] n1 by simp
  show "Suc (level_index_for_key (n - 1) d) = level_index_for_key n d"
    if nz: "n mod span d \<noteq> 0" and z: "n mod ?u = 0"
  proof -
    have s: "Suc (m div ?u) = n div ?u" using z by (rule div_Suc')
    have "n div ?u mod 1024 \<noteq> 0"
    proof
      assume "n div ?u mod 1024 = 0"
      then obtain c where "n div ?u = 1024 * c" by (auto simp: mod_eq_0_iff_dvd)
      moreover have "n = n div ?u * ?u" using z by (metis add.right_neutral div_mult_mod_eq)
      ultimately have "n = span d * c" unfolding u by (metis mult.commute mult.left_commute)
      then show False using nz by simp
    qed
    then show ?thesis unfolding idx n1 s [symmetric] by (simp add: mod_Suc split: if_splits)
  qed
  show "level_index_for_key (n - 1) d = level_index_for_key n d" if "n mod ?u \<noteq> 0"
    unfolding idx n1 using div_eq [OF that] by simp
qed

lemma not_multiple_le: "n mod s \<noteq> 0 \<Longrightarrow> p * s \<le> n \<longleftrightarrow> p * s < (n::nat)"
  by (metis le_neq_implies_less less_imp_le mod_mult_self2_is_0)

text \<open>No table is ever moved.\<close>

definition extends :: "trie \<Rightarrow> trie \<Rightarrow> bool" where
  "extends t t' \<longleftrightarrow> (\<forall>e p. 1 \<le> e \<longrightarrow> e \<le> 6 \<longrightarrow> node t e p \<noteq> 0 \<longrightarrow> node t' e p = node t e p)"

lemma extends_refl [simp]: "extends t t"
  by (simp add: extends_def)

lemma extends_trans [trans]: "extends t t' \<Longrightarrow> extends t' t'' \<Longrightarrow> extends t t''"
  unfolding extends_def by metis

lemma mid_append_skip:
  assumes mid: "mid_append vals d t" and d: "d \<le> 5" and nz: "length vals mod span (Suc d) \<noteq> 0"
  shows "mid_append vals (Suc d) t"
proof -
  let ?n = "length vals"
  have pos: "0 < ?n" using nz by (cases "?n = 0") auto
  have old: "shortcut_at t ?n d e" if "1 \<le> e" "e \<le> 6" for e
    using mid that unfolding mid_append_def by blast
  note prev = prev_index [of "Suc d", OF _ pos]
  have "shortcut_at t ?n (Suc d) e" if e: "1 \<le> e" "e \<le> 6" for e
  proof -
    consider "e < d" | "e = d" | "e = Suc d" | "Suc d < e" by linarith
    then show ?thesis
    proof cases
      case 3
      then have "shortcuts t e = slice_from (node t e ((?n - 1) div span e)) (Suc (level_index_for_key (?n - 1) e))"
        using old [OF e] pos by (simp add: shortcut_at_def)
      then show ?thesis using 3 prev(2,3,4) nz d by (simp add: shortcut_at_def)
    qed (use old [OF e] nz in \<open>auto simp: shortcut_at_def\<close>)
  qed
  moreover have "node t e p \<noteq> 0 \<longleftrightarrow>
      (if e \<le> Suc d then p * span e \<le> ?n else p * span e < ?n)" if "1 \<le> e" "e \<le> 6" for e p
  proof (cases "e = Suc d")
    case True
    then have "node t e p \<noteq> 0 \<longleftrightarrow> p * span e < ?n" using mid that unfolding mid_append_def by (metis Suc_n_not_le_n)
    then show ?thesis using True not_multiple_le [OF nz, of p] by simp
  next
    case False
    then have "e \<le> Suc d \<longleftrightarrow> e \<le> d" by linarith
    then show ?thesis using mid that unfolding mid_append_def by metis
  qed
  ultimately show ?thesis using mid unfolding mid_append_def by blast
qed

lemma mid_append_add:
  assumes mid: "mid_append vals d t" and d: "d \<le> 5" and z: "length vals mod span (Suc d) = 0"
    and segs: "segs t' = segs (add_table t (place_of t (Suc d) (length vals div span (Suc d))))"
    and root: "root_array t' = root_array (add_table t (place_of t (Suc d) (length vals div span (Suc d))))"
    and fresh: "fresh_seg t' = fresh_seg (add_table t (place_of t (Suc d) (length vals div span (Suc d))))"
    and ne: "next_entry t' = next_entry t"
    and sc: "\<And>e. 1 \<le> e \<Longrightarrow> shortcuts t' e = ((shortcuts t)(d := slice_from (node t d (length vals div span d))
      (Suc (level_index_for_key (length vals) d)), Suc d := whole_seg (fresh_seg t))) e"
  shows "mid_append vals (Suc d) t'" "extends t t'"
proof -
  let ?n = "length vals"
  define q where "q = ?n div span (Suc d)"
  let ?t = "add_table t (place_of t (Suc d) q)"
  have wf: "trie_wf t" and nodes: "\<And>e p. 1 \<le> e \<Longrightarrow> e \<le> 6 \<Longrightarrow> node t e p \<noteq> 0 \<longleftrightarrow>
        (if e \<le> d then p * span e \<le> ?n else p * span e < ?n)"
    and vals: "\<And>k. node t 7 k = (if k < ?n then vals ! k else 0)"
    and old: "\<And>e. 1 \<le> e \<Longrightarrow> e \<le> 6 \<Longrightarrow> shortcut_at t ?n d e"
    using mid unfolding mid_append_def by blast+
  have qn: "?n = q * span (Suc d)" using z unfolding q_def by (metis add.right_neutral div_mult_mod_eq)
  have edge: "node t (Suc d) q = 0" using nodes [of "Suc d" q] d qn by auto
  have "q div 1024 = ?n div span d" using d by (simp add: q_def prefix_Suc)
  then have parent: "Suc d = 1 \<or> node t (Suc d - 1) (q div 1024) \<noteq> 0"
    using nodes [of d "?n div span d"] d by (cases "d = 0") auto
  have tn: "node t' e p = node ?t e p" for e p using segs root unfolding q_def by (rule node_cong)
  have n: "node t' e p = (if e = Suc d \<and> p = q then fresh_seg t else node t e p)" if "1 \<le> e" "e \<le> 7" for e p
    unfolding tn using node_add_table [OF wf _ _ edge parent that] d by simp
  have "trie_wf ?t" using trie_wf_add_table [OF wf _ _ edge parent] d by simp
  then have wf': "trie_wf t'" unfolding trie_wf_def tn fresh [folded q_def] .
  have fpos: "fresh_seg t \<noteq> 0" using wf unfolding trie_wf_def by blast
  have "node t' e p \<noteq> 0 \<longleftrightarrow> (if e \<le> Suc d then p * span e \<le> ?n else p * span e < ?n)"
    if e: "1 \<le> e" "e \<le> 6" for e p
  proof (cases "e = Suc d")
    case True
    have "p * span e = ?n \<longleftrightarrow> p = q"
      unfolding True qn by simp
    then have "p * span e \<le> ?n \<and> p \<noteq> q \<longleftrightarrow> p * span e < ?n" by (simp only: nat_less_le)
    then show ?thesis using True n [of e p] nodes [OF e, of p] fpos e qn by auto
  next
    case False
    then show ?thesis using n [of e p] nodes [OF e, of p] e by auto
  qed
  moreover have "shortcut_at t' ?n (Suc d) e" if e: "1 \<le> e" "e \<le> 6" for e
  proof -
    have fw: "node t' e p = node t e p" if "e \<noteq> Suc d" for p using n [of e p] e that by simp
    consider "e < d" | "e = d" | "e = Suc d" | "Suc d < e" by linarith
    then show ?thesis
    proof cases
      case 3
      have "span e = 1024 * span (Suc e)" using e by (intro span_Suc) simp
      then have nq: "?n = (q * 1024) * span (Suc e)" using qn 3 by simp
      have "?n div span (Suc e) = q * 1024"
        using span_pos(1) [of "Suc e"] by (subst nq) (simp only: nonzero_mult_div_cancel_right neq0_conv)
      moreover have "?n mod span (Suc e) = 0" by (subst nq) (rule mod_mult_self2_is_0)
      ultimately have "level_index_for_key ?n e = 0 \<and> ?n mod span (Suc e) = 0"
        unfolding level_index_span by (simp only: mod_mult_self2_is_0 simp_thms)
      then show ?thesis using 3 sc [OF e(1)] n [of e q] e
        by (simp add: shortcut_at_def whole_seg_def slice_from_def q_def)
    qed (use old [OF e] sc [OF e(1)] fw z in \<open>auto simp: shortcut_at_def\<close>)
  qed
  moreover have "node t' 7 k = (if k < ?n then vals ! k else 0)" for k using n [of 7 k] vals d by simp
  moreover have "next_entry t' = ?n" using mid ne by (simp add: mid_append_def)
  ultimately show "mid_append vals (Suc d) t'" using wf' unfolding mid_append_def by blast
  show "extends t t'" using n edge unfolding extends_def by (metis le_SucI numeral_eq_Suc pred_numeral_simps(3) BitM.simps(2))
qed

lemma mid_appendD:
  assumes "mid_append vals d t"
  shows "trie_wf t" "next_entry t = length vals"
    "1 \<le> e \<Longrightarrow> e \<le> 6 \<Longrightarrow> shortcut_at t (length vals) d e"
    "1 \<le> e \<Longrightarrow> e \<le> 6 \<Longrightarrow> node t e p \<noteq> 0 \<longleftrightarrow>
       (if e \<le> d then p * span e \<le> length vals else p * span e < length vals)"
    "node t 7 k = (if k < length vals then vals ! k else 0)"
  using assms unfolding mid_append_def by blast+

text \<open>A level that must be refreshed has used up its table.\<close>

lemma mid_append_full:
  assumes mid: "mid_append vals d t" and d: "d \<le> 5" and z: "length vals mod span (Suc d) = 0"
  shows "cannot_append t (Suc d)"
proof (cases "length vals = 0")
  case True
  then show ?thesis using mid_appendD(3) [OF mid, of "Suc d"] d
    by (simp add: shortcut_at_def cannot_append_def)
next
  case False
  then have "Suc (level_index_for_key (length vals - 1) (Suc d)) = 1024"
    using prev_index(1) [of "Suc d" "length vals"] z d by simp
  then show ?thesis using mid_appendD(3) [OF mid, of "Suc d"] d False
    by (simp add: shortcut_at_def cannot_append_def slice_from_def)
qed

lemma refresh_root_mid:
  assumes mid: "mid_append vals 0 t" and n: "length vals < 2 ^ 62"
  obtains t' where "refresh_root t = Some t'" "mid_append vals 1 t'" "extends t t'"
proof (cases "length vals mod span 1 = 0")
  case False
  then have "mid_append vals 1 t" using mid_append_skip [OF mid] by simp
  moreover have "refresh_root t = Some t"
    using False mid_appendD(2) [OF mid] by (simp add: refresh_root_def span_def)
  ultimately show ?thesis using that extends_refl by blast
next
  case True
  let ?q = "length vals div span 1"
  have q: "root_index (length vals) = ?q" "?q < 4"
    using n by (auto simp: root_index_def span_def)
  let ?t = "(snd (alloc_seg t))\<lparr>root_array := (root_array t)(?q := fresh_seg t),
    shortcuts := (shortcuts t)(1 := whole_seg (fresh_seg t))\<rparr>"
  have "refresh_root t = Some ?t"
    using True q mid_appendD(2) [OF mid] mid_append_full [OF mid]
    by (simp add: refresh_root_def span_def alloc_seg_def Let_def)
  moreover have "mid_append vals (Suc 0) ?t" "extends t ?t"
    by (rule mid_append_add [OF mid]; use True in \<open>simp add: add_table_def place_of_def alloc_seg_def\<close>)+
  ultimately show ?thesis using that by (metis One_nat_def)
qed

lemma refresh_level_mid:
  assumes mid: "mid_append vals d t" and d: "1 \<le> d" "d \<le> 5"
  obtains t' where "refresh_level (Suc d) t = Some t'" "mid_append vals (Suc d) t'" "extends t t'"
proof (cases "length vals mod span (Suc d) = 0")
  case False
  then have "mid_append vals (Suc d) t" using mid_append_skip [OF mid d(2)] by simp
  moreover have "refresh_level (Suc d) t = Some t"
    using False mid_appendD(2) [OF mid] by (simp add: refresh_level_def span_def)
  ultimately show ?thesis using that extends_refl by blast
next
  case True
  let ?n = "length vals" let ?q = "?n div span (Suc d)"
  let ?i = "level_index_for_key ?n d" let ?a = "node t d (?n div span d)"
  have sc: "shortcuts t d = slice_from ?a ?i"
    using mid_appendD(3) [OF mid, of d] d True by (simp add: shortcut_at_def)
  have place: "place_of t (Suc d) ?q = PCell ?a ?i"
    using d by (simp add: place_of_def prefix_Suc level_index_span)
  let ?t = "write_seg (snd (alloc_seg t)) (?a, ?i) (fresh_seg t)"
  let ?t' = "?t\<lparr>shortcuts := (shortcuts t)(d := slice_from ?a (Suc ?i), Suc d := whole_seg (fresh_seg t))\<rparr>"
  have "shortcut_append (snd (alloc_seg t)) d (fresh_seg t) =
      Some ((?a, ?i), ?t\<lparr>shortcuts := (shortcuts t)(d := slice_from ?a (Suc ?i))\<rparr>)"
    using sc level_index_less [of ?n d]
    by (simp add: shortcut_append_def alloc_seg_def slice_from_def Let_def write_seg_def linorder_not_le)
  then have "refresh_level (Suc d) t = Some ?t'"
    using True mid_appendD(2) [OF mid] mid_append_full [OF mid d(2) True]
    by (simp add: refresh_level_def span_def alloc_seg_def)
  moreover have "mid_append vals (Suc d) ?t'" "extends t ?t'"
    by (rule mid_append_add [OF mid d(2) True]; simp add: place add_table_def write_seg_def alloc_seg_def)+
  ultimately show ?thesis using that by blast
qed

lemma node_trie_new [simp]: "node trie_new d p = 0"
  by (induction trie_new d p rule: node.induct) (simp_all add: trie_new_def)

lemma trie_new_appended: "appended [] trie_new"
  unfolding appended_def mid_append_def trie_wf_def by (simp add: shortcut_at_def) (simp add: trie_new_def)

text \<open>The value goes into the leaf cell of index \<open>n\<close>.\<close>

lemma mid_append_last:
  assumes mid: "mid_append vals 6 t6"
  obtains sl t7 where "shortcut_append (t6\<lparr>next_entry := Suc (length vals)\<rparr>) 6 v = Some (sl, t7)"
    "appended (vals @ [v]) t7" "sl = (node t7 6 (length vals div 1024), length vals mod 1024)" "extends t6 t7"
proof -
  let ?n = "length vals"
  let ?a = "node t6 6 (?n div span 6)" let ?i = "level_index_for_key ?n 6"
  have sc: "shortcuts t6 6 = slice_from ?a ?i"
    using mid_appendD(3) [OF mid, of 6] by (simp add: shortcut_at_def)
  let ?t7 = "(write_seg (t6\<lparr>next_entry := Suc ?n\<rparr>) (?a, ?i) v)
    \<lparr>shortcuts := (shortcuts t6)(6 := slice_from ?a (Suc ?i))\<rparr>"
  have res: "shortcut_append (t6\<lparr>next_entry := Suc ?n\<rparr>) 6 v = Some ((?a, ?i), ?t7)"
    using sc level_index_less [of ?n 6]
    by (simp add: shortcut_append_def slice_from_def write_seg_def linorder_not_le Let_def)
  have wf: "trie_wf t6" using mid_appendD(1) [OF mid] .
  have a: "?a \<noteq> 0" using mid_appendD(4) [OF mid, of 6 "?n div span 6"] by auto
  note w = node_write_value [OF wf refl a level_index_less [of ?n 6]]
  have n7: "node ?t7 e p = node (write_seg t6 (?a, ?i) v) e p" for e p
    by (rule node_cong) (simp_all add: write_seg_def)
  have low: "node ?t7 e p = node t6 e p" if "e \<le> 6" for e p unfolding n7 using w(1) [OF that] .
  have pi: "?n div span 6 * 1024 + ?i = ?n" using prefix_split [of 6 ?n] by simp
  have "mid_append (vals @ [v]) 0 ?t7"
    unfolding mid_append_def
  proof (intro conjI allI impI)
    have f: "fresh_seg ?t7 = fresh_seg t6" by (simp add: write_seg_def)
    show "trie_wf ?t7" using wf low f unfolding trie_wf_def by metis
    show "next_entry ?t7 = length (vals @ [v])" by (simp add: write_seg_def)
    show "node ?t7 7 k = (if k < length (vals @ [v]) then (vals @ [v]) ! k else 0)" for k
      unfolding n7 w(2) pi using mid_appendD(5) [OF mid, of k] by (auto simp: nth_append)
  next
    fix e p :: nat assume e: "1 \<le> e" "e \<le> 6"
    show "(node ?t7 e p \<noteq> 0) =
        (if e \<le> 0 then p * span e \<le> length (vals @ [v]) else p * span e < length (vals @ [v]))"
      using mid_appendD(4) [OF mid e, of p] low [OF e(2), of p] e by (simp add: less_Suc_eq_le)
  next
    fix e :: nat assume e: "1 \<le> e" "e \<le> 6"
    show "shortcut_at ?t7 (length (vals @ [v])) 0 e"
      using mid_appendD(3) [OF mid e] low [OF e(2)] e by (auto simp: shortcut_at_def)
  qed
  moreover have "(?a, ?i) = (node ?t7 6 (?n div 1024), ?n mod 1024)"
    using low [of 6] by (simp add: level_index_span span_def)
  moreover have "extends t6 ?t7" using low unfolding extends_def by metis
  ultimately show ?thesis using that [OF res] unfolding appended_def by blast
qed

text \<open>One append: no panic, the index is the old length, the value is last.\<close>

lemma prep_append_appended:
  assumes app: "appended vals t" and n: "length vals < 2 ^ 62"
  obtains sl t' where "prep_append t v = Some (length vals, sl, t')" "appended (vals @ [v]) t'"
    "sl = (node t' 6 (length vals div 1024), length vals mod 1024)" "extends t t'"
proof -
  let ?n = "length vals"
  from app have m0: "mid_append vals 0 t" by (simp add: appended_def)
  obtain t1 where t1: "refresh_root t = Some t1" "mid_append vals 1 t1" "extends t t1" using refresh_root_mid [OF m0 n] .
  obtain t2 where t2: "refresh_level 2 t1 = Some t2" "mid_append vals 2 t2" "extends t1 t2"
    using refresh_level_mid [OF t1(2)] by (auto simp: numeral_2_eq_2)
  obtain t3 where t3: "refresh_level 3 t2 = Some t3" "mid_append vals 3 t3" "extends t2 t3"
    using refresh_level_mid [OF t2(2)] by auto
  obtain t4 where t4: "refresh_level 4 t3 = Some t4" "mid_append vals 4 t4" "extends t3 t4"
    using refresh_level_mid [OF t3(2)] by auto
  obtain t5 where t5: "refresh_level 5 t4 = Some t5" "mid_append vals 5 t5" "extends t4 t5"
    using refresh_level_mid [OF t4(2)] by auto
  obtain t6 where t6: "refresh_level 6 t5 = Some t6" "mid_append vals 6 t6" "extends t5 t6"
    using refresh_level_mid [OF t5(2)] by auto
  obtain sl t7 where t7: "shortcut_append (t6\<lparr>next_entry := Suc ?n\<rparr>) 6 v = Some (sl, t7)" "appended (vals @ [v]) t7"
    "sl = (node t7 6 (?n div 1024), ?n mod 1024)" "extends t6 t7" using mid_append_last [OF t6(2)] .
  have l: "next_entry t = ?n" "next_entry t6 = ?n" using mid_appendD(2) m0 t6(2) by blast+
  have res: "prep_append t v = Some (?n, sl, t7)"
    using l n t1 t2 t3 t4 t5 t6 t7(1)
    by (simp add: prep_append_def u64_max_def u64_add_def Let_def)
  moreover have "extends t t7"
    using t1(3) t2(3) t3(3) t4(3) t5(3) t6(3) t7(4) unfolding extends_def by metis
  ultimately show ?thesis using that [OF res t7(2,3)] by blast
qed

section \<open>Reading back\<close>

fun append_all :: "trie \<Rightarrow> val_edge list \<Rightarrow> trie option" where
  "append_all t [] = Some t"
| "append_all t (v # vs) = do { (_, _, t') \<leftarrow> prep_append t v; append_all t' vs }"

lemma append_all_appended:
  "appended vals t \<Longrightarrow> length vals + length vs \<le> 2 ^ 62 \<Longrightarrow>
   \<exists>t'. append_all t vs = Some t' \<and> appended (vals @ vs) t' \<and> extends t t'"
proof (induction vs arbitrary: vals t)
  case Nil
  then show ?case by simp
next
  case (Cons v vs)
  have "length vals < 2 ^ 62" using Cons.prems(2) by simp
  then obtain sl t1 where t1: "prep_append t v = Some (length vals, sl, t1)" "appended (vals @ [v]) t1" "extends t t1"
    using prep_append_appended [OF Cons.prems(1)] by metis
  have "length (vals @ [v]) + length vs \<le> 2 ^ 62" using Cons.prems(2) by simp
  then obtain t2 where "append_all t1 vs = Some t2" "appended ((vals @ [v]) @ vs) t2" "extends t1 t2"
    using Cons.IH [OF t1(2)] by blast
  then show ?case using t1(1) extends_trans [OF t1(3)] by auto
qed

lemma appended_get:
  assumes "appended vals t" "k < 2 ^ 64"
  shows "trie_get t k = (if k < length vals \<and> val_ptr (vals ! k) \<noteq> 0 then Some (vals ! k) else None)"
proof -
  have "node t 7 k = (if k < length vals then vals ! k else 0)"
    using mid_appendD(5) assms(1) unfolding appended_def by blast
  moreover have "val_ptr 0 = 0" by (simp add: val_ptr_def)
  ultimately show ?thesis using trie_get_node [OF assms(2), of t] by simp
qed

text \<open>C27: appending is total up to the trie's address space and makes the trie a list: after any
  sequence of appends to a new trie, \<open>get k\<close> is the \<open>k\<close>-th value appended, \<open>get\<close> beyond the end and of
  a reserved but unwritten entry is empty, and \<open>len\<close> counts the appends.\<close>

theorem trie_append_get:
  assumes "length vs \<le> 2 ^ 62"
  shows "\<exists>t. append_all trie_new vs = Some t \<and> trie_len t = length vs \<and>
    (\<forall>k < 2 ^ 64. trie_get t k = (if k < length vs \<and> val_ptr (vs ! k) \<noteq> 0 then Some (vs ! k) else None))"
proof -
  obtain t where t: "append_all trie_new vs = Some t" "appended vs t"
    using append_all_appended [OF trie_new_appended, of vs] assms by auto
  moreover have "trie_len t = length vs"
    using mid_appendD(2) t(2) unfolding appended_def trie_len_def by blast
  ultimately show ?thesis using appended_get [OF t(2)] by blast
qed

theorem trie_append_get_witness:
  "\<exists>t. append_all trie_new [16, 32, 48] = Some t \<and> trie_len t = 3 \<and> trie_get t 1 = Some 32 \<and> trie_get t 7 = None"
proof -
  obtain t where t: "append_all trie_new [16, 32, 48] = Some t" "trie_len t = 3"
    "\<forall>k < 2 ^ 64. trie_get t k = (if k < 3 \<and> val_ptr ([16, 32, 48] ! k) \<noteq> 0 then Some ([16, 32, 48] ! k) else None)"
    using trie_append_get [of "[16, 32, 48]"] by auto
  then show ?thesis by (simp add: val_ptr_def)
qed

text \<open>\<open>AppendSlot::finish_append\<close> publishes the data by storing its address in the reserved cell.\<close>

definition finish_append :: "trie \<Rightarrow> slot \<Rightarrow> val_edge \<Rightarrow> trie" where
  "finish_append t sl v = write_seg t sl v"

lemma finish_append_appended:
  assumes app: "appended vals t" and k: "k < length vals"
    and sl: "sl = (node t 6 (k div 1024), k mod 1024)"
  shows "appended (vals[k := v]) (finish_append t sl v)"
proof -
  let ?t = "finish_append t sl v" let ?a = "node t 6 (k div 1024)"
  from app have mid: "mid_append vals 0 t" by (simp add: appended_def)
  have "(k div 1024) * span 6 < length vals" using k by (simp add: span_def)
  then have a: "?a \<noteq> 0" using mid_appendD(4) [OF mid, of 6 "k div 1024"] by simp
  note w = node_write_value [OF mid_appendD(1) [OF mid] refl a, of "k mod 1024"]
  have low: "node ?t e p = node t e p" if "e \<le> 6" for e p
    using w(1) [OF _ that] unfolding finish_append_def sl by simp
  have v7: "node ?t 7 q = (if q = k then v else node t 7 q)" for q
    using w(2) unfolding finish_append_def sl by simp
  have same: "shortcuts ?t = shortcuts t" "next_entry ?t = next_entry t" "fresh_seg ?t = fresh_seg t"
    by (simp_all add: finish_append_def write_seg_def)
  have "mid_append (vals[k := v]) 0 ?t"
    unfolding mid_append_def
  proof (intro conjI allI impI)
    show "trie_wf ?t" using mid_appendD(1) [OF mid] low same(3) unfolding trie_wf_def by metis
    show "next_entry ?t = length (vals[k := v])" using mid_appendD(2) [OF mid] same by simp
    show "node ?t 7 q = (if q < length (vals[k := v]) then vals[k := v] ! q else 0)" for q
      using v7 [of q] mid_appendD(5) [OF mid, of q] k by (auto simp: nth_list_update)
  next
    fix e p :: nat assume e: "1 \<le> e" "e \<le> 6"
    show "(node ?t e p \<noteq> 0) =
        (if e \<le> 0 then p * span e \<le> length (vals[k := v]) else p * span e < length (vals[k := v]))"
      using mid_appendD(4) [OF mid e, of p] low [OF e(2), of p] by simp
  next
    fix e :: nat assume e: "1 \<le> e" "e \<le> 6"
    show "shortcut_at ?t (length (vals[k := v])) 0 e"
      using mid_appendD(3) [OF mid e] low [OF e(2)] same e(1) by (auto simp: shortcut_at_def)
  qed
  then show ?thesis by (simp add: appended_def)
qed

text \<open>C28: a slot reserved by an append stays the slot of its entry while later appends go on: filling it
  afterwards makes exactly that entry readable and disturbs no other.\<close>

theorem reserved_slot_stays_valid:
  assumes "append_all trie_new vs = Some t0" and "prep_append t0 0 = Some (k, sl, t1)"
    and "append_all t1 ws = Some t2" and len: "Suc (length vs + length ws) \<le> 2 ^ 62"
    and j: "j < 2 ^ 64" and v: "val_ptr v \<noteq> 0"
  shows "trie_get (finish_append t2 sl v) j = (if j = k then Some v else trie_get t2 j) \<and>
    trie_get t2 k = None"
proof -
  have t0: "appended vs t0" using append_all_appended [OF trie_new_appended, of vs] assms(1) len by auto
  have l: "length vs < 2 ^ 62" using len by simp
  obtain sl' t1' where p: "prep_append t0 0 = Some (length vs, sl', t1')" "appended (vs @ [0]) t1'"
    "sl' = (node t1' 6 (length vs div 1024), length vs mod 1024)"
    using prep_append_appended [OF t0 l, of 0] by metis
  then have k: "k = length vs" "sl' = sl" "t1' = t1" using assms(2) by auto
  have t2: "appended ((vs @ [0]) @ ws) t2" "extends t1 t2"
    using append_all_appended [of "vs @ [0]" t1 ws] p(2) k(3) assms(3) len by auto
  have "(length vs div 1024) * span 6 < length (vs @ [0])" by (simp add: span_def less_Suc_eq_le)
  then have "node t1 6 (length vs div 1024) \<noteq> 0"
    using mid_appendD(4) [of "vs @ [0]" 0 t1 6 "length vs div 1024"] p(2) k(3) by (simp add: appended_def)
  then have sl: "sl = (node t2 6 (k div 1024), k mod 1024)"
    using p(3) k t2(2) by (simp add: extends_def)
  define xs where "xs = (vs @ [0]) @ ws"
  have xs: "appended xs t2" "k < length xs" "xs ! k = 0" using t2(1) k(1) by (simp_all add: xs_def)
  have "appended (xs[k := v]) (finish_append t2 sl v)"
    using finish_append_appended [OF xs(1,2) sl] .
  then have "trie_get (finish_append t2 sl v) j =
      (if j < length xs \<and> val_ptr (xs[k := v] ! j) \<noteq> 0 then Some (xs[k := v] ! j) else None)"
    using appended_get [OF _ j] by simp
  moreover have "val_ptr 0 = 0" "k < 2 ^ 64" using k len by (auto simp: val_ptr_def)
  ultimately show ?thesis using appended_get [OF xs(1) j] appended_get [OF xs(1), of k] xs(2,3) v by simp
qed

theorem reserved_slot_stays_valid_witness:
  "\<exists>t0 k sl t1 t2. append_all trie_new [16] = Some t0 \<and> prep_append t0 0 = Some (k, sl, t1) \<and>
     append_all t1 [32] = Some t2 \<and> trie_get t2 k = None \<and> trie_get (finish_append t2 sl 48) k = Some 48"
proof -
  obtain t0 where t0: "append_all trie_new [16] = Some t0" "appended [16] t0"
    using append_all_appended [OF trie_new_appended, of "[16]"] by auto
  have l: "length [16::nat] < 2 ^ 62" by simp
  obtain sl t1 where t1: "prep_append t0 0 = Some (length [16::nat], sl, t1)" "appended ([16] @ [0]) t1"
    using prep_append_appended [OF t0(2) l, of 0] by metis
  obtain t2 where t2: "append_all t1 [32] = Some t2"
    using append_all_appended [OF t1(2), of "[32]"] by auto
  have "val_ptr 48 \<noteq> 0" by (simp add: val_ptr_def)
  then have "trie_get (finish_append t2 sl 48) 1 = Some 48" "trie_get t2 1 = None"
    using reserved_slot_stays_valid [OF t0(1) t1(1) t2, of 1 48] by simp_all
  moreover have "prep_append t0 0 = Some (1, sl, t1)" using t1(1) by simp
  ultimately show ?thesis using t0(1) t2 by blast
qed

section \<open>Inserting at a given index\<close>

text \<open>One step of the walk that creates missing tables.\<close>

lemma insert_step_node:
  assumes wf: "trie_wf t" and d: "1 \<le> d" "d \<le> 6"
    and parent: "d = 1 \<or> node t (d - 1) (key div span d div 1024) \<noteq> 0"
  obtains t' where
    "insert_step key d (place_of t d (key div span d), t) = (place_of t' (Suc d) (key div span (Suc d)), t')"
    "trie_wf t'" "node t' d (key div span d) \<noteq> 0" "next_entry t' = next_entry t" "min_entry t' = min_entry t"
    "\<And>e p. 1 \<le> e \<Longrightarrow> e \<le> 7 \<Longrightarrow> (e, p) \<noteq> (d, key div span d) \<Longrightarrow> node t' e p = node t e p"
proof -
  let ?q = "key div span d"
  have rd: "read_place t (place_of t d ?q) = node t d ?q"
  proof (cases "d = 1")
    case False
    then have "Suc (d - 1) = d" "1 \<le> d - 1" using d(1) by auto
    then show ?thesis using node_Suc [of "d - 1" t ?q] False parent by (simp add: place_of_def)
  qed (simp add: place_of_def)
  have pl: "place_of u (Suc d) (key div span (Suc d)) = PCell (node u d ?q) (level_index_for_key key d)" for u
    using d by (simp add: place_of_def prefix_Suc level_index_span)
  show ?thesis
  proof (cases "node t d ?q = 0")
    case False
    then have "insert_step key d (place_of t d ?q, t) = (place_of t (Suc d) (key div span (Suc d)), t)"
      by (simp add: insert_step_def rd pl)
    then show ?thesis using that [of t] wf False by simp
  next
    case True
    let ?t = "add_table t (place_of t d ?q)"
    note n = node_add_table [OF wf d True parent]
    have f: "node ?t d ?q = fresh_seg t" using n [of d ?q] d by simp
    have "fresh_seg t \<noteq> 0" using wf unfolding trie_wf_def by blast
    moreover have "insert_step key d (place_of t d ?q, t) = (place_of ?t (Suc d) (key div span (Suc d)), ?t)"
      using True unfolding pl f by (simp add: insert_step_def rd add_table_def alloc_seg_def)
    moreover have "next_entry ?t = next_entry t" "min_entry ?t = min_entry t"
      by (simp_all add: add_table_def place_of_def alloc_seg_def write_seg_def)
    moreover have "node ?t e p = node t e p" if "1 \<le> e" "e \<le> 7" "(e, p) \<noteq> (d, ?q)" for e p
      using n [OF that(1,2), of p] that(3) by auto
    ultimately show ?thesis
      using trie_wf_add_table [OF wf d True parent] f by (intro that [of ?t]) simp_all
  qed
qed

text \<open>What the steps keep: the values, and well-formedness; and what they reach.\<close>

lemma insert_step_chain:
  assumes "trie_wf t" "1 \<le> d" "d \<le> 6"
    "d = 1 \<or> node t (d - 1) (key div span (d - 1)) \<noteq> 0"
  obtains t' where
    "insert_step key d (place_of t d (key div span d), t) = (place_of t' (Suc d) (key div span (Suc d)), t')"
    "trie_wf t'" "node t' d (key div span d) \<noteq> 0" "next_entry t' = next_entry t" "min_entry t' = min_entry t"
    "node t' 7 = node t 7"
proof -
  have "key div span d div 1024 = key div span (d - 1)" if "d \<noteq> 1"
    using prefix_Suc [of "d - 1" key] that assms(2,3) by simp
  then have "d = 1 \<or> node t (d - 1) (key div span d div 1024) \<noteq> 0" using assms(4) by metis
  from insert_step_node [OF assms(1-3) this] obtain t' where t':
    "insert_step key d (place_of t d (key div span d), t) = (place_of t' (Suc d) (key div span (Suc d)), t')"
    "trie_wf t'" "node t' d (key div span d) \<noteq> 0" "next_entry t' = next_entry t" "min_entry t' = min_entry t"
    "\<And>e p. 1 \<le> e \<Longrightarrow> e \<le> 7 \<Longrightarrow> (e, p) \<noteq> (d, key div span d) \<Longrightarrow> node t' e p = node t e p" by blast
  have "node t' 7 = node t 7" using t'(6) [of 7] assms(3) by auto
  then show ?thesis using that t'(1-5) by blast
qed

lemma prep_append_at_node:
  assumes wf: "trie_wf t" and key: "key < u64_max"
  obtains t' where "prep_append_at t key = Some (PCell (node t' 6 (key div 1024)) (key mod 1024), t')"
    "trie_wf t'" "node t' 6 (key div 1024) \<noteq> 0" "node t' 7 = node t 7"
    "next_entry t' = max (next_entry t) (Suc key)" "min_entry t' = min_entry t"
proof -
  define t0 where "t0 = t\<lparr>next_entry := max (next_entry t) (Suc key)\<rparr>"
  have t0: "trie_wf t0" "node t0 7 = node t 7" "next_entry t0 = max (next_entry t) (Suc key)"
    "min_entry t0 = min_entry t"
    using wf by (simp_all add: t0_def)
  have "key < 2 ^ 64" using key by (simp add: u64_max_def)
  then have r: "PRoot (root_index key) = place_of t0 1 (key div span 1)"
    by (simp add: place_of_def root_index_span)
  obtain t1 where t1: "insert_step key 1 (place_of t0 1 (key div span 1), t0) = (place_of t1 2 (key div span 2), t1)"
    "trie_wf t1" "node t1 1 (key div span 1) \<noteq> 0" "next_entry t1 = next_entry t0" "min_entry t1 = min_entry t0"
    "node t1 7 = node t0 7"
    using insert_step_chain [OF t0(1), of 1 key] by (auto simp: Suc_1 simp del: One_nat_def)
  obtain t2 where t2: "insert_step key 2 (place_of t1 2 (key div span 2), t1) = (place_of t2 3 (key div span 3), t2)"
    "trie_wf t2" "node t2 2 (key div span 2) \<noteq> 0" "next_entry t2 = next_entry t1" "min_entry t2 = min_entry t1"
    "node t2 7 = node t1 7"
    using insert_step_chain [OF t1(2), of 2 key] t1(3) by auto
  obtain t3 where t3: "insert_step key 3 (place_of t2 3 (key div span 3), t2) = (place_of t3 4 (key div span 4), t3)"
    "trie_wf t3" "node t3 3 (key div span 3) \<noteq> 0" "next_entry t3 = next_entry t2" "min_entry t3 = min_entry t2"
    "node t3 7 = node t2 7"
    using insert_step_chain [OF t2(2), of 3 key] t2(3) by auto
  obtain t4 where t4: "insert_step key 4 (place_of t3 4 (key div span 4), t3) = (place_of t4 5 (key div span 5), t4)"
    "trie_wf t4" "node t4 4 (key div span 4) \<noteq> 0" "next_entry t4 = next_entry t3" "min_entry t4 = min_entry t3"
    "node t4 7 = node t3 7"
    using insert_step_chain [OF t3(2), of 4 key] t3(3) by auto
  obtain t5 where t5: "insert_step key 5 (place_of t4 5 (key div span 5), t4) = (place_of t5 6 (key div span 6), t5)"
    "trie_wf t5" "node t5 5 (key div span 5) \<noteq> 0" "next_entry t5 = next_entry t4" "min_entry t5 = min_entry t4"
    "node t5 7 = node t4 7"
    using insert_step_chain [OF t4(2), of 5 key] t4(3) by auto
  obtain t6 where t6: "insert_step key 6 (place_of t5 6 (key div span 6), t5) = (place_of t6 7 (key div span 7), t6)"
    "trie_wf t6" "node t6 6 (key div span 6) \<noteq> 0" "next_entry t6 = next_entry t5" "min_entry t6 = min_entry t5"
    "node t6 7 = node t5 7"
    using insert_step_chain [OF t5(2), of 6 key] t5(3) by auto
  have pl: "place_of t6 7 (key div span 7) = PCell (node t6 6 (key div 1024)) (key mod 1024)"
    by (simp add: place_of_def)
  have bump: "(if next_entry t \<le> key then do { n \<leftarrow> u64_add key 1; Some (t\<lparr>next_entry := n\<rparr>) } else Some t) = Some t0"
    using key by (simp add: t0_def u64_add_def)
  have "prep_append_at t key = Some (PCell (node t6 6 (key div 1024)) (key mod 1024), t6)"
    unfolding prep_append_at_def bump by (simp only: bind.bind_lunit Let_def r t1(1) t2(1) t3(1) t4(1) t5(1) t6(1) pl)
  moreover have "key div span 6 = key div 1024" by (simp add: span_def)
  ultimately show ?thesis using that t0 t1 t2 t3 t4 t5 t6 by metis
qed

text \<open>A replica writes entries where its primary tells it to, in any order.\<close>

fun insert_all :: "trie \<Rightarrow> (u64 \<times> val_edge) list \<Rightarrow> trie option" where
  "insert_all t [] = Some t"
| "insert_all t ((k, v) # kvs) = do {
     (pl, t') \<leftarrow> prep_append_at t k;
     insert_all (write_place t' pl v) kvs
   }"

lemma insert_one:
  assumes wf: "trie_wf t" and key: "key < u64_max"
  obtains pl t' where "prep_append_at t key = Some (pl, t')" "trie_wf (write_place t' pl v)"
    "node (write_place t' pl v) 7 = (node t 7)(key := v)"
    "next_entry (write_place t' pl v) = max (next_entry t) (Suc key)"
proof -
  obtain t' where t': "prep_append_at t key = Some (PCell (node t' 6 (key div 1024)) (key mod 1024), t')"
    "trie_wf t'" "node t' 6 (key div 1024) \<noteq> 0" "node t' 7 = node t 7"
    "next_entry t' = max (next_entry t) (Suc key)" using prep_append_at_node [OF wf key] .
  let ?t = "write_seg t' (node t' 6 (key div 1024), key mod 1024) v"
  note w = node_write_value [OF t'(2) refl t'(3), of "key mod 1024"]
  have "node ?t 7 = (node t 7)(key := v)" using w(2) t'(4) by (simp add: fun_eq_iff)
  moreover have "fresh_seg ?t = fresh_seg t'" "next_entry ?t = next_entry t'" by (simp_all add: write_seg_def)
  moreover have "trie_wf ?t"
    using t'(2) w(1) \<open>fresh_seg ?t = fresh_seg t'\<close> unfolding trie_wf_def by (metis mod_less_divisor zero_less_numeral)
  ultimately show ?thesis using that [OF t'(1)] t'(5) by simp
qed

lemma insert_all_node:
  "trie_wf t \<Longrightarrow> \<forall>(k, v) \<in> set kvs. k < u64_max \<Longrightarrow>
   \<exists>t'. insert_all t kvs = Some t' \<and> node t' 7 = foldl (\<lambda>m (k, v). m(k := v)) (node t 7) kvs"
proof (induction kvs arbitrary: t)
  case (Cons kv kvs)
  obtain k v where kv: "kv = (k, v)" by (cases kv)
  then obtain pl t1 where t1: "prep_append_at t k = Some (pl, t1)" "trie_wf (write_place t1 pl v)"
    "node (write_place t1 pl v) 7 = (node t 7)(k := v)"
    using insert_one [OF Cons.prems(1), of k v] Cons.prems(2) by (metis case_prodD list.set_intros(1))
  then show ?case using Cons.IH [OF t1(2)] Cons.prems(2) kv by auto
qed simp

lemma foldl_upd_map_of:
  "foldl (\<lambda>m (k, v). m(k := v)) m kvs k = (case map_of (rev kvs) k of None \<Rightarrow> m k | Some v \<Rightarrow> v)"
  by (induction kvs arbitrary: m) (auto simp: map_add_def split: option.splits)

text \<open>C29: a replica's trie is a map: after any sequence of inserts at given indices into a new trie,
  \<open>get\<close> returns for every index the last value inserted there, whatever the order of the indices.\<close>

theorem trie_insert_get:
  assumes "\<forall>(k, v) \<in> set kvs. k < u64_max \<and> val_ptr v \<noteq> 0"
  shows "\<exists>t. insert_all trie_new kvs = Some t \<and> (\<forall>k < 2 ^ 64. trie_get t k = map_of (rev kvs) k)"
proof -
  have "trie_wf trie_new" using mid_appendD(1) trie_new_appended unfolding appended_def by blast
  then obtain t where t: "insert_all trie_new kvs = Some t"
    "node t 7 = foldl (\<lambda>m (k, v). m(k := v)) (node trie_new 7) kvs"
    using insert_all_node assms by fastforce
  have "trie_get t k = map_of (rev kvs) k" if "k < 2 ^ 64" for k
  proof (cases "map_of (rev kvs) k")
    case None
    then show ?thesis using trie_get_node [OF that, of t] t(2) by (simp add: foldl_upd_map_of val_ptr_def)
  next
    case (Some v)
    then have "val_ptr v \<noteq> 0" using assms map_of_SomeD [OF Some] by auto
    then show ?thesis using Some trie_get_node [OF that, of t] t(2) by (simp add: foldl_upd_map_of)
  qed
  then show ?thesis using t(1) by blast
qed

theorem trie_insert_get_witness:
  "\<exists>t. insert_all trie_new [(5000, 32), (3, 16), (5000, 48)] = Some t \<and>
     trie_get t 5000 = Some 48 \<and> trie_get t 3 = Some 16 \<and> trie_get t 4 = None"
proof -
  have "\<forall>(k, v) \<in> set [(5000, 32), (3, 16), (5000, 48)]. k < u64_max \<and> val_ptr v \<noteq> 0"
    by (simp add: u64_max_def val_ptr_def)
  from trie_insert_get [OF this] obtain t where
    "insert_all trie_new [(5000, 32), (3, 16), (5000, 48)] = Some t"
    "\<forall>k < 2 ^ 64. trie_get t k = map_of (rev [(5000, 32), (3, 16), (5000, 48)]) k" by blast
  then show ?thesis by (intro exI [of _ t]) simp
qed

end
