(* ===== verification/Packet_Codec.thy ===== *)
theory Packet_Codec
  imports Prelude "HOL-Library.Word"
begin

text \<open>
  The wire format that \<^verbatim>\<open>define_packet!\<close> (\<^verbatim>\<open>packet-macro2/packet-macro-impl/src/lib.rs\<close>) generates
  for an enum of packets. The procedural macro turns a schema into code; here the schema is data and
  the generated functions \<open>try_ref\<close>, \<open>fill_vec\<close>, \<open>len\<close> and \<open>min_len\<close> are functions of it, together with
  the loop of \<open>Entry::wrap_bytes\<close> (\<^verbatim>\<open>fuzzy_log_packets/src/lib.rs\<close>) that finds out how long the packet
  behind a pointer is. A field is the byte string it occupies; a counter is a little-endian number.
\<close>

section \<open>Schemas and values\<close>

type_synonym byte = "8 word"

text \<open>\<open>Ty\<close>: a type of known size, or an array whose length is in an earlier field.\<close>

datatype field_ty = Fixed nat | VarArray nat string

type_synonym field = "string \<times> field_ty"

datatype fval = FBytes "byte list" | FArr "byte list list"

datatype wrap_err = BadTag | NotEnoughBytes nat

type_synonym variant = "byte \<times> field list"

fun le_bytes :: "nat \<Rightarrow> nat \<Rightarrow> byte list" where
  "le_bytes 0 x = []"
| "le_bytes (Suc n) x = word_of_nat x # le_bytes n (x div 256)"

fun le_nat :: "byte list \<Rightarrow> nat" where
  "le_nat [] = 0"
| "le_nat (b # bs) = unat b + 256 * le_nat bs"

fun fval_bytes :: "fval \<Rightarrow> byte list" where
  "fval_bytes (FBytes b) = b"
| "fval_bytes (FArr xs) = concat xs"

fun fval_count :: "fval \<Rightarrow> nat" where
  "fval_count (FBytes b) = length b"
| "fval_count (FArr xs) = length xs"

definition is_size_var :: "field list \<Rightarrow> string \<Rightarrow> bool" where
  "is_size_var fs n \<longleftrightarrow> list_ex (\<lambda>f. case snd f of VarArray _ c \<Rightarrow> c = n | Fixed _ \<Rightarrow> False) fs"

section \<open>Writing\<close>

text \<open>The counters: a map from a size field to an array it counts; of several arrays the last one.\<close>

definition counters :: "field list \<Rightarrow> (string \<times> fval) list \<Rightarrow> string \<Rightarrow> nat" where
  "counters fs vals c =
     fold (\<lambda>f acc. case snd f of
         VarArray _ c' \<Rightarrow> (if c' = c then (case map_of vals (fst f) of Some v \<Rightarrow> fval_count v | None \<Rightarrow> 0) else acc)
       | Fixed _ \<Rightarrow> acc) fs 0"

definition fill_field :: "field list \<Rightarrow> (string \<times> fval) list \<Rightarrow> field \<Rightarrow> byte list" where
  "fill_field fs vals f =
     (case snd f of
        Fixed n \<Rightarrow>
          if is_size_var fs (fst f) then le_bytes n (counters fs vals (fst f))
          else (case map_of vals (fst f) of Some v \<Rightarrow> take n (fval_bytes v) | None \<Rightarrow> [])
      | VarArray es c \<Rightarrow>
          (case map_of vals (fst f) of
             Some v \<Rightarrow> take (es * counters fs vals c) (fval_bytes v) | None \<Rightarrow> []))"

definition fill_vec :: "variant \<Rightarrow> (string \<times> fval) list \<Rightarrow> byte list" where
  "fill_vec v vals = fst v # concat (map (fill_field (snd v) vals) (snd v))"

text \<open>
  \<open>write_to\<close> runs the same code over a \<open>__SliceVec\<close>, a cursor into a slice the caller gives:
  \<open>extend_from_slice\<close> copies into the range behind the cursor and panics when the slice is too short.
\<close>

record slice_vec =
  sv_data :: "byte list"
  sv_len :: nat

definition sv_extend_from_slice :: "slice_vec \<Rightarrow> byte list \<Rightarrow> slice_vec option" where
  "sv_extend_from_slice sv bs =
     (if sv_len sv + length bs \<le> length (sv_data sv)
      then Some \<lparr> sv_data = take (sv_len sv) (sv_data sv) @ bs @ drop (sv_len sv + length bs) (sv_data sv),
                  sv_len = sv_len sv + length bs \<rparr>
      else None)"

fun write_fields :: "field list \<Rightarrow> (string \<times> fval) list \<Rightarrow> field list \<Rightarrow> slice_vec \<Rightarrow> slice_vec option" where
  "write_fields fs vals [] sv = Some sv"
| "write_fields fs vals (f # qs) sv = do {
     sv \<leftarrow> sv_extend_from_slice sv (fill_field fs vals f);
     write_fields fs vals qs sv
   }"

definition write_to :: "variant \<Rightarrow> (string \<times> fval) list \<Rightarrow> byte list \<Rightarrow> byte list option" where
  "write_to v vals bytes = do {
     sv \<leftarrow> sv_extend_from_slice \<lparr> sv_data = bytes, sv_len = 0 \<rparr> [fst v];
     sv \<leftarrow> write_fields (snd v) vals (snd v) sv;
     Some (sv_data sv)
   }"

text \<open>\<open>Var::try_var\<close>: which variant the tag announces; the first one when there is no tag or a bad one.\<close>

definition try_var :: "variant list \<Rightarrow> byte list \<Rightarrow> variant" where
  "try_var vs bytes =
     (case bytes of [] \<Rightarrow> hd vs
      | tag # _ \<Rightarrow> (case List.find (\<lambda>v. fst v = tag) vs of Some v \<Rightarrow> v | None \<Rightarrow> hd vs))"

definition field_size :: "field list \<Rightarrow> (string \<times> fval) list \<Rightarrow> field \<Rightarrow> nat" where
  "field_size fs vals f =
     (case snd f of Fixed n \<Rightarrow> n | VarArray es c \<Rightarrow> es * counters fs vals c)"

definition packet_len :: "variant \<Rightarrow> (string \<times> fval) list \<Rightarrow> nat" where
  "packet_len v vals = 1 + sum_list (map (field_size (snd v) vals) (snd v))"

definition field_min_size :: "field \<Rightarrow> nat" where
  "field_min_size f = (case snd f of Fixed n \<Rightarrow> n | VarArray _ _ \<Rightarrow> 0)"

definition min_len :: "variant list \<Rightarrow> nat" where
  "min_len vs = fold min (map (\<lambda>v. 1 + sum_list (map field_min_size (snd v))) vs) (2 ^ 64 - 1)"

section \<open>Reading\<close>

text \<open>
  One field: on success the environment and the bytes that are left; \<open>Inl ()\<close> is the \<open>break\<close> on too
  few bytes. The outer \<open>option\<close> is the \<open>unwrap\<close> of a counter that has not been read.
\<close>

definition try_wrap_field ::
  "field \<Rightarrow> (string \<times> fval) list \<Rightarrow> byte list \<Rightarrow> (unit + (string \<times> fval) list \<times> byte list) option" where
  "try_wrap_field f env bytes =
     (case snd f of
        Fixed n \<Rightarrow>
          Some (if length bytes < n then Inl ()
                else Inr (env @ [(fst f, FBytes (take n bytes))], drop n bytes))
      | VarArray es c \<Rightarrow> do {
          cv \<leftarrow> map_of env c;
          let count = le_nat (fval_bytes cv);
          Some (if length bytes < es * count then Inl ()
                else Inr (env @ [(fst f, FArr (map (\<lambda>i. take es (drop (es * i) bytes)) [0..<count]))],
                          drop (es * count) bytes))
        })"

fun try_wrap_fields ::
  "field list \<Rightarrow> (string \<times> fval) list \<Rightarrow> byte list \<Rightarrow>
   (bool \<times> (string \<times> fval) list \<times> byte list) option" where
  "try_wrap_fields [] env bytes = Some (False, env, bytes)"
| "try_wrap_fields (f # fs) env bytes =
     (case try_wrap_field f env bytes of
        None \<Rightarrow> None
      | Some (Inl ()) \<Rightarrow> Some (True, env, bytes)
      | Some (Inr (env', bytes')) \<Rightarrow> try_wrap_fields fs env' bytes')"

definition field_err_size :: "(string \<times> fval) list \<Rightarrow> field \<Rightarrow> nat" where
  "field_err_size env f =
     (case snd f of
        Fixed n \<Rightarrow> n
      | VarArray es c \<Rightarrow> es * (case map_of env c of Some cv \<Rightarrow> le_nat (fval_bytes cv) | None \<Rightarrow> 0))"

definition try_wrap_body ::
  "field list \<Rightarrow> byte list \<Rightarrow> (wrap_err + (string \<times> fval) list \<times> byte list) option" where
  "try_wrap_body fs bytes = do {
     (broke, env, rest) \<leftarrow> try_wrap_fields fs [] bytes;
     Some (if broke then Inl (NotEnoughBytes (1 + sum_list (map (field_err_size env) fs)))
           else Inr (filter (\<lambda>(n, _). \<not> is_size_var fs n) env, rest))
   }"

text \<open>The variants are tried in order; the result carries the tag of the variant that matched.\<close>

definition try_ref ::
  "variant list \<Rightarrow> byte list \<Rightarrow> (wrap_err + variant \<times> (string \<times> fval) list \<times> byte list) option" where
  "try_ref vs bytes =
     (case bytes of
        [] \<Rightarrow> Some (Inl (NotEnoughBytes (min_len vs)))
      | tag # rest \<Rightarrow>
          (case List.find (\<lambda>v. fst v = tag) vs of
             None \<Rightarrow> Some (Inl BadTag)
           | Some v \<Rightarrow> do {
               r \<leftarrow> try_wrap_body (snd v) rest;
               Some (case r of Inl e \<Rightarrow> Inl e | Inr (vals, rest') \<Rightarrow> Inr (v, vals, rest'))
             }))"

text \<open>
  \<open>Entry::wrap_bytes\<close> over the memory behind a pointer: retry with the size the last attempt asked for.
  \<open>Inl ()\<close> is fuel running out.
\<close>

fun wrap_bytes_loop ::
  "variant list \<Rightarrow> (nat \<Rightarrow> byte) \<Rightarrow> nat \<Rightarrow> nat \<Rightarrow> (unit + byte list) option" where
  "wrap_bytes_loop vs mem 0 sz = Some (Inl ())"
| "wrap_bytes_loop vs mem (Suc fuel) sz =
     (let slice = map mem [0..<sz] in
      case try_ref vs slice of
        None \<Rightarrow> None
      | Some (Inl BadTag) \<Rightarrow> None
      | Some (Inl (NotEnoughBytes n)) \<Rightarrow> wrap_bytes_loop vs mem fuel n
      | Some (Inr (v, vals, rest)) \<Rightarrow> do {
          rust_assert (length slice = packet_len v vals);
          Some (Inr slice)
        })"

definition wrap_bytes :: "variant list \<Rightarrow> (nat \<Rightarrow> byte) \<Rightarrow> nat \<Rightarrow> (unit + byte list) option" where
  "wrap_bytes vs mem fuel = wrap_bytes_loop vs mem fuel (min_len vs)"

section \<open>Well-formed schemas and values\<close>

fun counts_ok :: "string list \<Rightarrow> field list \<Rightarrow> bool" where
  "counts_ok seen [] \<longleftrightarrow> True"
| "counts_ok seen ((n, Fixed _) # fs) \<longleftrightarrow> counts_ok (n # seen) fs"
| "counts_ok seen ((n, VarArray _ c) # fs) \<longleftrightarrow> c \<in> set seen \<and> counts_ok (n # seen) fs"

text \<open>What the macro takes: names differ, a counter is a scalar and stands before its arrays.\<close>

definition schema_ok :: "field list \<Rightarrow> bool" where
  "schema_ok fs \<longleftrightarrow> distinct (map fst fs) \<and> counts_ok [] fs \<and>
     list_all (\<lambda>f. is_size_var fs (fst f) \<longrightarrow> (case snd f of Fixed _ \<Rightarrow> True | VarArray _ _ \<Rightarrow> False)) fs"

definition field_ok :: "field list \<Rightarrow> (string \<times> fval) list \<Rightarrow> field \<Rightarrow> bool" where
  "field_ok fs vals f =
     (if is_size_var fs (fst f)
      then (case snd f of Fixed w \<Rightarrow> counters fs vals (fst f) < 256 ^ w | VarArray _ _ \<Rightarrow> False)
      else (case snd f of
              Fixed n \<Rightarrow>
                (case map_of vals (fst f) of Some (FBytes b) \<Rightarrow> length b = n | _ \<Rightarrow> False)
            | VarArray es c \<Rightarrow>
                (case map_of vals (fst f) of
                   Some (FArr xs) \<Rightarrow> list_all (\<lambda>x. length x = es) xs \<and> length xs = counters fs vals c
                 | _ \<Rightarrow> False)))"

text \<open>A value of every field but the counters, of the right size; arrays that share a counter agree
  on it and their length fits its width.\<close>

definition vals_ok :: "field list \<Rightarrow> (string \<times> fval) list \<Rightarrow> bool" where
  "vals_ok fs vals \<longleftrightarrow> map fst vals = filter (\<lambda>n. \<not> is_size_var fs n) (map fst fs) \<and>
     list_all (field_ok fs vals) fs"

lemma le_bytes_length [simp]: "length (le_bytes n x) = n"
  by (induction n arbitrary: x) auto

lemma le_nat_le_bytes: "le_nat (le_bytes n x) = x mod 256 ^ n"
proof (induction n arbitrary: x)
  case (Suc n)
  have "x mod 256 ^ Suc n = x mod 256 + 256 * (x div 256 mod 256 ^ n)"
    by (simp add: mod_mult2_eq)
  then show ?case using Suc by (simp add: unat_of_nat)
qed simp

definition full_val :: "field list \<Rightarrow> (string \<times> fval) list \<Rightarrow> field \<Rightarrow> string \<times> fval" where
  "full_val fs vals f = (fst f,
     if is_size_var fs (fst f) then FBytes (fill_field fs vals f) else the (map_of vals (fst f)))"

lemma concat_chunk:
  "list_all (\<lambda>x. length x = es) xs \<Longrightarrow> i < length xs \<Longrightarrow>
   take es (drop (es * i) (concat xs @ rest)) = xs ! i"
proof (induction xs arbitrary: i)
  case (Cons x xs)
  show ?case
  proof (cases i)
    case 0
    then show ?thesis using Cons.prems(1) by simp
  next
    case (Suc j)
    have "drop (es * i) (concat (x # xs) @ rest) = drop (es * j) (drop es (x @ concat xs @ rest))"
      by (simp add: Suc add.commute del: drop_append)
    also have "drop es (x @ concat xs @ rest) = concat xs @ rest" using Cons.prems(1) by simp
    finally show ?thesis using Cons Suc by simp
  qed
qed simp

lemma chunk_concat:
  assumes "list_all (\<lambda>x. length x = es) xs"
  shows "map (\<lambda>i. take es (drop (es * i) (concat xs @ rest))) [0..<length xs] = xs"
    "length (concat xs) = es * length xs"
proof -
  show "length (concat xs) = es * length xs" using assms by (induction xs) auto
  show "map (\<lambda>i. take es (drop (es * i) (concat xs @ rest))) [0..<length xs] = xs"
    by (rule nth_equalityI) (simp_all only: length_map length_upt nth_map nth_upt add_0 diff_zero
        concat_chunk [OF assms])
qed

lemma fill_field_size:
  assumes "field_ok fs vals f"
  shows "length (fill_field fs vals f) = field_size fs vals f"
  using assms
  by (auto simp: fill_field_def field_size_def field_ok_def chunk_concat(2)
      split: field_ty.splits option.splits fval.splits if_splits)

lemma try_wrap_field_ok:
  assumes ok: "field_ok fs vals f"
    and count: "\<And>es c. snd f = VarArray es c \<Longrightarrow>
      \<exists>cv. map_of env c = Some cv \<and> le_nat (fval_bytes cv) = counters fs vals c"
  shows "try_wrap_field f env (fill_field fs vals f @ rest) = Some (Inr (env @ [full_val fs vals f], rest))"
proof (cases "snd f")
  case (Fixed n)
  show ?thesis
  proof (cases "is_size_var fs (fst f)")
    case True
    then show ?thesis using Fixed by (simp add: try_wrap_field_def fill_field_def full_val_def)
  next
    case False
    then obtain b where "map_of vals (fst f) = Some (FBytes b)" "length b = n"
      using ok Fixed by (auto simp: field_ok_def split: option.splits fval.splits)
    then show ?thesis using Fixed False by (simp add: try_wrap_field_def fill_field_def full_val_def)
  qed
next
  case (VarArray es c)
  then obtain xs where xs: "map_of vals (fst f) = Some (FArr xs)" "list_all (\<lambda>x. length x = es) xs"
    "length xs = counters fs vals c" and ns: "\<not> is_size_var fs (fst f)"
    using ok by (auto simp: field_ok_def split: option.splits fval.splits if_splits)
  obtain cv where cv: "map_of env c = Some cv" "le_nat (fval_bytes cv) = length xs"
    using count [OF VarArray] xs(3) by auto
  have "fill_field fs vals f = concat xs"
    using VarArray xs by (simp add: fill_field_def chunk_concat(2))
  moreover have "map (\<lambda>i. take es (drop (es * i) (concat xs @ rest))) [0..<length xs] = xs"
    "length (concat xs) = es * length xs" using chunk_concat [OF xs(2)] by blast+
  ultimately show ?thesis
    using VarArray cv ns xs(1) unfolding try_wrap_field_def full_val_def by simp
qed

lemma try_wrap_field_short:
  assumes "length bytes < field_size fs vals f"
    and "\<And>es c. snd f = VarArray es c \<Longrightarrow>
      \<exists>cv. map_of env c = Some cv \<and> le_nat (fval_bytes cv) = counters fs vals c"
  shows "try_wrap_field f env bytes = Some (Inl ())"
  using assms by (fastforce simp: try_wrap_field_def field_size_def split: field_ty.splits)

lemma counts_ok_seen:
  "counts_ok seen (ps @ (n, VarArray es c) # qs) \<Longrightarrow> c \<in> set seen \<union> fst ` set ps"
proof (induction ps arbitrary: seen)
  case (Cons p ps)
  then show ?case using Cons.IH [of "fst p # seen"] by (cases p; cases "snd p") auto
qed simp

lemma counter_read:
  assumes "schema_ok fs" "vals_ok fs vals" "fs = ps @ qs" "c \<in> fst ` set ps" "is_size_var fs c"
  shows "\<exists>cv. map_of (map (full_val fs vals) ps) c = Some cv \<and> le_nat (fval_bytes cv) = counters fs vals c"
proof -
  obtain t where t: "(c, t) \<in> set ps" using assms(4) by force
  then have mem: "(c, t) \<in> set fs" using assms(3) by simp
  obtain w where w: "t = Fixed w"
    using assms(1,5) mem by (cases t) (auto simp: schema_ok_def list_all_iff)
  have "counters fs vals c < 256 ^ w"
    using assms(2,5) mem w by (auto simp: vals_ok_def list_all_iff field_ok_def)
  then have v: "le_nat (fill_field fs vals (c, t)) = counters fs vals c"
    using assms(5) w by (simp add: fill_field_def le_nat_le_bytes)
  have "distinct (map fst ps)" using assms(1,3) by (simp add: schema_ok_def)
  then have "distinct (map fst (map (full_val fs vals) ps))" by (simp add: full_val_def comp_def)
  moreover have "full_val fs vals (c, t) = (c, FBytes (fill_field fs vals (c, t)))"
    using assms(5) by (simp add: full_val_def)
  then have "(c, FBytes (fill_field fs vals (c, t))) \<in> set (map (full_val fs vals) ps)"
    using imageI [OF t, of "full_val fs vals"] by (simp only: set_map)
  ultimately have "map_of (map (full_val fs vals) ps) c = Some (FBytes (fill_field fs vals (c, t)))"
    by (rule map_of_is_SomeI)
  then show ?thesis using v by simp
qed

lemma counter_known:
  assumes "schema_ok fs" "vals_ok fs vals" "fs = ps @ (n, VarArray es c) # qs"
  shows "\<exists>cv. map_of (map (full_val fs vals) ps) c = Some cv \<and> le_nat (fval_bytes cv) = counters fs vals c"
proof (rule counter_read [OF assms(1,2,3)])
  show "c \<in> fst ` set ps"
    using assms(1,3) counts_ok_seen [of "[]" ps n es c qs] by (simp add: schema_ok_def)
  show "is_size_var fs c" using assms(3) by (simp add: is_size_var_def)
qed

section \<open>Reading what was written\<close>

definition body_bytes :: "field list \<Rightarrow> (string \<times> fval) list \<Rightarrow> field list \<Rightarrow> byte list" where
  "body_bytes fs vals qs = concat (map (fill_field fs vals) qs)"

lemma body_bytes_simps [simp]:
  "body_bytes fs vals [] = []"
  "body_bytes fs vals (f # qs) = fill_field fs vals f @ body_bytes fs vals qs"
  by (simp_all add: body_bytes_def)

lemma try_wrap_fields_ok:
  assumes "schema_ok fs" "vals_ok fs vals" "fs = ps @ qs"
  shows "try_wrap_fields qs (map (full_val fs vals) ps) (body_bytes fs vals qs @ rest) =
    Some (False, map (full_val fs vals) fs, rest)"
  using assms(3)
proof (induction qs arbitrary: ps)
  case (Cons f qs)
  have ok: "field_ok fs vals f" using assms(2) Cons.prems by (simp add: vals_ok_def)
  have count: "\<exists>cv. map_of (map (full_val fs vals) ps) c = Some cv \<and> le_nat (fval_bytes cv) = counters fs vals c"
    if "snd f = VarArray es c" for es c
    using counter_known [OF assms(1,2), of ps "fst f" es c qs] Cons.prems that by (cases f) simp
  have "try_wrap_fields qs (map (full_val fs vals) (ps @ [f])) (body_bytes fs vals qs @ rest) =
      Some (False, map (full_val fs vals) fs, rest)"
    using Cons.IH [of "ps @ [f]"] Cons.prems by simp
  moreover have "try_wrap_field f (map (full_val fs vals) ps)
      (fill_field fs vals f @ body_bytes fs vals qs @ rest) =
      Some (Inr (map (full_val fs vals) ps @ [full_val fs vals f], body_bytes fs vals qs @ rest))"
    by (rule try_wrap_field_ok [OF ok]) (rule count)
  ultimately show ?case by simp
qed simp

lemma map_of_self:
  assumes "distinct (map fst vals)"
  shows "map (\<lambda>n. (n, the (map_of vals n))) (map fst vals) = vals"
proof -
  have "(fst p, the (map_of vals (fst p))) = p" if "p \<in> set vals" for p
    using map_of_is_SomeI [OF assms, of "fst p" "snd p"] that by simp
  then have "map (\<lambda>p. (fst p, the (map_of vals (fst p)))) vals = vals" by (rule map_idI)
  then show ?thesis by (simp add: comp_def)
qed

lemma full_vals_filter:
  assumes "schema_ok fs" "vals_ok fs vals"
  shows "filter (\<lambda>(n, _). \<not> is_size_var fs n) (map (full_val fs vals) fs) = vals"
proof -
  have names: "map fst vals = filter (\<lambda>n. \<not> is_size_var fs n) (map fst fs)"
    using assms(2) by (simp add: vals_ok_def)
  have "filter (\<lambda>(n, _). \<not> is_size_var fs n) (map (full_val fs vals) qs) =
      map (\<lambda>n. (n, the (map_of vals n))) (filter (\<lambda>n. \<not> is_size_var fs n) (map fst qs))" for qs
    by (induction qs) (auto simp: full_val_def)
  then have "filter (\<lambda>(n, _). \<not> is_size_var fs n) (map (full_val fs vals) fs) =
      map (\<lambda>n. (n, the (map_of vals n))) (map fst vals)" unfolding names .
  also have "distinct (map fst vals)" using assms(1) unfolding names by (simp add: schema_ok_def)
  then have "map (\<lambda>n. (n, the (map_of vals n))) (map fst vals) = vals" by (rule map_of_self)
  finally show ?thesis .
qed

lemma body_bytes_length:
  "list_all (field_ok fs vals) qs \<Longrightarrow>
   length (body_bytes fs vals qs) = sum_list (map (field_size fs vals) qs)"
  by (induction qs) (simp_all add: fill_field_size)

lemma fill_vec_length:
  "vals_ok (snd v) vals \<Longrightarrow> length (fill_vec v vals) = packet_len v vals"
  using body_bytes_length [of "snd v" vals "snd v"]
  by (simp add: fill_vec_def packet_len_def vals_ok_def body_bytes_def)

definition packet_schema_ok :: "variant list \<Rightarrow> bool" where
  "packet_schema_ok vs \<longleftrightarrow> distinct (map fst vs) \<and> list_all (\<lambda>v. schema_ok (snd v)) vs"

lemma find_variant:
  "distinct (map fst vs) \<Longrightarrow> v \<in> set vs \<Longrightarrow> List.find (\<lambda>v'. fst v' = fst v) vs = Some v"
  by (induction vs) (auto simp: image_iff)

lemma codec_read:
  assumes "packet_schema_ok vs" "v \<in> set vs" "vals_ok (snd v) vals"
  shows "try_ref vs (fill_vec v vals @ rest) = Some (Inr (v, vals, rest))"
proof -
  have sc: "schema_ok (snd v)" "distinct (map fst vs)"
    using assms(1,2) unfolding packet_schema_ok_def list_all_iff by blast+
  have "try_wrap_fields (snd v) [] (body_bytes (snd v) vals (snd v) @ rest) =
      Some (False, map (full_val (snd v) vals) (snd v), rest)"
    using try_wrap_fields_ok [OF sc(1) assms(3), of "[]" "snd v"] by simp
  then have "try_wrap_body (snd v) (body_bytes (snd v) vals (snd v) @ rest) = Some (Inr (vals, rest))"
    using full_vals_filter [OF sc(1) assms(3)] by (simp add: try_wrap_body_def)
  moreover have "fill_vec v vals @ rest = fst v # body_bytes (snd v) vals (snd v) @ rest"
    by (simp add: fill_vec_def body_bytes_def)
  ultimately show ?thesis
    using find_variant [OF sc(2) assms(2)] by (simp add: try_ref_def)
qed

text \<open>A schema to try the codec on: a tag, a counter and an array of two-byte items.\<close>

definition demo_variant :: variant where
  "demo_variant = (1, [(''n'', Fixed 1), (''xs'', VarArray 2 ''n'')])"

definition demo_vals :: "(string \<times> fval) list" where
  "demo_vals = [(''xs'', FArr [[1, 2], [3, 4]])]"

lemma demo_ok: "packet_schema_ok [demo_variant]" "vals_ok (snd demo_variant) demo_vals"
  by (simp_all add: packet_schema_ok_def schema_ok_def demo_variant_def demo_vals_def is_size_var_def vals_ok_def
      field_ok_def counters_def)

lemma demo_bytes: "fill_vec demo_variant demo_vals = [1, 2, 1, 2, 3, 4]" "packet_len demo_variant demo_vals = 6"
  by (simp_all add: demo_variant_def demo_vals_def fill_vec_def fill_field_def counters_def is_size_var_def
      packet_len_def field_size_def)

text \<open>C33: what \<open>fill_vec\<close> writes \<open>try_ref\<close> reads back: the same variant with the same fields, and exactly
  the packet's bytes are consumed. The packet occupies \<open>len\<close> bytes.\<close>

theorem codec_roundtrip:
  assumes "packet_schema_ok vs" "v \<in> set vs" "vals_ok (snd v) vals"
  shows "try_ref vs (fill_vec v vals @ rest) = Some (Inr (v, vals, rest)) \<and>
    length (fill_vec v vals) = packet_len v vals"
  using codec_read [OF assms] fill_vec_length [OF assms(3)] by simp

theorem codec_roundtrip_witness:
  "try_ref [demo_variant] (fill_vec demo_variant demo_vals @ [9]) = Some (Inr (demo_variant, demo_vals, [9])) \<and>
   length (fill_vec demo_variant demo_vals) = packet_len demo_variant demo_vals"
  by (rule codec_roundtrip) (simp_all add: demo_ok)

section \<open>Packets of which only a part is there\<close>

lemma err_size_le:
  assumes "schema_ok fs" "vals_ok fs vals" "fs = ps @ qs" "f \<in> set fs"
  shows "field_err_size (map (full_val fs vals) ps) f \<le> field_size fs vals f"
proof (cases "snd f")
  case (VarArray es c)
  have sv: "is_size_var fs c" using assms(4) VarArray by (force simp: is_size_var_def list_ex_iff)
  show ?thesis
  proof (cases "map_of (map (full_val fs vals) ps) c")
    case (Some cv)
    then have "c \<in> fst ` set (map (full_val fs vals) ps)" by (meson domI domIff map_of_eq_None_iff)
    then have "c \<in> fst ` set ps" by (simp add: full_val_def image_image)
    from counter_read [OF assms(1-3) this sv] Some VarArray show ?thesis
      by (simp add: field_err_size_def field_size_def)
  qed (simp add: VarArray field_err_size_def field_size_def)
qed (simp add: field_err_size_def field_size_def)

lemma err_size_read:
  assumes "schema_ok fs" "vals_ok fs vals" "fs = ps @ qs" "ps = as @ f # bs \<or> (ps = as \<and> qs = f # bs)"
  shows "field_err_size (map (full_val fs vals) ps) f = field_size fs vals f"
proof (cases "snd f")
  case (VarArray es c)
  obtain cs where fs: "fs = as @ (fst f, VarArray es c) # cs" and sub: "set as \<subseteq> set ps"
    using assms(3,4) VarArray by (cases f) (elim disjE; fastforce)
  then have "c \<in> fst ` set as"
    using assms(1) counts_ok_seen [of "[]" as "fst f" es c cs] by (simp add: schema_ok_def)
  then have "c \<in> fst ` set ps" using sub by blast
  moreover have "is_size_var fs c" using fs by (simp add: is_size_var_def)
  ultimately show ?thesis using counter_read [OF assms(1-3), of c] VarArray
    by (auto simp: field_err_size_def field_size_def)
qed (simp add: field_err_size_def field_size_def)

lemma try_wrap_fields_short:
  assumes "schema_ok fs" "vals_ok fs vals" "fs = ps @ qs"
    and "m < sum_list (map (field_size fs vals) qs)"
  shows "\<exists>ps' f qs' bs. fs = ps @ ps' @ f # qs' \<and> m < sum_list (map (field_size fs vals) (ps' @ [f])) \<and>
    try_wrap_fields qs (map (full_val fs vals) ps) (take m (body_bytes fs vals qs)) =
      Some (True, map (full_val fs vals) (ps @ ps'), bs)"
  using assms(3,4)
proof (induction qs arbitrary: ps m)
  case (Cons f qs)
  have ok: "field_ok fs vals f" using assms(2) Cons.prems by (simp add: vals_ok_def)
  have count: "\<exists>cv. map_of (map (full_val fs vals) ps) c = Some cv \<and> le_nat (fval_bytes cv) = counters fs vals c"
    if "snd f = VarArray es c" for es c
    using counter_known [OF assms(1,2), of ps "fst f" es c qs] Cons.prems that by (cases f) simp
  show ?case
  proof (cases "m < field_size fs vals f")
    case True
    then have "try_wrap_field f (map (full_val fs vals) ps) (take m (body_bytes fs vals (f # qs))) = Some (Inl ())"
      using count by (intro try_wrap_field_short) auto
    then have "try_wrap_fields (f # qs) (map (full_val fs vals) ps) (take m (body_bytes fs vals (f # qs))) =
      Some (True, map (full_val fs vals) (ps @ []), take m (body_bytes fs vals (f # qs)))"
      by (simp only: try_wrap_fields.simps option.case sum.case unit.case append_Nil2)
    moreover have "fs = ps @ [] @ f # qs" "m < sum_list (map (field_size fs vals) ([] @ [f]))"
      using Cons.prems(1) True by simp_all
    ultimately show ?thesis by blast
  next
    case False
    define m' where "m' = m - field_size fs vals f"
    have tk: "take m (body_bytes fs vals (f # qs)) = fill_field fs vals f @ take m' (body_bytes fs vals qs)"
      using False fill_field_size [OF ok] by (simp add: m'_def)
    have "try_wrap_field f (map (full_val fs vals) ps) (take m (body_bytes fs vals (f # qs))) =
      Some (Inr (map (full_val fs vals) ps @ [full_val fs vals f], take m' (body_bytes fs vals qs)))"
      unfolding tk by (rule try_wrap_field_ok [OF ok]) (rule count)
    then have step: "try_wrap_fields (f # qs) (map (full_val fs vals) ps) (take m (body_bytes fs vals (f # qs))) =
      try_wrap_fields qs (map (full_val fs vals) (ps @ [f])) (take m' (body_bytes fs vals qs))"
      unfolding try_wrap_fields.simps by (simp del: body_bytes_simps)
    have "m' < sum_list (map (field_size fs vals) qs)" using Cons.prems(2) False by (simp add: m'_def)
    then obtain ps' g qs' bs where ih: "fs = (ps @ [f]) @ ps' @ g # qs'"
      "m' < sum_list (map (field_size fs vals) (ps' @ [g]))"
      "try_wrap_fields qs (map (full_val fs vals) (ps @ [f])) (take m' (body_bytes fs vals qs)) =
        Some (True, map (full_val fs vals) ((ps @ [f]) @ ps'), bs)"
      using Cons.IH [of "ps @ [f]" m'] Cons.prems(1) by auto
    have "m < sum_list (map (field_size fs vals) ((f # ps') @ [g]))"
      using ih(2) False by (simp add: m'_def)
    then show ?thesis using ih(1,3) unfolding step
      by (intro exI [of _ "f # ps'"] exI [of _ g] exI [of _ qs'] exI [of _ bs]) simp
  qed
qed simp

lemma sum_list_mono_map:
  "(\<And>x. x \<in> set xs \<Longrightarrow> f x \<le> (g x :: nat)) \<Longrightarrow> sum_list (map f xs) \<le> sum_list (map g xs)"
  by (induction xs) (auto intro: add_mono)

lemma try_wrap_body_short:
  assumes "schema_ok fs" "vals_ok fs vals" "m < sum_list (map (field_size fs vals) fs)"
  shows "\<exists>k. try_wrap_body fs (take m (body_bytes fs vals fs)) = Some (Inl (NotEnoughBytes k)) \<and>
    Suc m < k \<and> k \<le> 1 + sum_list (map (field_size fs vals) fs)"
proof -
  obtain ps f qs bs where fs: "fs = ps @ f # qs"
    and m: "m < sum_list (map (field_size fs vals) (ps @ [f]))"
    and run: "try_wrap_fields fs [] (take m (body_bytes fs vals fs)) = Some (True, map (full_val fs vals) ps, bs)"
    using try_wrap_fields_short [OF assms(1,2), of "[]" fs m] assms(3) by auto
  let ?e = "field_err_size (map (full_val fs vals) ps)"
  have eq: "?e g = field_size fs vals g" if "g \<in> set (ps @ [f])" for g
  proof (cases "g = f")
    case True
    then show ?thesis using err_size_read [OF assms(1,2) fs, of ps g qs] by simp
  next
    case False
    then have "g \<in> set ps" using that by simp
    then obtain as cs where "ps = as @ g # cs" by (meson split_list)
    then show ?thesis using err_size_read [OF assms(1,2) fs, of as g cs] by simp
  qed
  have "map ?e (ps @ [f]) = map (field_size fs vals) (ps @ [f])" using eq by (intro map_cong) auto
  then have "m < sum_list (map ?e (ps @ [f]))" using m by (simp only:)
  also have "\<dots> \<le> sum_list (map ?e fs)" using fs by simp
  finally have low: "m < sum_list (map ?e fs)" .
  have "sum_list (map ?e fs) \<le> sum_list (map (field_size fs vals) fs)"
    using err_size_le [OF assms(1,2) fs] by (rule sum_list_mono_map)
  then show ?thesis using run low by (simp add: try_wrap_body_def)
qed

lemma fold_min_le: "fold min xs (a :: nat) \<le> a"
proof (induction xs arbitrary: a)
  case (Cons y ys)
  then show ?case using Cons [of "min y a"] by simp
qed simp

lemma fold_min_le_elem: "x \<in> set xs \<Longrightarrow> fold min xs (a :: nat) \<le> x"
proof (induction xs arbitrary: a)
  case (Cons y ys)
  then show ?case using fold_min_le [of ys "min y a"] by auto
qed simp

lemma fold_min_pos: "0 < a \<Longrightarrow> (\<And>x. x \<in> set xs \<Longrightarrow> 0 < x) \<Longrightarrow> 0 < fold min xs (a :: nat)"
  by (induction xs arbitrary: a) auto

lemma min_len_bounds:
  assumes "v \<in> set vs"
  shows "0 < min_len vs" "min_len vs \<le> packet_len v vals"
proof -
  show "0 < min_len vs" unfolding min_len_def by (rule fold_min_pos) auto
  have "min_len vs \<le> 1 + sum_list (map field_min_size (snd v))"
    unfolding min_len_def using assms by (intro fold_min_le_elem) simp
  also have "\<dots> \<le> packet_len v vals"
    unfolding packet_len_def by (intro add_mono sum_list_mono_map) (auto simp: field_min_size_def field_size_def split: field_ty.split)
  finally show "min_len vs \<le> packet_len v vals" .
qed

lemma try_ref_short:
  assumes "packet_schema_ok vs" "v \<in> set vs" "vals_ok (snd v) vals" "m < packet_len v vals"
  shows "\<exists>k. try_ref vs (take m (fill_vec v vals)) = Some (Inl (NotEnoughBytes k)) \<and>
    m < k \<and> k \<le> packet_len v vals"
proof (cases m)
  case 0
  then show ?thesis using min_len_bounds [OF assms(2)] by (simp add: try_ref_def)
next
  case (Suc n)
  have sc: "schema_ok (snd v)" "distinct (map fst vs)"
    using assms(1,2) unfolding packet_schema_ok_def list_all_iff by blast+
  have "n < sum_list (map (field_size (snd v) vals) (snd v))" using assms(4) Suc by (simp add: packet_len_def)
  from try_wrap_body_short [OF sc(1) assms(3) this] obtain k where
    k: "try_wrap_body (snd v) (take n (body_bytes (snd v) vals (snd v))) = Some (Inl (NotEnoughBytes k))"
    "m < k" "k \<le> packet_len v vals" using Suc by (auto simp: packet_len_def)
  have "take m (fill_vec v vals) = fst v # take n (body_bytes (snd v) vals (snd v))"
    by (simp add: Suc fill_vec_def body_bytes_def)
  then show ?thesis using k find_variant [OF sc(2) assms(2)] by (simp add: try_ref_def)
qed

lemma sv_extend_at:
  "length pre = k \<Longrightarrow> sv_extend_from_slice \<lparr> sv_data = pre @ tl', sv_len = k \<rparr> xs =
    (if length xs \<le> length tl' then Some \<lparr> sv_data = (pre @ xs) @ drop (length xs) tl', sv_len = length (pre @ xs) \<rparr> else None)"
  by (simp add: sv_extend_from_slice_def)

lemma write_fields_at:
  "write_fields fs vals qs \<lparr> sv_data = pre @ tl', sv_len = length pre \<rparr> =
    (if length (body_bytes fs vals qs) \<le> length tl'
     then Some \<lparr> sv_data = (pre @ body_bytes fs vals qs) @ drop (length (body_bytes fs vals qs)) tl',
                 sv_len = length (pre @ body_bytes fs vals qs) \<rparr>
     else None)"
proof (induction qs arbitrary: pre tl')
  case (Cons f qs)
  let ?b = "fill_field fs vals f"
  show ?case
  proof (cases "length ?b \<le> length tl'")
    case True
    then have "write_fields fs vals (f # qs) \<lparr> sv_data = pre @ tl', sv_len = length pre \<rparr> =
      write_fields fs vals qs \<lparr> sv_data = (pre @ ?b) @ drop (length ?b) tl', sv_len = length (pre @ ?b) \<rparr>"
      unfolding write_fields.simps by (subst sv_extend_at) (simp_all only: if_True bind.bind_lunit)
    then show ?thesis unfolding Cons.IH by (simp add: le_diff_conv2 True add.commute)
  next
    case False
    then show ?thesis by (simp add: sv_extend_at)
  qed
qed simp


text \<open>C38: writing a packet into a slice is writing it to a fresh vector: \<open>write_to\<close> leaves \<open>fill_vec\<close>'s
  bytes at the front of the slice and the rest of it as it was, and panics exactly when the packet does
  not fit.\<close>

theorem write_to_fill_vec:
  "write_to v vals bytes =
    (if length (fill_vec v vals) \<le> length bytes
     then Some (fill_vec v vals @ drop (length (fill_vec v vals)) bytes) else None)"
proof (cases bytes)
  case (Cons b bs)
  have ex: "sv_extend_from_slice \<lparr> sv_data = bytes, sv_len = 0 \<rparr> [fst v] =
      Some \<lparr> sv_data = [fst v] @ bs, sv_len = length [fst v] \<rparr>"
    using sv_extend_at [of "[]" 0 bytes "[fst v]"] Cons by simp
  have fv: "fill_vec v vals = [fst v] @ body_bytes (snd v) vals (snd v)"
    by (simp add: fill_vec_def body_bytes_def)
  show ?thesis unfolding write_to_def ex bind.bind_lunit write_fields_at fv
    by (simp add: Cons)
qed (simp add: write_to_def sv_extend_from_slice_def fill_vec_def)

section \<open>Packets behind a pointer\<close>

lemma wrap_bytes_loop_done:
  assumes "packet_schema_ok vs" "v \<in> set vs" "vals_ok (snd v) vals"
    and mem: "map mem [0..<packet_len v vals] = fill_vec v vals"
  shows "sz \<le> packet_len v vals \<Longrightarrow> packet_len v vals - sz < fuel \<Longrightarrow>
    wrap_bytes_loop vs mem fuel sz = Some (Inr (fill_vec v vals))"
proof (induction fuel arbitrary: sz)
  case (Suc fuel)
  have slice: "map mem [0..<sz] = take sz (fill_vec v vals)"
    using Suc.prems(1) by (simp flip: mem add: take_map min_def)
  show ?case
  proof (cases "sz = packet_len v vals")
    case True
    have "try_ref vs (fill_vec v vals) = Some (Inr (v, vals, []))"
      using codec_read [OF assms(1-3), of "[]"] by simp
    then show ?thesis using True fill_vec_length [OF assms(3)] by (simp add: mem)
  next
    case False
    then have "sz < packet_len v vals" using Suc.prems(1) by simp
    from try_ref_short [OF assms(1-3) this] obtain k where
      k: "try_ref vs (take sz (fill_vec v vals)) = Some (Inl (NotEnoughBytes k))" "sz < k" "k \<le> packet_len v vals"
      by blast
    have "wrap_bytes_loop vs mem fuel k = Some (Inr (fill_vec v vals))"
      using Suc.IH k Suc.prems(2) by simp
    then show ?thesis using k(1) by (simp add: slice)
  qed
qed simp

text \<open>C35: \<open>Entry::wrap_bytes\<close> on a pointer to a packet returns, within \<open>len\<close> retries, and the slice it
  returns is the packet, whatever bytes follow it in memory; its \<open>debug_assert\<close> holds.\<close>

theorem wrap_bytes_finds_packet:
  assumes "packet_schema_ok vs" "v \<in> set vs" "vals_ok (snd v) vals"
    and "map mem [0..<packet_len v vals] = fill_vec v vals" "packet_len v vals \<le> fuel"
  shows "wrap_bytes vs mem fuel = Some (Inr (fill_vec v vals))"
  unfolding wrap_bytes_def
  using assms(5) min_len_bounds [OF assms(2)] by (intro wrap_bytes_loop_done [OF assms(1-4)]) (simp_all add: less_diff_conv2 order_less_le_trans)

theorem wrap_bytes_finds_packet_witness:
  "wrap_bytes [demo_variant] (\<lambda>i. if i < 6 then [1, 2, 1, 2, 3, 4] ! i else 0) 6 =
    Some (Inr (fill_vec demo_variant demo_vals))"
  by (rule wrap_bytes_finds_packet)
    (simp_all add: demo_ok demo_bytes upt_conv_Cons)

text \<open>C34: a packet of which only the first \<open>m\<close> bytes are there is answered with \<open>NotEnoughBytes k\<close>, never
  with a packet or a panic: \<open>k\<close> is more than what is there and at most the packet's length.\<close>

theorem partial_packet_asks_for_more:
  assumes "packet_schema_ok vs" "v \<in> set vs" "vals_ok (snd v) vals" "m < packet_len v vals"
  shows "\<exists>k. try_ref vs (take m (fill_vec v vals)) = Some (Inl (NotEnoughBytes k)) \<and>
    m < k \<and> k \<le> packet_len v vals"
  by (rule try_ref_short [OF assms])

theorem partial_packet_asks_for_more_witness:
  "\<exists>k. try_ref [demo_variant] (take 2 (fill_vec demo_variant demo_vals)) = Some (Inl (NotEnoughBytes k)) \<and>
    2 < k \<and> k \<le> packet_len demo_variant demo_vals"
  by (rule partial_packet_asks_for_more) (simp_all add: demo_ok demo_bytes)

end
