(* ===== verification/Byte_Trie.thy ===== *)
theory Byte_Trie
  imports Trie_Append Packet_Codec
begin

text \<open>
  The allocator a chain keeps its entries' bytes in (\<^verbatim>\<open>fuzzy_log_server/src/byte_trie.rs\<close>) and the
  \<open>AllocPtr\<close> of \<^verbatim>\<open>trie.rs\<close> in front of it. A location is a byte number; blocks of 8192 bytes hang in
  a radix tree of five tables' depth, and an append never straddles two blocks. The tables are those of
  theory \<open>Trie\<close>, shortcuts 2 to 6 being \<open>storage_l0\<close> to \<open>storage_l4\<close>; the cell \<open>storage_root\<close> is cell 0
  of table 1. Memory is one array of bytes in which every allocation is a fresh even address.
\<close>

section \<open>State\<close>

record byte_trie =
  stored_bytes :: u64
  storage_val :: "nat \<times> nat"
  tables :: trie
  mem :: "nat \<Rightarrow> byte"
  fresh_mem :: nat

definition storage_root :: "trie \<Rightarrow> place" where
  "storage_root t = PCell (root_array t 0) 0"

definition bt_new_tables :: trie where
  "bt_new_tables =
     (let (a1, t1) = alloc_seg trie_new;
          t2 = t1\<lparr>root_array := (root_array t1)(0 := a1)\<rparr>;
          (a2, t3) = alloc_seg t2;
          t4 = write_place t3 (storage_root t3) a2
      in t4\<lparr>shortcuts := (shortcuts t4)(1 := slice_from a1 1, 2 := whole_seg a2)\<rparr>)"

definition bt_new :: byte_trie where
  "bt_new = \<lparr>stored_bytes = 0, storage_val = (0, 0), tables = bt_new_tables, mem = (\<lambda>_. 0), fresh_mem = 8192\<rparr>"

definition alloc_val_level :: "byte_trie \<Rightarrow> nat \<times> byte_trie" where
  "alloc_val_level b = (fresh_mem b, b\<lparr>fresh_mem := fresh_mem b + 8192\<rparr>)"

definition round_up_to_next :: "u64 \<Rightarrow> u64 \<Rightarrow> u64 option" where
  "round_up_to_next unrounded target_alignment = do {
     s \<leftarrow> u64_add unrounded target_alignment;
     s \<leftarrow> u64_sub s 1;
     Some (s - s mod target_alignment)
   }"

section \<open>Appending\<close>

definition new_level :: "nat \<Rightarrow> trie \<Rightarrow> trie option" where
  "new_level d t = do {
     rust_assert (cannot_append t d);
     let (a, t1) = alloc_seg t;
     (_, t2) \<leftarrow> shortcut_append t1 (d - 1) a;
     Some (t2\<lparr>shortcuts := (shortcuts t2)(d := whole_seg a)\<rparr>)
   }"

text \<open>The masks \<open>L1_MASK\<close> to \<open>L4_MASK\<close> keep the low 53, 43, 33 and 23 bits.\<close>

definition bt_refresh :: "nat \<Rightarrow> u64 \<Rightarrow> trie \<Rightarrow> trie option" where
  "bt_refresh d start_byte t = (if start_byte mod 2 ^ (83 - 10 * d) = 0 then new_level d t else Some t)"

text \<open>The end of \<open>append\<close>, once the start is known: the slice (address and length) and its location.\<close>

definition bt_place :: "byte_trie \<Rightarrow> u64 \<Rightarrow> nat \<Rightarrow> ((nat \<times> nat) \<times> u64 \<times> byte_trie) option" where
  "bt_place b start_byte sz = do {
     rust_assert (stored_bytes b \<noteq> u64_max);
     t \<leftarrow> bt_refresh 3 start_byte (tables b);
     t \<leftarrow> bt_refresh 4 start_byte t;
     t \<leftarrow> bt_refresh 5 start_byte t;
     t \<leftarrow> bt_refresh 6 start_byte t;
     stored \<leftarrow> u64_add (stored_bytes b) sz;
     if start_byte mod 8192 = 0 then do {
       rust_assert (snd (storage_val b) = 0);
       let (a, b) = alloc_val_level b;
       (_, t) \<leftarrow> shortcut_append t 6 a;
       rust_assert (sz \<le> 8192);
       Some ((a, sz), start_byte, b\<lparr>tables := t, stored_bytes := stored, storage_val := (a + sz, 8192 - sz)\<rparr>)
     } else do {
       let (a, len) = storage_val b;
       rust_assert (sz \<le> len);
       Some ((a, sz), start_byte, b\<lparr>tables := t, stored_bytes := stored, storage_val := (a + sz, len - sz)\<rparr>)
     }
   }"

partial_function (option) bt_append :: "byte_trie \<Rightarrow> nat \<Rightarrow> ((nat \<times> nat) \<times> u64 \<times> byte_trie) option" where
  "bt_append b sz = do {
     rust_assert (sz \<le> 8192);
     end_byte \<leftarrow> u64_add (stored_bytes b) sz;
     end_byte \<leftarrow> u64_sub end_byte 1;
     (start_byte, b) \<leftarrow>
       (if 1 < sz \<and> stored_bytes b div 8192 \<noteq> end_byte div 8192 then do {
          new_start \<leftarrow> round_up_to_next (stored_bytes b) 8192;
          pad \<leftarrow> u64_sub new_start (stored_bytes b);
          (_, _, b) \<leftarrow> bt_append b pad;
          Some (new_start, b)
        } else Some (stored_bytes b, b));
     bt_place b start_byte sz
   }"

section \<open>Given locations and lookups\<close>

definition bt_insert :: "byte_trie \<Rightarrow> u64 \<Rightarrow> nat \<Rightarrow> ((nat \<times> nat) \<times> byte_trie) option" where
  "bt_insert b loc sz = do {
     e \<leftarrow> u64_add loc sz;
     let b = (if stored_bytes b < e then b\<lparr>stored_bytes := e\<rparr> else b);
     let key = loc div 8192;
     let l1 = insert_step key 2 (storage_root (tables b), tables b);
     let l2 = insert_step key 3 l1;
     let l3 = insert_step key 4 l2;
     let l4 = insert_step key 5 l3;
     let (lv, t) = insert_step key 6 l4;
     let (vals, b) =
       (if read_place t lv \<noteq> 0 then (read_place t lv, b\<lparr>tables := t\<rparr>)
        else let (a, b) = alloc_val_level b in (a, b\<lparr>tables := write_place t lv a\<rparr>));
     let val_start = loc mod 8192;
     rust_assert (val_start + sz \<le> 8192);
     Some ((vals + val_start, sz), b)
   }"

definition bt_path :: "trie \<Rightarrow> u64 \<Rightarrow> nat option" where
  "bt_path t key = do {
     l1 \<leftarrow> index_step t key 2 (read_place t (storage_root t));
     l2 \<leftarrow> index_step t key 3 l1;
     l3 \<leftarrow> index_step t key 4 l2;
     l4 \<leftarrow> index_step t key 5 l3;
     lv \<leftarrow> index_step t key 6 l4;
     if lv = 0 then None else Some lv
   }"

text \<open>The inner \<open>option\<close> is Rust's; slicing past the end of a block panics.\<close>

definition bt_get :: "byte_trie \<Rightarrow> u64 \<Rightarrow> nat \<Rightarrow> (nat \<times> nat) option option" where
  "bt_get b loc sz =
     (case bt_path (tables b) (loc div 8192) of
        None \<Rightarrow> Some None
      | Some lv \<Rightarrow> do {
          rust_assert (loc mod 8192 + sz \<le> 8192);
          Some (Some (lv + loc mod 8192, sz))
        })"

section \<open>Pointers to entries\<close>

definition max_in_block_size :: nat where
  "max_in_block_size = 4096"

definition end_from_ptr :: "nat \<Rightarrow> val_edge option" where
  "end_from_ptr p = do { rust_assert (p mod 2 = 0); Some (p + 1) }"

definition mid_from_ptr :: "nat \<Rightarrow> val_edge option" where
  "mid_from_ptr p = do { rust_assert (p mod 2 = 0); Some p }"

definition is_end :: "val_edge \<Rightarrow> bool" where
  "is_end v \<longleftrightarrow> v mod 2 \<noteq> 0"

text \<open>A box of its own: whole blocks of the address space, so that the next address is even again.\<close>

definition box_alloc :: "byte_trie \<Rightarrow> nat \<Rightarrow> nat \<times> byte_trie" where
  "box_alloc b sz = (fresh_mem b, b\<lparr>fresh_mem := fresh_mem b + 8192 * (sz div 8192 + 1)\<rparr>)"

definition alloc_prep_append :: "byte_trie \<Rightarrow> nat \<Rightarrow> ((nat \<times> nat) \<times> u64 \<times> byte_trie) option" where
  "alloc_prep_append b storage_size =
     (if storage_size \<le> max_in_block_size then bt_append b storage_size
      else let (a, b) = box_alloc b storage_size in Some ((a, storage_size), u64_max, b))"

definition alloc_reserve_space :: "byte_trie \<Rightarrow> nat \<Rightarrow> (val_edge \<times> u64 \<times> byte_trie) option" where
  "alloc_reserve_space b storage_size = do {
     let alloc_size = (if storage_size mod 2 \<noteq> 0 then storage_size + 1 else storage_size);
     ((append_ptr, _), loc, b) \<leftarrow> alloc_prep_append b alloc_size;
     v \<leftarrow> (if loc mod 8192 = 0 \<or> loc = u64_max then end_from_ptr append_ptr else mid_from_ptr append_ptr);
     Some (v, loc, b)
   }"

definition mem_write :: "byte_trie \<Rightarrow> nat \<Rightarrow> byte list \<Rightarrow> byte_trie" where
  "mem_write b p bs = b\<lparr>mem := (\<lambda>i. if p \<le> i \<and> i < p + length bs then bs ! (i - p) else mem b i)\<rparr>"

definition alloc_append :: "byte_trie \<Rightarrow> byte list \<Rightarrow> (val_edge \<times> u64 \<times> byte_trie) option" where
  "alloc_append b bytes = do {
     let storage_size = length bytes;
     let alloc_size = (if storage_size mod 2 \<noteq> 0 then storage_size + 1 else storage_size);
     ((append_ptr, _), loc, b) \<leftarrow> alloc_prep_append b alloc_size;
     let b = mem_write b append_ptr bytes;
     v \<leftarrow> (if loc mod 8192 = 0 \<or> loc = u64_max then end_from_ptr append_ptr else mid_from_ptr append_ptr);
     Some (v, loc, b)
   }"

definition alloc_at :: "byte_trie \<Rightarrow> u64 \<Rightarrow> nat \<Rightarrow> (val_edge \<times> byte_trie) option" where
  "alloc_at b start sz =
     (if start = u64_max then do {
        let (a, b) = box_alloc b sz;
        v \<leftarrow> end_from_ptr a;
        Some (v, b)
      } else do {
        ((append_ptr, _), b) \<leftarrow> bt_insert b start sz;
        v \<leftarrow> (if start mod 8192 = 0 then end_from_ptr append_ptr else mid_from_ptr append_ptr);
        Some (v, b)
      })"

section \<open>The tables follow the blocks\<close>

definition tables_ok :: "nat list \<Rightarrow> trie \<Rightarrow> bool" where
  "tables_ok vals t \<longleftrightarrow> mid_append vals (if vals = [] then 2 else 0) (t\<lparr>next_entry := length vals\<rparr>)"

lemma refresh_level_new: "refresh_level d t = (if next_entry t mod 2 ^ (70 - 10 * d) = 0 then new_level d t else Some t)"
  by (simp add: refresh_level_def new_level_def)

lemma new_level_next: "new_level d (t\<lparr>next_entry := n\<rparr>) = map_option (\<lambda>t. t\<lparr>next_entry := n\<rparr>) (new_level d t)"
  by (simp add: new_level_def cannot_append_def alloc_seg_def shortcut_append_def write_seg_def Let_def rust_assert_def)

lemma bt_refresh_level:
  assumes "start_byte = 8192 * n" "d \<le> 6"
  shows "map_option (\<lambda>t. t\<lparr>next_entry := n\<rparr>) (bt_refresh d start_byte t) = refresh_level d (t\<lparr>next_entry := n\<rparr>)"
proof -
  have "(2::nat) ^ (83 - 10 * d) = 8192 * 2 ^ (70 - 10 * d)"
    using assms(2) power_add [of "2::nat" 13 "70 - 10 * d"] by simp
  then have "start_byte mod 2 ^ (83 - 10 * d) = 0 \<longleftrightarrow> n mod 2 ^ (70 - 10 * d) = 0"
    by (simp add: assms(1) mod_mult_mult1)
  then show ?thesis by (simp add: bt_refresh_def refresh_level_new new_level_next)
qed

lemma bt_refresh_mid:
  assumes "start_byte = 8192 * length vals" "mid_append vals d (t\<lparr>next_entry := length vals\<rparr>)" "1 \<le> d" "d \<le> 5"
  obtains t' where "bt_refresh (Suc d) start_byte t = Some t'"
    "mid_append vals (Suc d) (t'\<lparr>next_entry := length vals\<rparr>)"
proof -
  obtain u where u: "refresh_level (Suc d) (t\<lparr>next_entry := length vals\<rparr>) = Some u" "mid_append vals (Suc d) u"
    using refresh_level_mid [OF assms(2-4)] by blast
  then obtain t' where "bt_refresh (Suc d) start_byte t = Some t'" "u = t'\<lparr>next_entry := length vals\<rparr>"
    using bt_refresh_level [OF assms(1), of "Suc d" t] assms(4) by (auto simp: map_option_eq_Some)
  then show ?thesis using that u(2) by blast
qed

lemma shortcut_append_next:
  "shortcut_append (t\<lparr>next_entry := n\<rparr>) d v = map_option (\<lambda>(sl, t). (sl, t\<lparr>next_entry := n\<rparr>)) (shortcut_append t d v)"
  by (simp add: shortcut_append_def write_seg_def Let_def)

lemma tables_start:
  assumes "tables_ok vals t" "length vals < 2 ^ 50"
  shows "mid_append vals 2 (t\<lparr>next_entry := length vals\<rparr>)"
proof (cases "vals = []")
  case False
  then have m0: "mid_append vals 0 (t\<lparr>next_entry := length vals\<rparr>)" using assms(1) by (simp add: tables_ok_def)
  have nz: "length vals mod span (Suc 0) \<noteq> 0" "length vals mod span (Suc (Suc 0)) \<noteq> 0"
    using False assms(2) by (simp_all add: span_def)
  have "mid_append vals (Suc (Suc 0)) (t\<lparr>next_entry := length vals\<rparr>)"
    by (intro mid_append_skip mid_append_skip [OF m0]) (simp_all add: nz)
  then show ?thesis by (simp add: numeral_2_eq_2)
qed (use assms(1) in \<open>simp add: tables_ok_def\<close>)

lemma tables_add_block:
  assumes ok: "tables_ok vals t" and n: "length vals < 2 ^ 50" and s: "start_byte = 8192 * length vals"
  obtains t3 t4 t5 t6 sl t7 where "bt_refresh 3 start_byte t = Some t3" "bt_refresh 4 start_byte t3 = Some t4"
    "bt_refresh 5 start_byte t4 = Some t5" "bt_refresh 6 start_byte t5 = Some t6"
    "shortcut_append t6 6 a = Some (sl, t7)" "tables_ok (vals @ [a]) t7"
proof -
  note m2 = tables_start [OF ok n]
  obtain t3 where t3: "bt_refresh 3 start_byte t = Some t3" "mid_append vals 3 (t3\<lparr>next_entry := length vals\<rparr>)"
    using bt_refresh_mid [OF s m2] by auto
  obtain t4 where t4: "bt_refresh 4 start_byte t3 = Some t4" "mid_append vals 4 (t4\<lparr>next_entry := length vals\<rparr>)"
    using bt_refresh_mid [OF s t3(2)] by auto
  obtain t5 where t5: "bt_refresh 5 start_byte t4 = Some t5" "mid_append vals 5 (t5\<lparr>next_entry := length vals\<rparr>)"
    using bt_refresh_mid [OF s t4(2)] by auto
  obtain t6 where t6: "bt_refresh 6 start_byte t5 = Some t6" "mid_append vals 6 (t6\<lparr>next_entry := length vals\<rparr>)"
    using bt_refresh_mid [OF s t5(2)] by auto
  obtain sl u where u: "shortcut_append (t6\<lparr>next_entry := length vals, next_entry := Suc (length vals)\<rparr>) 6 a = Some (sl, u)"
    "appended (vals @ [a]) u" "sl = (node u 6 (length vals div 1024), length vals mod 1024)"
    "extends (t6\<lparr>next_entry := length vals\<rparr>) u"
    using mid_append_last [OF t6(2), where v = a] .
  have "shortcut_append (t6\<lparr>next_entry := Suc (length vals)\<rparr>) 6 a = Some (sl, u)" using u(1) by simp
  then obtain t7 where t7: "shortcut_append t6 6 a = Some (sl, t7)" "u = t7\<lparr>next_entry := Suc (length vals)\<rparr>"
    unfolding shortcut_append_next by auto
  have ok': "tables_ok (vals @ [a]) t7" using u(2) t7(2) by (simp add: tables_ok_def appended_def)
  show ?thesis by (rule that [OF t3(1) t4(1) t5(1) t6(1) t7(1) ok'])
qed

lemma tables_new: "tables_ok [] bt_new_tables"
proof -
  obtain t1 where t1: "refresh_root trie_new = Some t1" "mid_append [] 1 t1"
    using refresh_root_mid [of "[]" trie_new] trie_new_appended by (auto simp: appended_def)
  obtain t2 where t2: "refresh_level 2 t1 = Some t2" "mid_append [] 2 t2"
    using refresh_level_mid [OF t1(2)] by (auto simp: numeral_2_eq_2)
  have "t2 = bt_new_tables\<lparr>next_entry := 0\<rparr>"
    using t1(1) t2(1)
    by (auto simp: refresh_root_def refresh_level_def trie_new_def bt_new_tables_def alloc_seg_def rust_assert_def
        shortcut_append_def write_seg_def whole_seg_def slice_from_def storage_root_def root_index_def Let_def
        split: if_splits)
  then show ?thesis using t2(2) by (simp add: tables_ok_def)
qed

lemma bt_path_block:
  assumes ok: "tables_ok vals t" and k: "k < 2 ^ 50"
  shows "bt_path t k = (if k < length vals \<and> vals ! k \<noteq> 0 then Some (vals ! k) else None)"
proof -
  define N where "N d = node t d (k div span d)" for d
  have n7: "node t 7 k = (if k < length vals then vals ! k else 0)"
    using mid_appendD(5) [of vals _ "t\<lparr>next_entry := length vals\<rparr>" k] ok
      node_cong [of "t\<lparr>next_entry := length vals\<rparr>" t 7 k] by (simp add: tables_ok_def)
  have z2: "k div span 2 = 0" using k by (simp add: span_def)
  have "node t 1 0 \<noteq> 0"
    using mid_appendD(4) [of vals _ "t\<lparr>next_entry := length vals\<rparr>" 1 0] ok by (simp add: tables_ok_def split: if_splits)
  then have st: "read_place t (storage_root t) = N 2"
    unfolding N_def z2 by (simp add: storage_root_def numeral_2_eq_2 Let_def)
  have step: "index_step t k d (N d) = (if N d = 0 then None else Some (N (Suc d)))"
    and zero: "N d = 0 \<Longrightarrow> N (Suc d) = 0" if "1 \<le> d" "d \<le> 6" for d
    using that by (auto simp: N_def index_step_node node_zero_below)
  have steps: "index_step t k 2 (N 2) = (if N 2 = 0 then None else Some (N 3))"
    "index_step t k 3 (N 3) = (if N 3 = 0 then None else Some (N 4))"
    "index_step t k 4 (N 4) = (if N 4 = 0 then None else Some (N 5))"
    "index_step t k 5 (N 5) = (if N 5 = 0 then None else Some (N 6))"
    "index_step t k 6 (N 6) = (if N 6 = 0 then None else Some (N 7))"
    using step [of 2] step [of 3] step [of 4] step [of 5] step [of 6] by simp_all
  have zeros: "N 2 = 0 \<Longrightarrow> N 3 = 0" "N 3 = 0 \<Longrightarrow> N 4 = 0" "N 4 = 0 \<Longrightarrow> N 5 = 0"
    "N 5 = 0 \<Longrightarrow> N 6 = 0" "N 6 = 0 \<Longrightarrow> N 7 = 0"
    using zero [of 2] zero [of 3] zero [of 4] zero [of 5] zero [of 6] by simp_all
  have z: "index_step t k d 0 = None" for d by (simp add: index_step_def)
  have "bt_path t k = (if N 7 = 0 then None else Some (N 7))"
    unfolding bt_path_def st steps(1)
    by (cases "N 2 = 0"; cases "N 3 = 0"; cases "N 4 = 0"; cases "N 5 = 0"; cases "N 6 = 0")
      (use zeros z in \<open>simp_all add: steps\<close>)
  moreover have "N 7 = node t 7 k" by (simp add: N_def)
  ultimately show ?thesis using n7 by simp
qed

section \<open>Appends do not overlap\<close>

text \<open>
  The blocks allocated so far, in order: as many as the stored bytes fill, at different nonzero
  multiples of 8192 below the next free address, with the rest of the last one in \<open>storage_val\<close>.
\<close>

definition blocks_ok :: "nat list \<Rightarrow> nat \<Rightarrow> bool" where
  "blocks_ok vals fr \<longleftrightarrow> distinct vals \<and> 0 < fr \<and> fr mod 8192 = 0 \<and>
     (\<forall>v \<in> set vals. 0 < v \<and> v < fr \<and> v mod 8192 = 0)"

definition bt_inv :: "nat list \<Rightarrow> byte_trie \<Rightarrow> bool" where
  "bt_inv vals b \<longleftrightarrow> tables_ok vals (tables b) \<and> blocks_ok vals (fresh_mem b) \<and>
     length vals = (stored_bytes b + 8191) div 8192 \<and>
     (if stored_bytes b mod 8192 = 0 then snd (storage_val b) = 0
      else storage_val b = (last vals + stored_bytes b mod 8192, 8192 - stored_bytes b mod 8192))"

lemma bt_new_inv: "bt_inv [] bt_new"
  by (simp add: bt_inv_def bt_new_def tables_new blocks_ok_def)

lemma blocks_ok_fresh: "blocks_ok vals fr \<Longrightarrow> blocks_ok (vals @ [fr]) (fr + 8192)"
  by (auto simp: blocks_ok_def)

text \<open>Where location \<open>loc\<close> lies in memory.\<close>

definition loc_addr :: "nat list \<Rightarrow> u64 \<Rightarrow> nat" where
  "loc_addr vals loc = vals ! (loc div 8192) + loc mod 8192"

lemma bt_refresh_skip:
  assumes "start_byte mod 8192 \<noteq> 0" "d \<le> 6"
  shows "bt_refresh d start_byte t = Some t"
proof -
  have "(8192::nat) dvd 2 ^ (83 - 10 * d)"
    using assms(2) le_imp_power_dvd [of 13 "83 - 10 * d" "2::nat"] by simp
  then have "\<not> 2 ^ (83 - 10 * d) dvd start_byte"
    using assms(1) dvd_trans [of 8192 "2 ^ (83 - 10 * d)" start_byte] by (meson dvd_eq_mod_eq_0)
  then have "start_byte mod 2 ^ (83 - 10 * d) \<noteq> 0" by (simp only: dvd_eq_mod_eq_0 simp_thms)
  then show ?thesis unfolding bt_refresh_def by (rule if_not_P)
qed

lemma blocks_above:
  assumes "1 \<le> r" "r \<le> 8192"
  shows "(8192 * n + r + 8191) div 8192 = Suc (n::nat)"
  using assms by (intro div_nat_eqI) auto

lemma blocks_exact: "s mod 8192 = 0 \<Longrightarrow> (s + 8191) div 8192 = s div (8192::nat)"
proof -
  assume "s mod 8192 = 0"
  then obtain n where "s = 8192 * n" by auto
  then show ?thesis by (intro div_nat_eqI) simp_all
qed

lemma bt_place_aligned:
  assumes inv: "bt_inv vals b" and al: "stored_bytes b mod 8192 = 0"
    and sz: "1 \<le> sz" "sz \<le> 8192" and room: "stored_bytes b + 8192 \<le> 2 ^ 63"
  shows "\<exists>b'. bt_place b (stored_bytes b) sz = Some ((fresh_mem b, sz), stored_bytes b, b') \<and>
    bt_inv (vals @ [fresh_mem b]) b' \<and> stored_bytes b' = stored_bytes b + sz \<and> mem b' = mem b \<and>
    fresh_mem b' = fresh_mem b + 8192"
proof -
  let ?n = "length vals"
  have n: "?n = stored_bytes b div 8192" using inv blocks_exact [OF al] by (simp add: bt_inv_def)
  have s: "stored_bytes b = 8192 * ?n" using n al by auto
  have "?n < 2 ^ 50" using n room by simp
  then obtain t3 t4 t5 t6 sl t7 where t: "bt_refresh 3 (stored_bytes b) (tables b) = Some t3"
    "bt_refresh 4 (stored_bytes b) t3 = Some t4" "bt_refresh 5 (stored_bytes b) t4 = Some t5"
    "bt_refresh 6 (stored_bytes b) t5 = Some t6" "shortcut_append t6 6 (fresh_mem b) = Some (sl, t7)"
    "tables_ok (vals @ [fresh_mem b]) t7"
    using tables_add_block [of vals "tables b" "stored_bytes b" "fresh_mem b"] inv s unfolding bt_inv_def by metis
  let ?b = "b\<lparr>tables := t7, stored_bytes := stored_bytes b + sz, storage_val := (fresh_mem b + sz, 8192 - sz),
    fresh_mem := fresh_mem b + 8192\<rparr>"
  have place: "bt_place b (stored_bytes b) sz = Some ((fresh_mem b, sz), stored_bytes b, ?b)"
    using t inv al sz room
    by (simp add: bt_place_def alloc_val_level_def bt_inv_def u64_add_def u64_max_def)
  have "Suc ?n = (8192 * ?n + sz + 8191) div 8192" using blocks_above [OF sz] by (rule sym)
  moreover have "sz mod 8192 = (if sz = 8192 then 0 else sz)" using sz by simp
  ultimately have "bt_inv (vals @ [fresh_mem b]) ?b"
    using inv t(6) blocks_ok_fresh [of vals "fresh_mem b"] al sz s
    by (auto simp: bt_inv_def)
  with place show ?thesis by simp
qed

lemma bt_place_in_block:
  assumes inv: "bt_inv vals b" and al: "stored_bytes b mod 8192 \<noteq> 0"
    and sz: "1 \<le> sz" "stored_bytes b mod 8192 + sz \<le> 8192" and room: "stored_bytes b + 8192 \<le> 2 ^ 63"
  shows "\<exists>b'. bt_place b (stored_bytes b) sz = Some ((loc_addr vals (stored_bytes b), sz), stored_bytes b, b') \<and>
    bt_inv vals b' \<and> stored_bytes b' = stored_bytes b + sz \<and> mem b' = mem b \<and> fresh_mem b' = fresh_mem b"
proof -
  let ?s = "stored_bytes b" let ?b = "b\<lparr>stored_bytes := ?s + sz, storage_val := (loc_addr vals ?s + sz, 8192 - ?s mod 8192 - sz)\<rparr>"
  define n where "n = ?s div 8192"
  have s: "?s = 8192 * n + ?s mod 8192" by (simp add: n_def)
  have len: "length vals = Suc n" using inv blocks_above [of "?s mod 8192" n] al s unfolding bt_inv_def by (simp add: less_imp_le)
  then have la: "last vals + ?s mod 8192 = loc_addr vals ?s"
    by (cases vals rule: rev_cases) (simp_all add: loc_addr_def n_def [symmetric] nth_append)
  have sv: "storage_val b = (loc_addr vals ?s, 8192 - ?s mod 8192)"
    using inv al la by (simp add: bt_inv_def)
  have fit: "sz \<le> 8192 - ?s mod 8192" using sz(2) by linarith
  have place: "bt_place b ?s sz = Some ((loc_addr vals ?s, sz), ?s, ?b)"
    using sv al sz room bt_refresh_skip [OF al] fit
    by (simp add: bt_place_def u64_add_def u64_max_def)
  define r where "r = ?s mod 8192 + sz"
  have sum: "?s + sz = 8192 * n + r" using s by (simp add: r_def)
  have r: "1 \<le> r" "r \<le> 8192" using sz by (simp_all add: r_def)
  have "length vals = (8192 * n + r + 8191) div 8192" using blocks_above [OF r, of n] len by simp
  moreover have "(8192 * n + r) mod 8192 = (if r = 8192 then 0 else r)" using r by simp
  ultimately have "bt_inv vals ?b"
    using inv la sz(1) by (auto simp: bt_inv_def sum r_def)
  with place show ?thesis by simp
qed

lemma same_block_iff:
  assumes "1 \<le> sz"
  shows "s div 8192 = (s + sz - 1) div 8192 \<longleftrightarrow> s mod 8192 + sz \<le> (8192::nat)"
proof -
  define n r where "n = s div 8192" and "r = s mod 8192"
  have s: "s = 8192 * n + r" and r: "r < 8192" by (simp_all add: n_def r_def)
  show ?thesis
  proof (cases "r + sz \<le> 8192")
    case True
    then have "(s + sz - 1) div 8192 = n" using s assms True by (intro div_nat_eqI) auto
    then show ?thesis using True by (simp add: n_def r_def)
  next
    case False
    then have "8192 * Suc n \<le> s + sz - 1" using s by simp
    then have "Suc n \<le> (s + sz - 1) div 8192" using div_le_mono [of "8192 * Suc n" "s + sz - 1" 8192] by simp
    then show ?thesis using False by (simp add: n_def r_def)
  qed
qed

lemma bt_place_fits:
  assumes inv: "bt_inv vals b" and sz: "1 \<le> sz" "stored_bytes b mod 8192 + sz \<le> 8192"
    and room: "stored_bytes b + 8192 \<le> 2 ^ 63"
  shows "\<exists>ys b'. bt_place b (stored_bytes b) sz = Some ((loc_addr (vals @ ys) (stored_bytes b), sz), stored_bytes b, b') \<and>
    bt_inv (vals @ ys) b' \<and> stored_bytes b' = stored_bytes b + sz \<and> mem b' = mem b \<and>
    fresh_mem b \<le> fresh_mem b' \<and> (\<forall>y \<in> set ys. fresh_mem b \<le> y) \<and> fresh_mem b' \<le> fresh_mem b + 8192"
proof (cases "stored_bytes b mod 8192 = 0")
  case True
  have "length vals = stored_bytes b div 8192" using inv blocks_exact [OF True] by (simp add: bt_inv_def)
  then have "loc_addr (vals @ [fresh_mem b]) (stored_bytes b) = fresh_mem b"
    using True by (simp add: loc_addr_def nth_append)
  moreover obtain b' where "bt_place b (stored_bytes b) sz = Some ((fresh_mem b, sz), stored_bytes b, b')"
    "bt_inv (vals @ [fresh_mem b]) b'" "stored_bytes b' = stored_bytes b + sz" "mem b' = mem b"
    "fresh_mem b' = fresh_mem b + 8192"
    using bt_place_aligned [OF inv True sz(1) _ room] sz(2) by auto
  ultimately show ?thesis by (intro exI [of _ "[fresh_mem b]"] exI [of _ b']) simp
next
  case False
  obtain b' where "bt_place b (stored_bytes b) sz = Some ((loc_addr vals (stored_bytes b), sz), stored_bytes b, b')"
    "bt_inv vals b'" "stored_bytes b' = stored_bytes b + sz" "mem b' = mem b" "fresh_mem b' = fresh_mem b"
    using bt_place_in_block [OF inv False sz room] by blast
  then show ?thesis by (intro exI [of _ "[]"] exI [of _ b']) simp
qed

lemma bt_append_fits:
  assumes "bt_inv vals b" "1 \<le> sz" "stored_bytes b mod 8192 + sz \<le> 8192" "stored_bytes b + 8192 \<le> 2 ^ 63"
  shows "bt_append b sz = bt_place b (stored_bytes b) sz"
proof -
  have "stored_bytes b div 8192 = (stored_bytes b + sz - 1) div 8192" using assms same_block_iff by blast
  then show ?thesis
    using assms by (subst bt_append.simps) (simp add: u64_add_def u64_sub_def u64_max_def)
qed

lemma bt_append_total:
  assumes inv: "bt_inv vals b" and sz: "1 \<le> sz" "sz \<le> 8192" and room: "stored_bytes b + 16384 \<le> 2 ^ 63"
  obtains ys loc b' where "bt_append b sz = Some ((loc_addr (vals @ ys) loc, sz), loc, b')" "bt_inv (vals @ ys) b'"
    "stored_bytes b \<le> loc" "stored_bytes b' = loc + sz" "loc mod 8192 + sz \<le> 8192" "mem b' = mem b"
    "stored_bytes b' \<le> stored_bytes b + 8192 + sz" "fresh_mem b \<le> fresh_mem b'" "\<forall>y \<in> set ys. fresh_mem b \<le> y"
    "loc = stored_bytes b \<or> loc mod 8192 = 0" "fresh_mem b' \<le> fresh_mem b + 16384"
proof (cases "stored_bytes b mod 8192 + sz \<le> 8192")
  case True
  then show ?thesis using that bt_append_fits [OF inv sz(1) True] bt_place_fits [OF inv sz(1) True] room by fastforce
next
  case False
  let ?s = "stored_bytes b"
  define n r where "n = ?s div 8192" and "r = ?s mod 8192"
  have s: "?s = 8192 * n + r" and r: "r < 8192" by (simp_all add: n_def r_def)
  have r0: "1 \<le> 8192 - r" "?s mod 8192 + (8192 - r) \<le> 8192" using r by (simp_all add: r_def)
  have up: "round_up_to_next ?s 8192 = Some (8192 * Suc n)"
  proof -
    have "r \<noteq> 0" using False sz by (auto simp: r_def)
    then have "(?s + 8191) div 8192 = Suc n" using blocks_above [of r n] r s by simp
    then have "8191 + ?s - (8191 + ?s) mod 8192 = 8192 * Suc n" by (metis minus_mod_eq_mult_div add.commute)
    then show ?thesis using room by (simp add: round_up_to_next_def u64_add_def u64_sub_def u64_max_def)
  qed
  obtain ys b1 where b1: "bt_append b (8192 - r) = Some ((loc_addr (vals @ ys) ?s, 8192 - r), ?s, b1)"
    "bt_inv (vals @ ys) b1" "stored_bytes b1 = 8192 * Suc n" "mem b1 = mem b"
    "fresh_mem b \<le> fresh_mem b1" "\<forall>y \<in> set ys. fresh_mem b \<le> y" "fresh_mem b1 \<le> fresh_mem b + 8192"
    using bt_append_fits [OF inv r0] bt_place_fits [OF inv r0] room s r by fastforce
  have z: "stored_bytes b1 mod 8192 = 0" by (simp add: b1(3))
  obtain zs b2 where b2: "bt_place b1 (8192 * Suc n) sz = Some ((loc_addr ((vals @ ys) @ zs) (8192 * Suc n), sz), 8192 * Suc n, b2)"
    "bt_inv ((vals @ ys) @ zs) b2" "stored_bytes b2 = 8192 * Suc n + sz" "mem b2 = mem b1"
    "fresh_mem b1 \<le> fresh_mem b2" "\<forall>y \<in> set zs. fresh_mem b1 \<le> y" "fresh_mem b2 \<le> fresh_mem b1 + 8192"
    using bt_place_fits [OF b1(2) sz(1)] sz(2) z room s r b1(3) by fastforce
  have ne: "?s div 8192 \<noteq> (?s + sz - 1) div 8192" using False same_block_iff [OF sz(1)] by blast
  have pad: "8192 * Suc n - ?s = 8192 - r" "?s \<le> 8192 * Suc n" using s r by simp_all
  have "1 < sz" using False sz r by (simp add: r_def)
  then have "bt_append b sz = Some ((loc_addr ((vals @ ys) @ zs) (8192 * Suc n), sz), 8192 * Suc n, b2)"
    using sz room ne up pad b1(1) b2(1)
    by (subst bt_append.simps) (simp add: u64_add_def u64_sub_def u64_max_def)
  moreover have "\<forall>y \<in> set (ys @ zs). fresh_mem b \<le> y" "fresh_mem b \<le> fresh_mem b2"
    using b1(5,6) b2(5,6) by auto
  ultimately show ?thesis using that [of "ys @ zs" "8192 * Suc n" b2] b1 b2 pad(2) sz(2) s by simp
qed

section \<open>Entries get memory of their own\<close>

lemma loc_addr_inj:
  assumes "blocks_ok vals fr" "l < 8192 * length vals" "l' < 8192 * length vals" "loc_addr vals l = loc_addr vals l'"
  shows "l = l'"
proof -
  let ?v = "vals ! (l div 8192)" and ?v' = "vals ! (l' div 8192)"
  have i: "l div 8192 < length vals" "l' div 8192 < length vals" using assms(2,3) by (simp_all add: less_mult_imp_div_less mult.commute)
  then have "?v mod 8192 = 0" "?v' mod 8192 = 0" using assms(1) by (auto simp: blocks_ok_def)
  then obtain a a' where v: "?v = 8192 * a" "?v' = 8192 * a'" by (meson dvdE mod_0_imp_dvd)
  have "8192 * a + l mod 8192 = 8192 * a' + l' mod 8192" using assms(4) v by (simp add: loc_addr_def)
  then have "(8192 * a + l mod 8192) div 8192 = (8192 * a' + l' mod 8192) div 8192"
    "(8192 * a + l mod 8192) mod 8192 = (8192 * a' + l' mod 8192) mod 8192" by simp_all
  then have "a = a'" "l mod 8192 = l' mod 8192" by simp_all
  then have "?v = ?v'" using v by simp
  then have "l div 8192 = l' div 8192" using i assms(1) unfolding blocks_ok_def by (metis nth_eq_iff_index_eq)
  then show ?thesis using \<open>l mod 8192 = l' mod 8192\<close> by (metis div_mult_mod_eq)
qed

lemma loc_addr_region:
  assumes "loc mod 8192 + sz \<le> 8192"
  shows "{loc_addr vals loc ..< loc_addr vals loc + sz} = loc_addr vals ` {loc ..< loc + sz}"
proof -
  have eq: "loc_addr vals (loc + i) = loc_addr vals loc + i" if "i < sz" for i
  proof -
    define n r where "n = loc div 8192" and "r = loc mod 8192"
    have l: "loc = 8192 * n + r" by (simp add: n_def r_def)
    have "r + i < 8192" using that assms by (simp add: r_def)
    then have "(loc + i) div 8192 = n" "(loc + i) mod 8192 = r + i"
      unfolding l by (simp_all add: add.assoc)
    then show ?thesis by (simp add: loc_addr_def n_def r_def)
  qed
  show ?thesis
  proof (intro equalityI subsetI)
    fix x assume "x \<in> {loc_addr vals loc ..< loc_addr vals loc + sz}"
    then have "x = loc_addr vals (loc + (x - loc_addr vals loc))" "x - loc_addr vals loc < sz"
      using eq [of "x - loc_addr vals loc"] by auto
    then show "x \<in> loc_addr vals ` {loc ..< loc + sz}" by (intro image_eqI) auto
  next
    fix x assume "x \<in> loc_addr vals ` {loc ..< loc + sz}"
    then obtain l where "x = loc_addr vals l" "loc \<le> l" "l < loc + sz" by auto
    then have "x = loc_addr vals loc + (l - loc)" "l - loc < sz" using eq [of "l - loc"] by simp_all
    then show "x \<in> {loc_addr vals loc ..< loc_addr vals loc + sz}" by simp
  qed
qed

text \<open>The addresses handed out: what the appends took from the blocks, and the boxes of large entries.\<close>

definition taken :: "nat list \<Rightarrow> byte_trie \<Rightarrow> nat set \<Rightarrow> nat set" where
  "taken vals b box = loc_addr vals ` {..< stored_bytes b} \<union> box"

definition alloc_inv :: "nat list \<Rightarrow> nat set \<Rightarrow> byte_trie \<Rightarrow> bool" where
  "alloc_inv vals box b \<longleftrightarrow> bt_inv vals b \<and> stored_bytes b mod 2 = 0 \<and>
     (\<forall>x \<in> box. 0 < x \<and> x < fresh_mem b \<and> (\<forall>v \<in> set vals. x < v \<or> v + 8192 \<le> x))"

lemma stored_in_blocks: "bt_inv vals b \<Longrightarrow> l < stored_bytes b \<Longrightarrow> l < 8192 * length vals"
  by (auto simp: bt_inv_def)

lemma loc_addr_mono: "l div 8192 < length vals \<Longrightarrow> loc_addr (vals @ ys) l = loc_addr vals l"
  by (simp add: loc_addr_def nth_append)

lemma loc_addr_in_block:
  assumes "l < 8192 * length vals"
  shows "\<exists>v \<in> set vals. v \<le> loc_addr vals l \<and> loc_addr vals l < v + 8192"
  using assms by (intro bexI [of _ "vals ! (l div 8192)"]) (auto simp: loc_addr_def less_mult_imp_div_less mult.commute)

lemma alloc_append_step:
  assumes inv: "alloc_inv vals box b" and sz: "1 \<le> sz" "sz \<le> 4096" "sz mod 2 = 0"
    and room: "stored_bytes b + 16384 \<le> 2 ^ 63"
  obtains vals' p loc b' where "bt_append b sz = Some ((p, sz), loc, b')" "alloc_inv vals' box b'"
    "taken vals b box \<union> {p ..< p + sz} \<subseteq> taken vals' b' box" "{p ..< p + sz} \<inter> taken vals b box = {}"
    "p mod 2 = 0" "0 < p" "stored_bytes b' \<le> stored_bytes b + 16384" "mem b' = mem b"
    "fresh_mem b' \<le> fresh_mem b + 16384"
proof -
  have bi: "bt_inv vals b" using inv by (simp add: alloc_inv_def)
  have "sz \<le> 8192" using sz(2) by simp
  from bt_append_total [OF bi sz(1) this room]
  obtain ys loc b' where a: "bt_append b sz = Some ((loc_addr (vals @ ys) loc, sz), loc, b')" "bt_inv (vals @ ys) b'"
    "stored_bytes b \<le> loc" "stored_bytes b' = loc + sz" "loc mod 8192 + sz \<le> 8192" "mem b' = mem b"
    "stored_bytes b' \<le> stored_bytes b + 8192 + sz" "fresh_mem b \<le> fresh_mem b'" "\<forall>y \<in> set ys. fresh_mem b \<le> y"
    "loc = stored_bytes b \<or> loc mod 8192 = 0" "fresh_mem b' \<le> fresh_mem b + 16384"
    .
  let ?vs = "vals @ ys" let ?p = "loc_addr ?vs loc"
  have ok: "blocks_ok ?vs (fresh_mem b')" using a(2) by (simp add: bt_inv_def)
  have le: "l < 8192 * length ?vs" if "l < loc + sz" for l using stored_in_blocks [OF a(2)] that a(4) by simp
  have old: "loc_addr ?vs l = loc_addr vals l" if "l < stored_bytes b" for l
    using stored_in_blocks [OF bi that] by (intro loc_addr_mono) (simp add: less_mult_imp_div_less mult.commute)
  have even: "loc mod 2 = 0" using a(10) inv by (auto simp: alloc_inv_def)
  have "x < v" if "x \<in> box" "v \<in> set ys" for x v
    using that inv a(9) unfolding alloc_inv_def by (meson less_le_trans)
  then have inv': "alloc_inv ?vs box b'"
    using inv a(2,4,8) even sz(3) unfolding alloc_inv_def by auto
  have reg: "{?p ..< ?p + sz} = loc_addr ?vs ` {loc ..< loc + sz}" by (rule loc_addr_region [OF a(5)])
  have "loc_addr vals ` {..< stored_bytes b} = loc_addr ?vs ` {..< stored_bytes b}" using old by auto
  then have sub: "taken vals b box \<union> {?p ..< ?p + sz} \<subseteq> taken ?vs b' box"
    unfolding taken_def reg using a(3,4) by auto
  have "x \<notin> taken vals b box" if x: "x \<in> {?p ..< ?p + sz}" for x
  proof
    obtain l where l: "x = loc_addr ?vs l" "loc \<le> l" "l < loc + sz" using x unfolding reg by auto
    assume "x \<in> taken vals b box"
    then consider l' where "x = loc_addr ?vs l'" "l' < stored_bytes b" | "x \<in> box" unfolding taken_def using old by auto
    then show False
    proof cases
      case 1
      then show False using loc_addr_inj [OF ok le le, of l l'] l a(3) by auto
    next
      case 2
      obtain v where v: "v \<in> set ?vs" "v \<le> x" "x < v + 8192" using loc_addr_in_block [OF le [OF l(3)]] l(1) by blast
      have "x < v \<or> v + 8192 \<le> x" using inv' 2 v(1) unfolding alloc_inv_def by blast
      then show False using v(2,3) by linarith
    qed
  qed
  then have disj: "{?p ..< ?p + sz} \<inter> taken vals b box = {}" by blast
  have "?vs ! (loc div 8192) \<in> set ?vs"
    using le [of loc] sz(1) by (intro nth_mem) (simp add: less_mult_imp_div_less mult.commute)
  then have v: "0 < ?vs ! (loc div 8192)" "8192 dvd ?vs ! (loc div 8192)" using ok by (auto simp: blocks_ok_def)
  have "2 dvd ?vs ! (loc div 8192)" using v(2) by (rule dvd_trans [rotated]) simp
  moreover have "2 dvd loc mod 8192" using even by (intro dvd_mod) auto
  ultimately have "?p mod 2 = 0" "0 < ?p" using v(1) unfolding loc_addr_def by (simp_all only: dvd_add mod_eq_0_iff_dvd add_pos_nonneg zero_le)
  then show ?thesis using that [OF a(1) inv' sub disj] a(6,7,11) sz(2) by simp
qed

lemma box_alloc_step:
  assumes inv: "alloc_inv vals box b"
  shows "alloc_inv vals (box \<union> {fresh_mem b ..< fresh_mem b + sz}) (snd (box_alloc b sz))"
    "{fresh_mem b ..< fresh_mem b + sz} \<inter> taken vals b box = {}"
    "fresh_mem b mod 2 = 0" "0 < fresh_mem b"
proof -
  have ok: "blocks_ok vals (fresh_mem b)" and bi: "bt_inv vals b" using inv by (auto simp: alloc_inv_def bt_inv_def)
  have below: "v + 8192 \<le> fresh_mem b" if "v \<in> set vals" for v
  proof -
    obtain i j where "v = 8192 * i" "fresh_mem b = 8192 * j" using ok \<open>v \<in> set vals\<close> unfolding blocks_ok_def by (metis mod_0_imp_dvd dvdE)
    moreover have "v < fresh_mem b" using ok that by (simp add: blocks_ok_def)
    ultimately show ?thesis by simp
  qed
  have grow: "fresh_mem b + sz < fresh_mem b + 8192 * (sz div 8192 + 1)"
    using div_mult_mod_eq [of sz 8192] mod_less_divisor [of 8192 sz] by simp
  have pos: "0 < fresh_mem b" "fresh_mem b mod 8192 = 0" using ok by (auto simp: blocks_ok_def)
  then show "0 < fresh_mem b" "fresh_mem b mod 2 = 0" by (auto elim!: dvdE)
  have "blocks_ok vals (fresh_mem b + 8192 * (sz div 8192 + 1))"
    unfolding blocks_ok_def
  proof (intro conjI ballI)
    show "(fresh_mem b + 8192 * (sz div 8192 + 1)) mod 8192 = 0" using pos(2) by (metis mod_mult_self2)
    fix v assume "v \<in> set vals"
    then show "0 < v" "v < fresh_mem b + 8192 * (sz div 8192 + 1)" "v mod 8192 = 0" using ok by (auto simp: blocks_ok_def)
  qed (use ok pos in \<open>auto simp: blocks_ok_def\<close>)
  then have "bt_inv vals (snd (box_alloc b sz))" using bi by (simp add: bt_inv_def box_alloc_def)
  then show "alloc_inv vals (box \<union> {fresh_mem b ..< fresh_mem b + sz}) (snd (box_alloc b sz))"
    unfolding alloc_inv_def
  proof (intro conjI ballI)
    show "stored_bytes (snd (box_alloc b sz)) mod 2 = 0" using inv by (simp add: alloc_inv_def box_alloc_def)
    fix x assume x: "x \<in> box \<union> {fresh_mem b ..< fresh_mem b + sz}"
    show "0 < x" using x inv pos(1) by (auto simp: alloc_inv_def)
    have "x < fresh_mem b + sz \<or> x < fresh_mem b" using x inv by (auto simp: alloc_inv_def)
    then show "x < fresh_mem (snd (box_alloc b sz))" using grow by (auto simp: box_alloc_def)
    fix v assume v: "v \<in> set vals"
    show "x < v \<or> v + 8192 \<le> x" using x inv v below [OF v] by (auto simp: alloc_inv_def)
  qed
  have "x < fresh_mem b" if x: "x \<in> taken vals b box" for x
  proof (cases "x \<in> box")
    case False
    then obtain l where l: "x = loc_addr vals l" "l < stored_bytes b" using x by (auto simp: taken_def)
    then obtain v where "v \<in> set vals" "x < v + 8192" using loc_addr_in_block [OF stored_in_blocks [OF bi]] by blast
    then show ?thesis using below [of v] by simp
  qed (use inv in \<open>simp add: alloc_inv_def\<close>)
  then show "{fresh_mem b ..< fresh_mem b + sz} \<inter> taken vals b box = {}" by fastforce
qed

text \<open>One reservation: it returns, and what it returns has not been handed out before.\<close>

lemma reserve_space_step:
  assumes inv: "alloc_inv vals box b" and sz: "1 \<le> sz" and room: "stored_bytes b + 16384 \<le> 2 ^ 63"
  shows "\<exists>vals' box' v loc b'. alloc_reserve_space b sz = Some (v, loc, b') \<and> alloc_inv vals' box' b' \<and>
    taken vals b box \<union> {val_ptr v ..< val_ptr v + sz} \<subseteq> taken vals' b' box' \<and>
    {val_ptr v ..< val_ptr v + sz} \<inter> taken vals b box = {} \<and> 0 < val_ptr v \<and>
    stored_bytes b' \<le> stored_bytes b + 16384 \<and> mem b' = mem b \<and> fresh_mem b' \<le> fresh_mem b + sz + 16384"
proof -
  define n where "n = (if sz mod 2 \<noteq> 0 then sz + 1 else sz)"
  have n: "1 \<le> n" "n mod 2 = 0" "sz \<le> n" using sz by (auto simp: n_def mod_Suc)
  have edge: "(if c then end_from_ptr p else mid_from_ptr p) = Some v \<Longrightarrow> val_ptr v = p"
    and edge_ex: "\<exists>v. (if c then end_from_ptr p else mid_from_ptr p) = Some v" if "p mod 2 = 0" for c p v
    using that by (auto simp: end_from_ptr_def mid_from_ptr_def val_ptr_def split: if_splits)
  show ?thesis
  proof (cases "n \<le> 4096")
    case True
    obtain vals' p loc b' where a: "bt_append b n = Some ((p, n), loc, b')" "alloc_inv vals' box b'"
      "taken vals b box \<union> {p ..< p + n} \<subseteq> taken vals' b' box" "{p ..< p + n} \<inter> taken vals b box = {}"
      "p mod 2 = 0" "0 < p" "stored_bytes b' \<le> stored_bytes b + 16384" "mem b' = mem b"
    "fresh_mem b' \<le> fresh_mem b + 16384"
      using alloc_append_step [OF inv n(1) True n(2) room] .
    obtain v where v: "(if loc mod 8192 = 0 \<or> loc = u64_max then end_from_ptr p else mid_from_ptr p) = Some v"
      using edge_ex [OF a(5)] by blast
    have "alloc_reserve_space b sz = Some (v, loc, b')"
      unfolding alloc_reserve_space_def Let_def n_def [symmetric] alloc_prep_append_def max_in_block_size_def
      using True a(1) v by simp
    moreover have "{p ..< p + sz} \<subseteq> {p ..< p + n}" using n(3) by auto
    then have "taken vals b box \<union> {p ..< p + sz} \<subseteq> taken vals' b' box" "{p ..< p + sz} \<inter> taken vals b box = {}"
      using a(3,4) by blast+
    moreover have "p = val_ptr v" using edge [OF a(5) v] by simp
    moreover have "fresh_mem b' \<le> fresh_mem b + sz + 16384" using a(9) by simp
    ultimately show ?thesis using a(2,6,7,8) by blast
  next
    case False
    let ?p = "fresh_mem b" let ?box = "box \<union> {?p ..< ?p + n}" let ?b = "snd (box_alloc b n)"
    note bx = box_alloc_step(1,2) [OF inv, of n] box_alloc_step(3,4) [OF inv]
    obtain v where v: "end_from_ptr ?p = Some v" and p: "val_ptr v = ?p"
      using bx(3) by (auto simp: end_from_ptr_def val_ptr_def)
    have "alloc_reserve_space b sz = Some (v, u64_max, ?b)"
      unfolding alloc_reserve_space_def Let_def n_def [symmetric] alloc_prep_append_def max_in_block_size_def
      using False v by (simp add: box_alloc_def)
    moreover have sub: "{?p ..< ?p + sz} \<subseteq> {?p ..< ?p + n}" using n(3) by auto
    have "taken vals b box \<union> {val_ptr v ..< val_ptr v + sz} \<subseteq> taken vals ?b ?box"
      unfolding p using sub by (auto simp: taken_def box_alloc_def)
    moreover have "{val_ptr v ..< val_ptr v + sz} \<inter> taken vals b box = {}" unfolding p using sub bx(2) by blast
    moreover have "0 < val_ptr v" "stored_bytes ?b \<le> stored_bytes b + 16384" "mem ?b = mem b"
      "fresh_mem ?b \<le> fresh_mem b + sz + 16384"
      using bx(4) sz by (auto simp add: p box_alloc_def n_def)
    ultimately show ?thesis using bx(1) by blast
  qed
qed

fun alloc_all :: "byte_trie \<Rightarrow> nat list \<Rightarrow> ((nat \<times> nat) list \<times> byte_trie) option" where
  "alloc_all b [] = Some ([], b)"
| "alloc_all b (sz # szs) = do {
     (v, _, b) \<leftarrow> alloc_reserve_space b sz;
     (rs, b) \<leftarrow> alloc_all b szs;
     Some ((val_ptr v, sz) # rs, b)
   }"

definition region :: "nat \<times> nat \<Rightarrow> nat set" where
  "region r = {fst r ..< fst r + snd r}"

lemma alloc_all_disjoint:
  assumes "alloc_inv vals box b" "list_all (\<lambda>sz. 1 \<le> sz) szs" "stored_bytes b + 16384 * (length szs + 1) \<le> 2 ^ 63"
  shows "\<exists>rs b'. alloc_all b szs = Some (rs, b') \<and> map snd rs = szs \<and>
    sorted_wrt (\<lambda>r r'. region r \<inter> region r' = {}) rs \<and>
    (\<forall>r \<in> set rs. 0 < fst r \<and> region r \<inter> taken vals b box = {})"
  using assms
proof (induction szs arbitrary: vals box b)
  case (Cons sz szs)
  then obtain vals' box' v loc b' where a: "alloc_reserve_space b sz = Some (v, loc, b')" "alloc_inv vals' box' b'"
    "taken vals b box \<union> {val_ptr v ..< val_ptr v + sz} \<subseteq> taken vals' b' box'"
    "{val_ptr v ..< val_ptr v + sz} \<inter> taken vals b box = {}" "0 < val_ptr v" "stored_bytes b' \<le> stored_bytes b + 16384"
    using reserve_space_step [OF Cons.prems(1), of sz] by auto
  obtain rs b'' where r: "alloc_all b' szs = Some (rs, b'')" "map snd rs = szs"
    "sorted_wrt (\<lambda>r r'. region r \<inter> region r' = {}) rs" "\<forall>r \<in> set rs. 0 < fst r \<and> region r \<inter> taken vals' b' box' = {}"
    using Cons.IH [OF a(2)] Cons.prems(2,3) a(6) by auto
  have "region (val_ptr v, sz) \<subseteq> taken vals' b' box'" using a(3) by (auto simp: region_def)
  then have "sorted_wrt (\<lambda>r r'. region r \<inter> region r' = {}) ((val_ptr v, sz) # rs)" using r(3,4) by fastforce
  moreover have "\<forall>r \<in> set ((val_ptr v, sz) # rs). 0 < fst r \<and> region r \<inter> taken vals b box = {}"
    using r(4) a(3,4,5) by (auto simp: region_def)
  ultimately show ?case using a(1) r(1,2) by simp
qed simp

text \<open>C30: reserving space for entries never fails before the address space of the allocator is used up,
  and every entry gets bytes of its own: the regions of any sequence of reservations, small ones packed
  into blocks and large ones in boxes, are as long as asked for, not null and pairwise disjoint.\<close>

theorem reservations_disjoint:
  assumes "list_all (\<lambda>sz. 1 \<le> sz) szs" "length szs < 2 ^ 48"
  shows "\<exists>rs b. alloc_all bt_new szs = Some (rs, b) \<and> map snd rs = szs \<and>
    sorted_wrt (\<lambda>r r'. region r \<inter> region r' = {}) rs \<and> list_all (\<lambda>r. fst r \<noteq> 0) rs"
proof -
  have "alloc_inv [] {} bt_new" using bt_new_inv by (simp add: alloc_inv_def bt_new_def)
  moreover have "stored_bytes bt_new + 16384 * (length szs + 1) \<le> 2 ^ 63" using assms(2) by (simp add: bt_new_def)
  ultimately show ?thesis using alloc_all_disjoint [of "[]" "{}" bt_new szs] assms(1) by (auto simp: list_all_iff)
qed

theorem reservations_disjoint_witness:
  "\<exists>rs b. alloc_all bt_new [100, 4096, 5000, 4096, 1] = Some (rs, b) \<and> map snd rs = [100, 4096, 5000, 4096, 1] \<and>
    sorted_wrt (\<lambda>r r'. region r \<inter> region r' = {}) rs \<and> list_all (\<lambda>r. fst r \<noteq> 0) rs"
  by (rule reservations_disjoint) simp_all

end
