(* ===== verification/Packets.thy ===== *)
theory Packets
  imports Packet_Codec
begin

text \<open>
  The packets of the protocol (\<^verbatim>\<open>fuzzy_log_packets/src/lib.rs\<close>): entry kinds and flags, the fourteen
  variants of \<open>Packet\<close> with their wire schemas, the accessors of \<open>Packet::Ref\<close>, the conversions between a
  packet and its replicated form, and the functions that turn one into another by overwriting the tag
  byte. An accessor that meets \<open>unreachable!\<close> or \<open>panic!\<close> is \<open>None\<close>.
\<close>

unbundle bit_operations_syntax

section \<open>Kinds and flags\<close>

type_synonym kind = byte
type_synonym flag = byte

definition kInvalid :: kind where "kInvalid = 0x0"
definition kData :: kind where "kData = 0x1"
definition kMultiput :: kind where "kMultiput = 0x2"
definition kRead :: kind where "kRead = 0x3"
definition kLock :: kind where "kLock = 0x4"
definition kSentinel :: kind where "kSentinel = 0x6"
definition kSkeens2ToReplica :: kind where "kSkeens2ToReplica = 0x8"
definition kToReplica :: kind where "kToReplica = 0x10"
definition kSingleToReplica :: kind where "kSingleToReplica = kData OR kToReplica"
definition kMultiputToReplica :: kind where "kMultiputToReplica = kMultiput OR kToReplica"
definition kSentinelToReplica :: kind where "kSentinelToReplica = kSentinel OR kToReplica"
definition kFenceClient :: kind where "kFenceClient = 0x20"
definition kUpdateRecovery :: kind where "kUpdateRecovery = 0x30"
definition kCheckSkeens1 :: kind where "kCheckSkeens1 = 0x40"
definition kGC :: kind where "kGC = 0x50"
definition kSnapshot :: kind where "kSnapshot = 0x60"
definition kSnapshotToReplica :: kind where "kSnapshotToReplica = 0x70"

definition fNothing :: flag where "fNothing = 0x0"
definition fReadSuccess :: flag where "fReadSuccess = 0x1"
definition fNewMultiPut :: flag where "fNewMultiPut = 0x2"
definition fSkeens1Queued :: flag where "fSkeens1Queued = 0x4"
definition fTakeLock :: flag where "fTakeLock = 0x8"
definition fUnlock :: flag where "fUnlock = 0x10"
definition fNoRemote :: flag where "fNoRemote = 0x20"
definition fDirectWrite :: flag where "fDirectWrite = 0x40"
definition fSnapshotAndFetch :: flag where "fSnapshotAndFetch = 0x80"

lemmas kind_values = kInvalid_def kData_def kMultiput_def kRead_def kLock_def kSentinel_def
  kSkeens2ToReplica_def kToReplica_def kFenceClient_def kUpdateRecovery_def kCheckSkeens1_def kGC_def
  kSnapshot_def kSnapshotToReplica_def

lemma kind_or_values [simp]:
  "kSingleToReplica = 0x11" "kMultiputToReplica = 0x12" "kSentinelToReplica = 0x16"
  by (simp_all add: kSingleToReplica_def kMultiputToReplica_def kSentinelToReplica_def kind_values)

text \<open>\<open>contains\<close>, \<open>insert\<close> and \<open>remove\<close> of \<open>bitflags!\<close>.\<close>

definition bits_contains :: "byte \<Rightarrow> byte \<Rightarrow> bool" where
  "bits_contains b m \<longleftrightarrow> b AND m = m"

definition bits_insert :: "byte \<Rightarrow> byte \<Rightarrow> byte" where
  "bits_insert b m = b OR m"

definition bits_remove :: "byte \<Rightarrow> byte \<Rightarrow> byte" where
  "bits_remove b m = b AND NOT m"

definition is_taking_lock :: "flag \<Rightarrow> bool" where
  "is_taking_lock f = bits_contains f fTakeLock"

datatype entry_layout = LData | LMultiput | LLock | LSentinel | LRead | LGC | LSnapshot

fun layout_kind :: "entry_layout \<Rightarrow> kind" where
  "layout_kind LData = kData"
| "layout_kind LMultiput = kMultiput"
| "layout_kind LLock = kLock"
| "layout_kind LSentinel = kSentinel"
| "layout_kind LRead = kRead"
| "layout_kind LGC = kGC"
| "layout_kind LSnapshot = kSnapshot"

fun is_write :: "entry_layout \<Rightarrow> bool" where
  "is_write LData = True"
| "is_write LMultiput = True"
| "is_write LSentinel = True"
| "is_write _ = False"

definition kind_layout :: "kind \<Rightarrow> entry_layout option" where
  "kind_layout k =
     (if k = kData \<or> k = kSingleToReplica then Some LData
      else if k = kMultiput \<or> k = kMultiputToReplica then Some LMultiput
      else if k = kSentinel \<or> k = kSentinelToReplica then Some LSentinel
      else if k = kLock then Some LLock
      else if k = kRead then Some LRead
      else if k = kGC then Some LGC
      else if k = kSnapshot then Some LSnapshot
      else None)"

section \<open>Packets\<close>

text \<open>The fields are the source's, in its order, without the counters of the arrays.\<close>

datatype packet =
    PRead uuid flag nat nat order_index order_index order_index
  | PSingle uuid flag order_index "order_index list" "byte list" u64
  | PMulti uuid flag u64 "order_index list" "order_index list" "byte list"
  | PSenti uuid flag nat u64 "order_index list" "order_index list"
  | PSingleToReplica uuid flag order_index "order_index list" "byte list" u64 u64
  | PMultiToReplica uuid flag u64 "order_index list" "order_index list" "byte list" "u64 list"
  | PSentiToReplica uuid flag nat u64 "order_index list" "order_index list" "u64 list"
  | PSkeens2ToReplica uuid u64 order_index
  | PGC uuid flag "order_index list"
  | PFenceClient uuid uuid uuid
  | PUpdateRecovery uuid uuid flag u64 "order_index list"
  | PCheckSkeens1 uuid flag nat nat order_index
  | PSnapshot uuid flag nat nat u64 "order_index list"
  | PSnapshotToReplica uuid flag nat nat u64 "order_index list" "u64 list"

definition read_packet :: "uuid \<Rightarrow> order_index \<Rightarrow> packet" where
  "read_packet namespace_dns loc = PRead namespace_dns fNothing 0 0 loc loc loc"

fun pkt_flag :: "packet \<Rightarrow> flag option" where
  "pkt_flag (PRead i f db dp l h m) = Some f"
| "pkt_flag (PSingle i f l ds d ts) = Some f"
| "pkt_flag (PMulti i f k ls ds d) = Some f"
| "pkt_flag (PSenti i f db k ls ds) = Some f"
| "pkt_flag (PSingleToReplica i f l ds d ts q) = Some f"
| "pkt_flag (PMultiToReplica i f k ls ds d qs) = Some f"
| "pkt_flag (PSentiToReplica i f db k ls ds qs) = Some f"
| "pkt_flag (PSkeens2ToReplica i k l) = None"
| "pkt_flag (PGC i f ls) = Some f"
| "pkt_flag (PFenceClient a b c) = Some fNothing"
| "pkt_flag (PUpdateRecovery r w f k ls) = Some f"
| "pkt_flag (PCheckSkeens1 i f db dp l) = Some f"
| "pkt_flag (PSnapshot i f db nd k ls) = Some f"
| "pkt_flag (PSnapshotToReplica i f db nd k ls qs) = Some f"

fun pkt_kind :: "packet \<Rightarrow> kind" where
  "pkt_kind (PRead i f db dp l h m) = kRead"
| "pkt_kind (PSingle i f l ds d ts) = kData"
| "pkt_kind (PMulti i f k ls ds d) = kMultiput"
| "pkt_kind (PSenti i f db k ls ds) = kSentinel"
| "pkt_kind (PSingleToReplica i f l ds d ts q) = kSingleToReplica"
| "pkt_kind (PMultiToReplica i f k ls ds d qs) = kMultiputToReplica"
| "pkt_kind (PSentiToReplica i f db k ls ds qs) = kSentinelToReplica"
| "pkt_kind (PSkeens2ToReplica i k l) = kSkeens2ToReplica"
| "pkt_kind (PGC i f ls) = kGC"
| "pkt_kind (PFenceClient a b c) = kFenceClient"
| "pkt_kind (PUpdateRecovery r w f k ls) = kUpdateRecovery"
| "pkt_kind (PCheckSkeens1 i f db dp l) = kCheckSkeens1"
| "pkt_kind (PSnapshot i f db nd k ls) = kSnapshot"
| "pkt_kind (PSnapshotToReplica i f db nd k ls qs) = kSnapshotToReplica"

definition pkt_layout :: "packet \<Rightarrow> entry_layout option" where
  "pkt_layout p = kind_layout (pkt_kind p)"

fun pkt_id :: "packet \<Rightarrow> uuid" where
  "pkt_id (PRead i f db dp l h m) = i"
| "pkt_id (PSingle i f l ds d ts) = i"
| "pkt_id (PMulti i f k ls ds d) = i"
| "pkt_id (PSenti i f db k ls ds) = i"
| "pkt_id (PSingleToReplica i f l ds d ts q) = i"
| "pkt_id (PMultiToReplica i f k ls ds d qs) = i"
| "pkt_id (PSentiToReplica i f db k ls ds qs) = i"
| "pkt_id (PSkeens2ToReplica i k l) = i"
| "pkt_id (PGC i f ls) = i"
| "pkt_id (PFenceClient fencing_write b c) = fencing_write"
| "pkt_id (PUpdateRecovery r write_id f k ls) = write_id"
| "pkt_id (PCheckSkeens1 i f db dp l) = i"
| "pkt_id (PSnapshot i f db nd k ls) = i"
| "pkt_id (PSnapshotToReplica i f db nd k ls qs) = i"

fun pkt_locs :: "packet \<Rightarrow> order_index list option" where
  "pkt_locs (PRead i f db dp l h m) = Some [l]"
| "pkt_locs (PSingle i f l ds d ts) = Some [l]"
| "pkt_locs (PMulti i f k ls ds d) = Some ls"
| "pkt_locs (PSenti i f db k ls ds) = Some ls"
| "pkt_locs (PSingleToReplica i f l ds d ts q) = Some [l]"
| "pkt_locs (PMultiToReplica i f k ls ds d qs) = Some ls"
| "pkt_locs (PSentiToReplica i f db k ls ds qs) = Some ls"
| "pkt_locs (PSkeens2ToReplica i k l) = Some [l]"
| "pkt_locs (PGC i f ls) = Some ls"
| "pkt_locs (PFenceClient a b c) = None"
| "pkt_locs (PUpdateRecovery r w f k ls) = Some ls"
| "pkt_locs (PCheckSkeens1 i f db dp l) = Some [l]"
| "pkt_locs (PSnapshot i f db nd k ls) = Some ls"
| "pkt_locs (PSnapshotToReplica i f db nd k ls qs) = Some ls"

fun locs_and_node_nums :: "packet \<Rightarrow> (order_index \<times> u64) list option" where
  "locs_and_node_nums (PSingleToReplica i f l ds d ts q) = Some [(l, q)]"
| "locs_and_node_nums (PMultiToReplica i f k ls ds d qs) = Some (zip ls qs)"
| "locs_and_node_nums (PSentiToReplica i f db k ls ds qs) = Some (zip ls qs)"
| "locs_and_node_nums (PSnapshotToReplica i f db nd k ls qs) = Some (zip ls qs)"
| "locs_and_node_nums _ = None"

fun pkt_data :: "packet \<Rightarrow> byte list option" where
  "pkt_data (PMulti i f k ls ds d) = Some d"
| "pkt_data (PSingle i f l ds d ts) = Some d"
| "pkt_data (PMultiToReplica i f k ls ds d qs) = Some d"
| "pkt_data (PSingleToReplica i f l ds d ts q) = Some d"
| "pkt_data _ = None"

fun lock_num :: "packet \<Rightarrow> u64 option" where
  "lock_num (PRead i f db dp l h m) = Some 0"
| "lock_num (PSingle i f l ds d ts) = Some ts"
| "lock_num (PMulti i f k ls ds d) = Some k"
| "lock_num (PSenti i f db k ls ds) = Some k"
| "lock_num (PSingleToReplica i f l ds d ts q) = Some ts"
| "lock_num (PMultiToReplica i f k ls ds d qs) = Some k"
| "lock_num (PSentiToReplica i f db k ls ds qs) = Some k"
| "lock_num (PSkeens2ToReplica i k l) = Some k"
| "lock_num (PUpdateRecovery r w f k ls) = Some k"
| "lock_num (PSnapshot i f db nd k ls) = Some k"
| "lock_num (PSnapshotToReplica i f db nd k ls qs) = Some k"
| "lock_num (PGC i f ls) = None"
| "lock_num (PFenceClient a b c) = None"
| "lock_num (PCheckSkeens1 i f db dp l) = None"

fun dependencies :: "packet \<Rightarrow> order_index list option" where
  "dependencies (PSingle i f l ds d ts) = Some ds"
| "dependencies (PMulti i f k ls ds d) = Some ds"
| "dependencies (PSenti i f db k ls ds) = Some ds"
| "dependencies (PSingleToReplica i f l ds d ts q) = Some ds"
| "dependencies (PMultiToReplica i f k ls ds d qs) = Some ds"
| "dependencies (PSentiToReplica i f db k ls ds qs) = Some ds"
| "dependencies _ = None"

fun pkt_horizon :: "packet \<Rightarrow> order_index option" where
  "pkt_horizon (PRead i f db dp l h m) = Some h"
| "pkt_horizon _ = None"

fun with_deps :: "packet \<Rightarrow> order_index list \<Rightarrow> packet option" where
  "with_deps (PSingle i f l ds d ts) new = Some (PSingle i f l new d ts)"
| "with_deps (PMulti i f k ls ds d) new = Some (PMulti i f k ls new d)"
| "with_deps (PSenti i f db k ls ds) new = Some (PSenti i f db k ls new)"
| "with_deps (PSingleToReplica i f l ds d ts q) new = Some (PSingleToReplica i f l new d ts q)"
| "with_deps (PMultiToReplica i f k ls ds d qs) new = Some (PMultiToReplica i f k ls new d qs)"
| "with_deps (PSentiToReplica i f db k ls ds qs) new = Some (PSentiToReplica i f db k ls new qs)"
| "with_deps _ new = None"

fun single_skeens_to_replication :: "packet \<Rightarrow> u64 \<Rightarrow> u64 \<Rightarrow> packet option" where
  "single_skeens_to_replication (PSingle i f l ds d ts) time queue_num =
     Some (PSingleToReplica i f l ds d time queue_num)"
| "single_skeens_to_replication _ time queue_num = None"

fun multi_skeens_to_replication :: "packet \<Rightarrow> u64 list \<Rightarrow> packet option" where
  "multi_skeens_to_replication (PMulti i f k ls ds d) qs = Some (PMultiToReplica i f k ls ds d qs)"
| "multi_skeens_to_replication (PSenti i f db k ls ds) qs = Some (PSentiToReplica i f db k ls ds qs)"
| "multi_skeens_to_replication (PSnapshot i f db nd k ls) qs = Some (PSnapshotToReplica i f db nd k ls qs)"
| "multi_skeens_to_replication _ qs = None"

fun to_unreplica :: "packet \<Rightarrow> packet option" where
  "to_unreplica (PMultiToReplica i f k ls ds d qs) = Some (PMulti i f k ls ds d)"
| "to_unreplica (PSentiToReplica i f db k ls ds qs) = Some (PSenti i f db k ls ds)"
| "to_unreplica (PSnapshotToReplica i f db nd k ls qs) = Some (PSnapshot i f db nd k ls)"
| "to_unreplica (PSingleToReplica i f l ds d ts q) = Some (PSingle i f l ds d ts)"
| "to_unreplica _ = None"

fun queue_nums :: "packet \<Rightarrow> u64 list option" where
  "queue_nums (PMultiToReplica i f k ls ds d qs) = Some qs"
| "queue_nums (PSentiToReplica i f db k ls ds qs) = Some qs"
| "queue_nums (PSnapshotToReplica i f db nd k ls qs) = Some qs"
| "queue_nums _ = None"

fun write_id_and_old_recoverer :: "packet \<Rightarrow> (uuid \<times> uuid) option" where
  "write_id_and_old_recoverer (PUpdateRecovery old_recoverer write_id f k ls) = Some (write_id, old_recoverer)"
| "write_id_and_old_recoverer _ = None"

end
