(* ===== verification/Packet_Wire.thy ===== *)
theory Packet_Wire
  imports Packets
begin

text \<open>
  The wire form of the packets: the field lists the \<^verbatim>\<open>define_packet!\<close> invocation of
  \<^verbatim>\<open>fuzzy_log_packets/src/lib.rs\<close> gives to the codec, reading and writing a packet through it, the sizes
  the server allocates by, and the functions that change a packet in place by overwriting its tag.
  A \<open>Uuid\<close> is 16 bytes, an \<open>OrderIndex\<close> two little-endian \<open>u64\<close>.
\<close>

section \<open>Schemas\<close>

definition read_fields :: "field list" where
  "read_fields = [(''id'', Fixed 16), (''flags'', Fixed 1), (''data_bytes'', Fixed 2),
     (''dependency_bytes'', Fixed 2), (''loc'', Fixed 16), (''horizon'', Fixed 16), (''min'', Fixed 16)]"

definition single_fields :: "field list" where
  "single_fields = [(''id'', Fixed 16), (''flags'', Fixed 1), (''data_bytes'', Fixed 4), (''num_deps'', Fixed 2),
     (''loc'', Fixed 16), (''deps'', VarArray 16 ''num_deps''), (''data'', VarArray 1 ''data_bytes''),
     (''timestamp'', Fixed 8)]"

definition multi_fields :: "field list" where
  "multi_fields = [(''id'', Fixed 16), (''flags'', Fixed 1), (''data_bytes'', Fixed 4), (''num_deps'', Fixed 2),
     (''cols'', Fixed 2), (''lock'', Fixed 8), (''locs'', VarArray 16 ''cols''),
     (''deps'', VarArray 16 ''num_deps''), (''data'', VarArray 1 ''data_bytes'')]"

definition senti_fields :: "field list" where
  "senti_fields = [(''id'', Fixed 16), (''flags'', Fixed 1), (''data_bytes'', Fixed 4), (''num_deps'', Fixed 2),
     (''cols'', Fixed 2), (''lock'', Fixed 8), (''locs'', VarArray 16 ''cols''),
     (''deps'', VarArray 16 ''num_deps'')]"

definition single_to_replica_fields :: "field list" where
  "single_to_replica_fields = [(''id'', Fixed 16), (''flags'', Fixed 1), (''data_bytes'', Fixed 4),
     (''num_deps'', Fixed 2), (''loc'', Fixed 16), (''deps'', VarArray 16 ''num_deps''),
     (''data'', VarArray 1 ''data_bytes''), (''timestamp'', Fixed 8), (''queue_num'', Fixed 8)]"

definition multi_to_replica_fields :: "field list" where
  "multi_to_replica_fields = [(''id'', Fixed 16), (''flags'', Fixed 1), (''data_bytes'', Fixed 4),
     (''num_deps'', Fixed 2), (''cols'', Fixed 2), (''lock'', Fixed 8), (''locs'', VarArray 16 ''cols''),
     (''deps'', VarArray 16 ''num_deps''), (''data'', VarArray 1 ''data_bytes''),
     (''queue_nums'', VarArray 8 ''cols'')]"

definition senti_to_replica_fields :: "field list" where
  "senti_to_replica_fields = [(''id'', Fixed 16), (''flags'', Fixed 1), (''data_bytes'', Fixed 4),
     (''num_deps'', Fixed 2), (''cols'', Fixed 2), (''lock'', Fixed 8), (''locs'', VarArray 16 ''cols''),
     (''deps'', VarArray 16 ''num_deps''), (''queue_nums'', VarArray 8 ''cols'')]"

definition skeens2_to_replica_fields :: "field list" where
  "skeens2_to_replica_fields = [(''id'', Fixed 16), (''lock'', Fixed 8), (''loc'', Fixed 16)]"

definition gc_fields :: "field list" where
  "gc_fields = [(''id'', Fixed 16), (''flags'', Fixed 1), (''cols'', Fixed 2), (''locs'', VarArray 16 ''cols'')]"

definition fence_client_fields :: "field list" where
  "fence_client_fields = [(''fencing_write'', Fixed 16), (''client_to_fence'', Fixed 16), (''fencing_client'', Fixed 16)]"

definition update_recovery_fields :: "field list" where
  "update_recovery_fields = [(''old_recoverer'', Fixed 16), (''write_id'', Fixed 16), (''flags'', Fixed 1),
     (''cols'', Fixed 2), (''lock'', Fixed 8), (''locs'', VarArray 16 ''cols'')]"

definition check_skeens1_fields :: "field list" where
  "check_skeens1_fields = [(''id'', Fixed 16), (''flags'', Fixed 1), (''data_bytes'', Fixed 2),
     (''dependency_bytes'', Fixed 2), (''loc'', Fixed 16)]"

definition snapshot_fields :: "field list" where
  "snapshot_fields = [(''id'', Fixed 16), (''flags'', Fixed 1), (''data_bytes'', Fixed 4), (''num_deps'', Fixed 2),
     (''cols'', Fixed 2), (''lock'', Fixed 8), (''locs'', VarArray 16 ''cols'')]"

definition snapshot_to_replica_fields :: "field list" where
  "snapshot_to_replica_fields = [(''id'', Fixed 16), (''flags'', Fixed 1), (''data_bytes'', Fixed 4),
     (''num_deps'', Fixed 2), (''cols'', Fixed 2), (''lock'', Fixed 8), (''locs'', VarArray 16 ''cols''),
     (''queue_nums'', VarArray 8 ''cols'')]"

definition packet_schema :: "variant list" where
  "packet_schema = [(kRead, read_fields), (kData, single_fields), (kMultiput, multi_fields),
     (kSentinel, senti_fields), (kSingleToReplica, single_to_replica_fields),
     (kMultiputToReplica, multi_to_replica_fields), (kSentinelToReplica, senti_to_replica_fields),
     (kSkeens2ToReplica, skeens2_to_replica_fields), (kGC, gc_fields), (kFenceClient, fence_client_fields),
     (kUpdateRecovery, update_recovery_fields), (kCheckSkeens1, check_skeens1_fields),
     (kSnapshot, snapshot_fields), (kSnapshotToReplica, snapshot_to_replica_fields)]"

lemmas fields_defs = read_fields_def single_fields_def multi_fields_def senti_fields_def
  single_to_replica_fields_def multi_to_replica_fields_def senti_to_replica_fields_def
  skeens2_to_replica_fields_def gc_fields_def fence_client_fields_def update_recovery_fields_def
  check_skeens1_fields_def snapshot_fields_def snapshot_to_replica_fields_def

section \<open>Packets as fields\<close>

definition oi_bytes :: "order_index \<Rightarrow> byte list" where
  "oi_bytes l = le_bytes 8 (fst l) @ le_bytes 8 (snd l)"

definition bytes_oi :: "byte list \<Rightarrow> order_index" where
  "bytes_oi b = (le_nat (take 8 b), le_nat (drop 8 b))"

abbreviation num_field :: "nat \<Rightarrow> string \<Rightarrow> nat \<Rightarrow> string \<times> fval" where
  "num_field w n x \<equiv> (n, FBytes (le_bytes w x))"

abbreviation oi_field :: "string \<Rightarrow> order_index \<Rightarrow> string \<times> fval" where
  "oi_field n l \<equiv> (n, FBytes (oi_bytes l))"

abbreviation flag_field :: "flag \<Rightarrow> string \<times> fval" where
  "flag_field f \<equiv> (''flags'', FBytes [f])"

abbreviation ois_field :: "string \<Rightarrow> order_index list \<Rightarrow> string \<times> fval" where
  "ois_field n ls \<equiv> (n, FArr (map oi_bytes ls))"

abbreviation data_field :: "byte list \<Rightarrow> string \<times> fval" where
  "data_field d \<equiv> (''data'', FArr (map (\<lambda>b. [b]) d))"

abbreviation queue_nums_field :: "u64 list \<Rightarrow> string \<times> fval" where
  "queue_nums_field qs \<equiv> (''queue_nums'', FArr (map (le_bytes 8) qs))"

fun pkt_vals :: "packet \<Rightarrow> (string \<times> fval) list" where
  "pkt_vals (PRead i f db dp l h m) = [num_field 16 ''id'' i, flag_field f, num_field 2 ''data_bytes'' db,
     num_field 2 ''dependency_bytes'' dp, oi_field ''loc'' l, oi_field ''horizon'' h, oi_field ''min'' m]"
| "pkt_vals (PSingle i f l ds d ts) = [num_field 16 ''id'' i, flag_field f, oi_field ''loc'' l,
     ois_field ''deps'' ds, data_field d, num_field 8 ''timestamp'' ts]"
| "pkt_vals (PMulti i f k ls ds d) = [num_field 16 ''id'' i, flag_field f, num_field 8 ''lock'' k,
     ois_field ''locs'' ls, ois_field ''deps'' ds, data_field d]"
| "pkt_vals (PSenti i f db k ls ds) = [num_field 16 ''id'' i, flag_field f, num_field 4 ''data_bytes'' db,
     num_field 8 ''lock'' k, ois_field ''locs'' ls, ois_field ''deps'' ds]"
| "pkt_vals (PSingleToReplica i f l ds d ts q) = [num_field 16 ''id'' i, flag_field f, oi_field ''loc'' l,
     ois_field ''deps'' ds, data_field d, num_field 8 ''timestamp'' ts, num_field 8 ''queue_num'' q]"
| "pkt_vals (PMultiToReplica i f k ls ds d qs) = [num_field 16 ''id'' i, flag_field f, num_field 8 ''lock'' k,
     ois_field ''locs'' ls, ois_field ''deps'' ds, data_field d, queue_nums_field qs]"
| "pkt_vals (PSentiToReplica i f db k ls ds qs) = [num_field 16 ''id'' i, flag_field f,
     num_field 4 ''data_bytes'' db, num_field 8 ''lock'' k, ois_field ''locs'' ls, ois_field ''deps'' ds,
     queue_nums_field qs]"
| "pkt_vals (PSkeens2ToReplica i k l) = [num_field 16 ''id'' i, num_field 8 ''lock'' k, oi_field ''loc'' l]"
| "pkt_vals (PGC i f ls) = [num_field 16 ''id'' i, flag_field f, ois_field ''locs'' ls]"
| "pkt_vals (PFenceClient a b c) = [num_field 16 ''fencing_write'' a, num_field 16 ''client_to_fence'' b,
     num_field 16 ''fencing_client'' c]"
| "pkt_vals (PUpdateRecovery r w f k ls) = [num_field 16 ''old_recoverer'' r, num_field 16 ''write_id'' w,
     flag_field f, num_field 8 ''lock'' k, ois_field ''locs'' ls]"
| "pkt_vals (PCheckSkeens1 i f db dp l) = [num_field 16 ''id'' i, flag_field f, num_field 2 ''data_bytes'' db,
     num_field 2 ''dependency_bytes'' dp, oi_field ''loc'' l]"
| "pkt_vals (PSnapshot i f db nd k ls) = [num_field 16 ''id'' i, flag_field f, num_field 4 ''data_bytes'' db,
     num_field 2 ''num_deps'' nd, num_field 8 ''lock'' k, ois_field ''locs'' ls]"
| "pkt_vals (PSnapshotToReplica i f db nd k ls qs) = [num_field 16 ''id'' i, flag_field f,
     num_field 4 ''data_bytes'' db, num_field 2 ''num_deps'' nd, num_field 8 ''lock'' k, ois_field ''locs'' ls,
     queue_nums_field qs]"

fun pkt_fields :: "packet \<Rightarrow> field list" where
  "pkt_fields (PRead i f db dp l h m) = read_fields"
| "pkt_fields (PSingle i f l ds d ts) = single_fields"
| "pkt_fields (PMulti i f k ls ds d) = multi_fields"
| "pkt_fields (PSenti i f db k ls ds) = senti_fields"
| "pkt_fields (PSingleToReplica i f l ds d ts q) = single_to_replica_fields"
| "pkt_fields (PMultiToReplica i f k ls ds d qs) = multi_to_replica_fields"
| "pkt_fields (PSentiToReplica i f db k ls ds qs) = senti_to_replica_fields"
| "pkt_fields (PSkeens2ToReplica i k l) = skeens2_to_replica_fields"
| "pkt_fields (PGC i f ls) = gc_fields"
| "pkt_fields (PFenceClient a b c) = fence_client_fields"
| "pkt_fields (PUpdateRecovery r w f k ls) = update_recovery_fields"
| "pkt_fields (PCheckSkeens1 i f db dp l) = check_skeens1_fields"
| "pkt_fields (PSnapshot i f db nd k ls) = snapshot_fields"
| "pkt_fields (PSnapshotToReplica i f db nd k ls qs) = snapshot_to_replica_fields"

definition val_bytes :: "(string \<times> fval) list \<Rightarrow> string \<Rightarrow> byte list" where
  "val_bytes vs n = (case map_of vs n of Some v \<Rightarrow> fval_bytes v | None \<Rightarrow> [])"

definition val_items :: "(string \<times> fval) list \<Rightarrow> string \<Rightarrow> byte list list" where
  "val_items vs n = (case map_of vs n of Some (FArr xs) \<Rightarrow> xs | _ \<Rightarrow> [])"

abbreviation val_num :: "(string \<times> fval) list \<Rightarrow> string \<Rightarrow> nat" where
  "val_num vs n \<equiv> le_nat (val_bytes vs n)"

abbreviation val_oi :: "(string \<times> fval) list \<Rightarrow> string \<Rightarrow> order_index" where
  "val_oi vs n \<equiv> bytes_oi (val_bytes vs n)"

abbreviation val_ois :: "(string \<times> fval) list \<Rightarrow> string \<Rightarrow> order_index list" where
  "val_ois vs n \<equiv> map bytes_oi (val_items vs n)"

abbreviation val_flag :: "(string \<times> fval) list \<Rightarrow> flag" where
  "val_flag vs \<equiv> hd (val_bytes vs ''flags'')"

abbreviation val_queue_nums :: "(string \<times> fval) list \<Rightarrow> u64 list" where
  "val_queue_nums vs \<equiv> map le_nat (val_items vs ''queue_nums'')"

text \<open>The typed view of a variant's fields, by its tag.\<close>

definition of_vals :: "kind \<Rightarrow> (string \<times> fval) list \<Rightarrow> packet" where
  "of_vals t vs =
    (if t = kRead then PRead (val_num vs ''id'') (val_flag vs) (val_num vs ''data_bytes'')
        (val_num vs ''dependency_bytes'') (val_oi vs ''loc'') (val_oi vs ''horizon'') (val_oi vs ''min'')
     else if t = kData then PSingle (val_num vs ''id'') (val_flag vs) (val_oi vs ''loc'') (val_ois vs ''deps'')
        (val_bytes vs ''data'') (val_num vs ''timestamp'')
     else if t = kMultiput then PMulti (val_num vs ''id'') (val_flag vs) (val_num vs ''lock'') (val_ois vs ''locs'')
        (val_ois vs ''deps'') (val_bytes vs ''data'')
     else if t = kSentinel then PSenti (val_num vs ''id'') (val_flag vs) (val_num vs ''data_bytes'')
        (val_num vs ''lock'') (val_ois vs ''locs'') (val_ois vs ''deps'')
     else if t = kSingleToReplica then PSingleToReplica (val_num vs ''id'') (val_flag vs) (val_oi vs ''loc'')
        (val_ois vs ''deps'') (val_bytes vs ''data'') (val_num vs ''timestamp'') (val_num vs ''queue_num'')
     else if t = kMultiputToReplica then PMultiToReplica (val_num vs ''id'') (val_flag vs) (val_num vs ''lock'')
        (val_ois vs ''locs'') (val_ois vs ''deps'') (val_bytes vs ''data'') (val_queue_nums vs)
     else if t = kSentinelToReplica then PSentiToReplica (val_num vs ''id'') (val_flag vs) (val_num vs ''data_bytes'')
        (val_num vs ''lock'') (val_ois vs ''locs'') (val_ois vs ''deps'') (val_queue_nums vs)
     else if t = kSkeens2ToReplica then PSkeens2ToReplica (val_num vs ''id'') (val_num vs ''lock'') (val_oi vs ''loc'')
     else if t = kGC then PGC (val_num vs ''id'') (val_flag vs) (val_ois vs ''locs'')
     else if t = kFenceClient then PFenceClient (val_num vs ''fencing_write'') (val_num vs ''client_to_fence'')
        (val_num vs ''fencing_client'')
     else if t = kUpdateRecovery then PUpdateRecovery (val_num vs ''old_recoverer'') (val_num vs ''write_id'')
        (val_flag vs) (val_num vs ''lock'') (val_ois vs ''locs'')
     else if t = kCheckSkeens1 then PCheckSkeens1 (val_num vs ''id'') (val_flag vs) (val_num vs ''data_bytes'')
        (val_num vs ''dependency_bytes'') (val_oi vs ''loc'')
     else if t = kSnapshot then PSnapshot (val_num vs ''id'') (val_flag vs) (val_num vs ''data_bytes'')
        (val_num vs ''num_deps'') (val_num vs ''lock'') (val_ois vs ''locs'')
     else PSnapshotToReplica (val_num vs ''id'') (val_flag vs) (val_num vs ''data_bytes'')
        (val_num vs ''num_deps'') (val_num vs ''lock'') (val_ois vs ''locs'') (val_queue_nums vs))"

section \<open>Reading, writing and sizes\<close>

definition pkt_variant :: "packet \<Rightarrow> variant" where
  "pkt_variant p = (pkt_kind p, pkt_fields p)"

definition to_vec :: "packet \<Rightarrow> byte list" where
  "to_vec p = fill_vec (pkt_variant p) (pkt_vals p)"

definition pkt_len :: "packet \<Rightarrow> nat" where
  "pkt_len p = packet_len (pkt_variant p) (pkt_vals p)"

text \<open>\<open>Ref::try_ref\<close> at the packet type, and \<open>bytes_as_entry\<close>, which unwraps it.\<close>

definition try_packet :: "byte list \<Rightarrow> (wrap_err + packet \<times> byte list) option" where
  "try_packet bytes = do {
     r \<leftarrow> try_ref packet_schema bytes;
     Some (case r of Inl e \<Rightarrow> Inl e | Inr (v, vals, rest) \<Rightarrow> Inr (of_vals (fst v) vals, rest))
   }"

definition bytes_as_entry :: "byte list \<Rightarrow> packet option" where
  "bytes_as_entry bytes = do {
     r \<leftarrow> try_packet bytes;
     (case r of Inl _ \<Rightarrow> None | Inr (p, _) \<Rightarrow> Some p)
   }"

definition data_bytes :: "byte list \<Rightarrow> byte list option" where
  "data_bytes bytes = do { p \<leftarrow> bytes_as_entry bytes; pkt_data p }"

fun sentinel_entry_size :: "packet \<Rightarrow> nat option" where
  "sentinel_entry_size (PMultiToReplica i f k ls ds d qs) = Some (pkt_len (PSenti i f 0 k ls ds))"
| "sentinel_entry_size (PSentiToReplica i f db k ls ds qs) = Some (pkt_len (PSenti i f db k ls ds))"
| "sentinel_entry_size (PMulti i f k ls ds d) = Some (pkt_len (PSenti i f 0 k ls ds))"
| "sentinel_entry_size (PSenti i f db k ls ds) = Some (pkt_len (PSenti i f db k ls ds))"
| "sentinel_entry_size _ = None"

fun non_replicated_len :: "packet \<Rightarrow> nat option" where
  "non_replicated_len (PSingleToReplica i f l ds d ts q) = Some (pkt_len (PSingle i f l ds d ts))"
| "non_replicated_len (PMultiToReplica i f k ls ds d qs) = Some (pkt_len (PMulti i f k ls ds d))"
| "non_replicated_len (PSentiToReplica i f db k ls ds qs) = Some (pkt_len (PSenti i f db k ls ds))"
| "non_replicated_len (PSkeens2ToReplica i k l) = None"
| "non_replicated_len (PFenceClient a b c) = None"
| "non_replicated_len p = Some (pkt_len p)"

section \<open>Changing a packet in place\<close>

text \<open>Indexing the first byte of an empty slice panics; so does the \<open>debug_assert\<close> when the bytes are
  no packet any more.\<close>

definition set_tag :: "kind \<Rightarrow> byte list \<Rightarrow> byte list option" where
  "set_tag k bytes = (case bytes of [] \<Rightarrow> None | b # bs \<Rightarrow> do {
     r \<leftarrow> try_packet (k # bs);
     rust_assert (\<not> isl r);
     Some (k # bs)
   })"

definition slice_to_sentinel :: "byte list \<Rightarrow> (byte list \<times> bool) option" where
  "slice_to_sentinel bytes = (case bytes of [] \<Rightarrow> None | old_kind # _ \<Rightarrow> do {
     bytes' \<leftarrow> set_tag kSentinel bytes;
     Some (bytes', old_kind = kMultiput \<or> old_kind = kMultiputToReplica)
   })"

definition slice_to_multi :: "byte list \<Rightarrow> byte list option" where
  "slice_to_multi bytes = set_tag kMultiput bytes"

definition slice_to_skeens1_multirep :: "byte list \<Rightarrow> byte list option" where
  "slice_to_skeens1_multirep bytes = set_tag kMultiputToReplica bytes"

definition slice_to_skeens1_sentirep :: "byte list \<Rightarrow> byte list option" where
  "slice_to_skeens1_sentirep bytes = set_tag kSentinelToReplica bytes"

definition to_non_replicated :: "byte list \<Rightarrow> byte list option" where
  "to_non_replicated bytes =
     (case bytes of [] \<Rightarrow> None | b # bs \<Rightarrow> Some (bits_remove b kToReplica # bs))"

definition to_replicated :: "byte list \<Rightarrow> byte list option" where
  "to_replicated bytes =
     (case bytes of [] \<Rightarrow> None | b # bs \<Rightarrow> Some (bits_insert b kToReplica # bs))"

section \<open>Packets whose fields fit\<close>

definition oi_fits :: "order_index \<Rightarrow> bool" where
  "oi_fits l \<longleftrightarrow> fst l < 256 ^ 8 \<and> snd l < 256 ^ 8"

definition ois_fit :: "order_index list \<Rightarrow> bool" where
  "ois_fit ls \<longleftrightarrow> length ls < 256 ^ 2 \<and> list_all oi_fits ls"

definition nums_fit :: "order_index list \<Rightarrow> u64 list \<Rightarrow> bool" where
  "nums_fit ls qs \<longleftrightarrow> length qs = length ls \<and> list_all (\<lambda>q. q < 256 ^ 8) qs"

definition data_fits :: "byte list \<Rightarrow> bool" where
  "data_fits d \<longleftrightarrow> length d < 256 ^ 4"

fun packet_fits :: "packet \<Rightarrow> bool" where
  "packet_fits (PRead i f db dp l h m) \<longleftrightarrow>
     i < 256 ^ 16 \<and> db < 256 ^ 2 \<and> dp < 256 ^ 2 \<and> oi_fits l \<and> oi_fits h \<and> oi_fits m"
| "packet_fits (PSingle i f l ds d ts) \<longleftrightarrow> i < 256 ^ 16 \<and> oi_fits l \<and> ois_fit ds \<and> data_fits d \<and> ts < 256 ^ 8"
| "packet_fits (PMulti i f k ls ds d) \<longleftrightarrow> i < 256 ^ 16 \<and> k < 256 ^ 8 \<and> ois_fit ls \<and> ois_fit ds \<and> data_fits d"
| "packet_fits (PSenti i f db k ls ds) \<longleftrightarrow>
     i < 256 ^ 16 \<and> db < 256 ^ 4 \<and> k < 256 ^ 8 \<and> ois_fit ls \<and> ois_fit ds"
| "packet_fits (PSingleToReplica i f l ds d ts q) \<longleftrightarrow>
     i < 256 ^ 16 \<and> oi_fits l \<and> ois_fit ds \<and> data_fits d \<and> ts < 256 ^ 8 \<and> q < 256 ^ 8"
| "packet_fits (PMultiToReplica i f k ls ds d qs) \<longleftrightarrow>
     i < 256 ^ 16 \<and> k < 256 ^ 8 \<and> ois_fit ls \<and> ois_fit ds \<and> data_fits d \<and> nums_fit ls qs"
| "packet_fits (PSentiToReplica i f db k ls ds qs) \<longleftrightarrow>
     i < 256 ^ 16 \<and> db < 256 ^ 4 \<and> k < 256 ^ 8 \<and> ois_fit ls \<and> ois_fit ds \<and> nums_fit ls qs"
| "packet_fits (PSkeens2ToReplica i k l) \<longleftrightarrow> i < 256 ^ 16 \<and> k < 256 ^ 8 \<and> oi_fits l"
| "packet_fits (PGC i f ls) \<longleftrightarrow> i < 256 ^ 16 \<and> ois_fit ls"
| "packet_fits (PFenceClient a b c) \<longleftrightarrow> a < 256 ^ 16 \<and> b < 256 ^ 16 \<and> c < 256 ^ 16"
| "packet_fits (PUpdateRecovery r w f k ls) \<longleftrightarrow> r < 256 ^ 16 \<and> w < 256 ^ 16 \<and> k < 256 ^ 8 \<and> ois_fit ls"
| "packet_fits (PCheckSkeens1 i f db dp l) \<longleftrightarrow> i < 256 ^ 16 \<and> db < 256 ^ 2 \<and> dp < 256 ^ 2 \<and> oi_fits l"
| "packet_fits (PSnapshot i f db nd k ls) \<longleftrightarrow>
     i < 256 ^ 16 \<and> db < 256 ^ 4 \<and> nd < 256 ^ 2 \<and> k < 256 ^ 8 \<and> ois_fit ls"
| "packet_fits (PSnapshotToReplica i f db nd k ls qs) \<longleftrightarrow>
     i < 256 ^ 16 \<and> db < 256 ^ 4 \<and> nd < 256 ^ 2 \<and> k < 256 ^ 8 \<and> ois_fit ls \<and> nums_fit ls qs"

lemma oi_bytes_length [simp]: "length (oi_bytes l) = 16"
  by (simp add: oi_bytes_def)

lemma bytes_oi_bytes: "oi_fits l \<Longrightarrow> bytes_oi (oi_bytes l) = l"
  by (simp add: bytes_oi_def oi_bytes_def le_nat_le_bytes oi_fits_def)

lemma ois_bytes [simp]: "ois_fit ls \<Longrightarrow> map (bytes_oi \<circ> oi_bytes) ls = ls"
  by (rule map_idI) (simp add: bytes_oi_bytes ois_fit_def list_all_iff)

lemma queue_nums_bytes: "nums_fit ls qs \<Longrightarrow> map (le_nat \<circ> le_bytes 8) qs = qs"
  by (rule map_idI) (simp add: le_nat_le_bytes nums_fit_def list_all_iff)

lemma concat_singletons [simp]: "concat (map (\<lambda>b. [b]) d) = d"
  by (induction d) auto

lemma packet_schema_kinds: "distinct (map fst packet_schema)"
  by (simp add: packet_schema_def kind_values)

lemma packet_schema_fields: "list_all (\<lambda>v. schema_ok (snd v)) packet_schema"
  by (simp add: packet_schema_def fields_defs schema_ok_def is_size_var_def)

lemma packet_schema_ok [simp]: "packet_schema_ok packet_schema"
  unfolding packet_schema_ok_def using packet_schema_kinds packet_schema_fields by blast

lemma pkt_variant_in [simp]: "pkt_variant p \<in> set packet_schema"
  by (cases p) (simp_all add: pkt_variant_def packet_schema_def)

lemmas codec_defs = vals_ok_def field_ok_def counters_def is_size_var_def

lemma pkt_vals_ok: "packet_fits p \<Longrightarrow> vals_ok (pkt_fields p) (pkt_vals p)"
  by (cases p) (simp_all add: fields_defs codec_defs list_all_iff ois_fit_def data_fits_def nums_fit_def)

lemma of_pkt_vals: "packet_fits p \<Longrightarrow> of_vals (pkt_kind p) (pkt_vals p) = p"
  by (cases p) (auto simp: of_vals_def kind_values val_bytes_def val_items_def le_nat_le_bytes bytes_oi_bytes
      intro: queue_nums_bytes)

lemma try_packet_to_vec: "packet_fits p \<Longrightarrow> try_packet (to_vec p @ rest) = Some (Inr (p, rest))"
  using codec_read [OF packet_schema_ok pkt_variant_in, of p "pkt_vals p" rest] pkt_vals_ok [of p]
  by (simp add: try_packet_def to_vec_def pkt_variant_def of_pkt_vals)

lemma to_vec_length: "packet_fits p \<Longrightarrow> length (to_vec p) = pkt_len p"
  using fill_vec_length [of "pkt_variant p" "pkt_vals p"] pkt_vals_ok [of p]
  by (simp add: to_vec_def pkt_len_def pkt_variant_def)

lemma concat_oi_length [simp]: "length (concat (map oi_bytes ls)) = 16 * length ls"
  by (induction ls) auto

lemma concat_num_length [simp]: "length (concat (map (le_bytes 8) qs)) = 8 * length qs"
  by (induction qs) auto

definition senti_body :: "uuid \<Rightarrow> flag \<Rightarrow> nat \<Rightarrow> u64 \<Rightarrow> order_index list \<Rightarrow> order_index list \<Rightarrow> byte list" where
  "senti_body i f db k ls ds = le_bytes 16 i @ [f] @ le_bytes 4 db @ le_bytes 2 (length ds) @ le_bytes 2 (length ls) @
     le_bytes 8 k @ concat (map oi_bytes ls) @ concat (map oi_bytes ds)"

definition single_body :: "uuid \<Rightarrow> flag \<Rightarrow> order_index \<Rightarrow> order_index list \<Rightarrow> byte list \<Rightarrow> u64 \<Rightarrow> byte list" where
  "single_body i f l ds d ts = le_bytes 16 i @ [f] @ le_bytes 4 (length d) @ le_bytes 2 (length ds) @ oi_bytes l @
     concat (map oi_bytes ds) @ d @ le_bytes 8 ts"

definition snap_body :: "uuid \<Rightarrow> flag \<Rightarrow> nat \<Rightarrow> nat \<Rightarrow> u64 \<Rightarrow> order_index list \<Rightarrow> byte list" where
  "snap_body i f db nd k ls = le_bytes 16 i @ [f] @ le_bytes 4 db @ le_bytes 2 nd @ le_bytes 2 (length ls) @
     le_bytes 8 k @ concat (map oi_bytes ls)"

lemmas fill_defs = to_vec_def pkt_variant_def fill_vec_def fill_field_def fields_defs counters_def is_size_var_def

lemma to_vec_layouts:
  "to_vec (PSingle i f l ds d ts) = kData # single_body i f l ds d ts"
  "to_vec (PSingleToReplica i f l ds d ts q) = kSingleToReplica # single_body i f l ds d ts @ le_bytes 8 q"
  "to_vec (PSenti i f db k ls ds) = kSentinel # senti_body i f db k ls ds"
  "to_vec (PMulti i f k ls ds d) = kMultiput # senti_body i f (length d) k ls ds @ d"
  "to_vec (PSnapshot i f db nd k ls) = kSnapshot # snap_body i f db nd k ls"
  by (simp_all add: fill_defs single_body_def senti_body_def snap_body_def)

lemma to_vec_replica_layouts:
  assumes "length qs = length ls"
  shows "to_vec (PMultiToReplica i f k ls ds d qs) =
      kMultiputToReplica # senti_body i f (length d) k ls ds @ d @ concat (map (le_bytes 8) qs)"
    "to_vec (PSentiToReplica i f db k ls ds qs) =
      kSentinelToReplica # senti_body i f db k ls ds @ concat (map (le_bytes 8) qs)"
    "to_vec (PSnapshotToReplica i f db nd k ls qs) =
      kSnapshotToReplica # snap_body i f db nd k ls @ concat (map (le_bytes 8) qs)"
  using assms by (simp_all add: fill_defs senti_body_def snap_body_def)

text \<open>The queue numbers a replicated packet carries: one for a single, one for each chain otherwise.\<close>

fun replica_nums :: "packet \<Rightarrow> u64 list" where
  "replica_nums (PSingleToReplica i f l ds d ts q) = [q]"
| "replica_nums r = (case queue_nums r of Some qs \<Rightarrow> qs | None \<Rightarrow> [])"

text \<open>C32: every packet of the protocol whose fields fit their wire types is read back from the bytes
  \<open>fill_vec\<close> writes for it, whatever follows them, and occupies \<open>len\<close> bytes.\<close>

theorem packet_roundtrip:
  assumes "packet_fits p"
  shows "try_packet (to_vec p @ rest) = Some (Inr (p, rest)) \<and> length (to_vec p) = pkt_len p"
  using try_packet_to_vec [OF assms] to_vec_length [OF assms] by blast

theorem packet_roundtrip_witness:
  "try_packet (to_vec (PSingle 7 1 (2, 3) [(1, 1)] [65, 66] 9) @ [5]) =
    Some (Inr (PSingle 7 1 (2, 3) [(1, 1)] [65, 66] 9, [5])) \<and>
   length (to_vec (PSingle 7 1 (2, 3) [(1, 1)] [65, 66] 9)) = pkt_len (PSingle 7 1 (2, 3) [(1, 1)] [65, 66] 9)"
  by (rule packet_roundtrip) (simp add: oi_fits_def ois_fit_def data_fits_def)

text \<open>C37: a replica's copy is the packet itself: clearing the replication bit of the tag of a replicated
  single, multi, sentinel or snapshot packet leaves, in place, the unreplicated packet (\<open>to_unreplica\<close>)
  followed by the little-endian bytes of exactly its queue numbers, one for a single and one for each chain
  otherwise; the unreplicated packet is what is read from the front.\<close>

theorem to_non_replicated_strips:
  assumes "packet_fits r" "to_unreplica r = Some p"
  shows "to_non_replicated (to_vec r) = Some (to_vec p @ concat (map (le_bytes 8) (replica_nums r))) \<and>
    try_packet (to_vec p @ concat (map (le_bytes 8) (replica_nums r))) =
      Some (Inr (p, concat (map (le_bytes 8) (replica_nums r))))"
proof -
  have fits: "packet_fits p" using assms by (cases r) auto
  have "to_non_replicated (to_vec r) = Some (to_vec p @ concat (map (le_bytes 8) (replica_nums r)))"
    using assms
    by (cases r) (auto simp: to_vec_layouts to_vec_replica_layouts to_non_replicated_def bits_remove_def kind_values nums_fit_def)
  then show ?thesis using try_packet_to_vec [OF fits] by simp
qed

lemma le_bytes_zero: "le_bytes n 0 = replicate n 0"
  by (induction n) simp_all

lemma le_bytes_small: "0 < n \<Longrightarrow> x < 256 \<Longrightarrow> le_bytes n x = word_of_nat x # replicate (n - 1) 0"
  by (cases n) (simp_all add: le_bytes_zero)

theorem to_non_replicated_strips_witness:
  "\<exists>nums. nums = 5 # replicate 7 0 @ 6 # replicate 7 0 \<and>
    to_non_replicated (to_vec (PSnapshotToReplica 7 1 0 0 4 [(1, 0), (2, 0)] [5, 6])) =
      Some (to_vec (PSnapshot 7 1 0 0 4 [(1, 0), (2, 0)]) @ nums) \<and>
    try_packet (to_vec (PSnapshot 7 1 0 0 4 [(1, 0), (2, 0)]) @ nums) =
      Some (Inr (PSnapshot 7 1 0 0 4 [(1, 0), (2, 0)], nums))"
proof -
  have le: "concat (map (le_bytes 8) (replica_nums (PSnapshotToReplica 7 1 0 0 4 [(1, 0), (2, 0)] [5, 6]))) =
      5 # replicate 7 0 @ 6 # replicate 7 0" by (simp add: le_bytes_small)
  have "packet_fits (PSnapshotToReplica 7 1 0 0 4 [(1, 0), (2, 0)] [5, 6])"
    by (simp add: oi_fits_def ois_fit_def nums_fit_def)
  from to_non_replicated_strips [OF this to_unreplica.simps(3)] show ?thesis unfolding le by blast
qed

text \<open>C36: a multi-append becomes its sentinel in place and back: the bytes under the sentinel tag read as
  the sentinel of the same write, announcing as many data bytes as follow it, the write's data is what is
  left over, and restoring the tag restores the packet.\<close>

theorem sentinel_in_place:
  assumes "packet_fits (PMulti i f k ls ds d)"
  shows "\<exists>bs. slice_to_sentinel (to_vec (PMulti i f k ls ds d)) = Some (bs, True) \<and>
    try_packet bs = Some (Inr (PSenti i f (length d) k ls ds, d)) \<and>
    slice_to_multi bs = Some (to_vec (PMulti i f k ls ds d)) \<and>
    sentinel_entry_size (PMulti i f k ls ds d) = Some (length bs - length d)"
proof -
  let ?s = "PSenti i f (length d) k ls ds" and ?m = "PMulti i f k ls ds d"
  have fits: "packet_fits ?s" using assms by (simp add: data_fits_def)
  have rd: "try_packet (to_vec ?s @ d) = Some (Inr (?s, d))" by (rule try_packet_to_vec [OF fits])
  have rm: "try_packet (to_vec ?m) = Some (Inr (?m, []))" using try_packet_to_vec [OF assms, of "[]"] by simp
  have "slice_to_sentinel (to_vec ?m) = Some (to_vec ?s @ d, True)"
    using rd by (simp add: slice_to_sentinel_def set_tag_def to_vec_layouts)
  moreover have "slice_to_multi (to_vec ?s @ d) = Some (to_vec ?m)"
    using rm by (simp add: slice_to_multi_def set_tag_def to_vec_layouts)
  moreover have "pkt_len (PSenti i f 0 k ls ds) = length (to_vec ?s)"
    using to_vec_length [of "PSenti i f 0 k ls ds"] assms by (simp add: to_vec_layouts senti_body_def)
  ultimately show ?thesis using rd by simp
qed

theorem sentinel_in_place_witness:
  "\<exists>bs. slice_to_sentinel (to_vec (PMulti 7 2 0 [(1, 0), (0, 0), (2, 0)] [] [65])) = Some (bs, True) \<and>
    try_packet bs = Some (Inr (PSenti 7 2 (length [65 :: byte]) 0 [(1, 0), (0, 0), (2, 0)] [], [65])) \<and>
    slice_to_multi bs = Some (to_vec (PMulti 7 2 0 [(1, 0), (0, 0), (2, 0)] [] [65])) \<and>
    sentinel_entry_size (PMulti 7 2 0 [(1, 0), (0, 0), (2, 0)] [] [65]) = Some (length bs - length [65 :: byte])"
  by (rule sentinel_in_place) (simp add: oi_fits_def ois_fit_def data_fits_def)

text \<open>Which packets have a layout: \<open>layout\<close> panics exactly on the packets servers exchange about
  recovery and on the replica forms of phase two and of snapshots.\<close>

theorem layout_panics_iff:
  "pkt_layout p = None \<longleftrightarrow>
    pkt_kind p \<in> {kSkeens2ToReplica, kFenceClient, kUpdateRecovery, kCheckSkeens1, kSnapshotToReplica}"
  by (cases p) (simp_all add: pkt_layout_def kind_layout_def kind_values)

text \<open>C39: the length \<open>non_replicated_len\<close> gives for a replicated packet is the length of the unreplicated
  one for singles, multis and sentinels; of a snapshot it is the replicated length, eight bytes per chain
  more than the snapshot takes.\<close>

theorem non_replicated_len_spec:
  assumes "packet_fits r" "to_unreplica r = Some p"
  shows "non_replicated_len r =
    Some (if pkt_kind r = kSnapshotToReplica then length (to_vec p) + 8 * length (the (pkt_locs r))
          else length (to_vec p))"
proof -
  have fits: "packet_fits p" using assms by (cases r) auto
  show ?thesis using assms to_vec_length [OF fits] to_vec_length [OF assms(1)]
    by (cases r) (auto simp: kind_values nums_fit_def to_vec_layouts(5) to_vec_replica_layouts(3))
qed

theorem non_replicated_len_spec_witness:
  "non_replicated_len (PSnapshotToReplica 7 1 0 0 4 [(1, 0), (2, 0)] [5, 6]) =
    Some (length (to_vec (PSnapshot 7 1 0 0 4 [(1, 0), (2, 0)])) + 16)"
  using non_replicated_len_spec [of "PSnapshotToReplica 7 1 0 0 4 [(1, 0), (2, 0)] [5, 6]" "PSnapshot 7 1 0 0 4 [(1, 0), (2, 0)]"]
  by (simp add: oi_fits_def ois_fit_def nums_fit_def)

end
