(* ===== verification/Server_Types.thy ===== *)
theory Server_Types
  imports Skeens_Trace Byte_Trie Packet_Wire
begin

text \<open>
  The data the server's ordering thread works on (\<^verbatim>\<open>fuzzy_log_server/src/lib.rs\<close> and the append slots
  of \<^verbatim>\<open>trie.rs\<close>): a chain is a trie of entries, the allocator behind it and the chain's Skeens state;
  the server is its chains, the storages shared with the workers and the messages sent to them. A pointer
  into a chain's trie is a place of that trie; messages also carry the chain it belongs to. Buffers are
  the packets in them, and the assignments through \<open>Packet::Mut\<close> are updates of the packet.
\<close>

section \<open>Assignments to packets\<close>

fun flag_mut :: "packet \<Rightarrow> (flag \<Rightarrow> flag) \<Rightarrow> packet option" where
  "flag_mut (PRead i f db dp l h m) u = Some (PRead i (u f) db dp l h m)"
| "flag_mut (PSingle i f l ds d ts) u = Some (PSingle i (u f) l ds d ts)"
| "flag_mut (PMulti i f k ls ds d) u = Some (PMulti i (u f) k ls ds d)"
| "flag_mut (PSenti i f db k ls ds) u = Some (PSenti i (u f) db k ls ds)"
| "flag_mut (PSingleToReplica i f l ds d ts q) u = Some (PSingleToReplica i (u f) l ds d ts q)"
| "flag_mut (PMultiToReplica i f k ls ds d qs) u = Some (PMultiToReplica i (u f) k ls ds d qs)"
| "flag_mut (PSentiToReplica i f db k ls ds qs) u = Some (PSentiToReplica i (u f) db k ls ds qs)"
| "flag_mut (PSkeens2ToReplica i k l) u = None"
| "flag_mut (PGC i f ls) u = Some (PGC i (u f) ls)"
| "flag_mut (PFenceClient a b c) u = None"
| "flag_mut (PUpdateRecovery r w f k ls) u = Some (PUpdateRecovery r w (u f) k ls)"
| "flag_mut (PCheckSkeens1 i f db dp l) u = Some (PCheckSkeens1 i (u f) db dp l)"
| "flag_mut (PSnapshot i f db nd k ls) u = Some (PSnapshot i (u f) db nd k ls)"
| "flag_mut (PSnapshotToReplica i f db nd k ls qs) u = Some (PSnapshotToReplica i (u f) db nd k ls qs)"

abbreviation set_flag :: "packet \<Rightarrow> flag \<Rightarrow> packet option" where
  "set_flag p m \<equiv> flag_mut p (\<lambda>f. bits_insert f m)"

text \<open>The slice of locations has the length it had; a packet with one location has a slice of one.\<close>

fun locs_mut :: "packet \<Rightarrow> order_index list \<Rightarrow> packet option" where
  "locs_mut (PRead i f db dp l h m) ls' = Some (PRead i f db dp (hd ls') h m)"
| "locs_mut (PSingle i f l ds d ts) ls' = Some (PSingle i f (hd ls') ds d ts)"
| "locs_mut (PSingleToReplica i f l ds d ts q) ls' = Some (PSingleToReplica i f (hd ls') ds d ts q)"
| "locs_mut (PSkeens2ToReplica i k l) ls' = Some (PSkeens2ToReplica i k (hd ls'))"
| "locs_mut (PCheckSkeens1 i f db dp l) ls' = Some (PCheckSkeens1 i f db dp (hd ls'))"
| "locs_mut (PMulti i f k ls ds d) ls' = Some (PMulti i f k ls' ds d)"
| "locs_mut (PSenti i f db k ls ds) ls' = Some (PSenti i f db k ls' ds)"
| "locs_mut (PMultiToReplica i f k ls ds d qs) ls' = Some (PMultiToReplica i f k ls' ds d qs)"
| "locs_mut (PSentiToReplica i f db k ls ds qs) ls' = Some (PSentiToReplica i f db k ls' ds qs)"
| "locs_mut (PGC i f ls) ls' = Some (PGC i f ls')"
| "locs_mut (PUpdateRecovery r w f k ls) ls' = Some (PUpdateRecovery r w f k ls')"
| "locs_mut (PSnapshot i f db nd k ls) ls' = Some (PSnapshot i f db nd k ls')"
| "locs_mut (PSnapshotToReplica i f db nd k ls qs) ls' = Some (PSnapshotToReplica i f db nd k ls' qs)"
| "locs_mut (PFenceClient a b c) ls' = None"

fun lock_mut :: "packet \<Rightarrow> u64 \<Rightarrow> packet option" where
  "lock_mut (PMulti i f k ls ds d) k' = Some (PMulti i f k' ls ds d)"
| "lock_mut (PSenti i f db k ls ds) k' = Some (PSenti i f db k' ls ds)"
| "lock_mut (PSkeens2ToReplica i k l) k' = Some (PSkeens2ToReplica i k' l)"
| "lock_mut (PMultiToReplica i f k ls ds d qs) k' = Some (PMultiToReplica i f k' ls ds d qs)"
| "lock_mut (PSentiToReplica i f db k ls ds qs) k' = Some (PSentiToReplica i f db k' ls ds qs)"
| "lock_mut (PUpdateRecovery r w f k ls) k' = Some (PUpdateRecovery r w f k' ls)"
| "lock_mut (PSnapshot i f db nd k ls) k' = Some (PSnapshot i f db nd k' ls)"
| "lock_mut (PSnapshotToReplica i f db nd k ls qs) k' = Some (PSnapshotToReplica i f db nd k' ls qs)"
| "lock_mut (PSingle i f l ds d ts) k' = Some (PSingle i f l ds d k')"
| "lock_mut (PSingleToReplica i f l ds d ts q) k' = Some (PSingleToReplica i f l ds d k' q)"
| "lock_mut (PRead i f db dp l h m) k' = None"
| "lock_mut (PGC i f ls) k' = None"
| "lock_mut (PFenceClient a b c) k' = None"
| "lock_mut (PCheckSkeens1 i f db dp l) k' = None"

section \<open>Chains\<close>

record 't chain =
  c_trie :: trie
  c_alloc :: byte_trie
  c_skeens :: "'t skeens_state"

record append_slot =
  trie_entry :: place
  data_ptr :: val_edge
  data_size :: nat
  storage_loc :: u64

definition partial_append :: "'t chain \<Rightarrow> nat \<Rightarrow> (append_slot \<times> 't chain) option" where
  "partial_append c sz = do {
     (val_ptr, loc, al) \<leftarrow> alloc_reserve_space (c_alloc c) sz;
     (_, sl, tr) \<leftarrow> prep_append (c_trie c) 0;
     Some (\<lparr>trie_entry = PCell (fst sl) (snd sl), data_ptr = val_ptr, data_size = sz, storage_loc = loc\<rparr>,
           c\<lparr>c_trie := tr, c_alloc := al\<rparr>)
   }"

definition partial_append_at :: "'t chain \<Rightarrow> u64 \<Rightarrow> u64 \<Rightarrow> nat \<Rightarrow> (append_slot \<times> 't chain) option" where
  "partial_append_at c key storage_start storage_size = do {
     (pl, tr) \<leftarrow> prep_append_at (c_trie c) key;
     (val_ptr, al) \<leftarrow> alloc_at (c_alloc c) storage_start storage_size;
     Some (\<lparr>trie_entry = pl, data_ptr = val_ptr, data_size = storage_size, storage_loc = storage_start\<rparr>,
           c\<lparr>c_trie := tr, c_alloc := al\<rparr>)
   }"

definition reserve_space :: "'t chain \<Rightarrow> nat \<Rightarrow> (val_edge \<times> u64 \<times> 't chain) option" where
  "reserve_space c sz = do {
     (v, loc, al) \<leftarrow> alloc_reserve_space (c_alloc c) sz;
     Some (v, loc, c\<lparr>c_alloc := al\<rparr>)
   }"

definition reserve_space_at :: "'t chain \<Rightarrow> u64 \<Rightarrow> nat \<Rightarrow> (val_edge \<times> 't chain) option" where
  "reserve_space_at c storage_start sz = do {
     (v, al) \<leftarrow> alloc_at (c_alloc c) storage_start sz;
     Some (v, c\<lparr>c_alloc := al\<rparr>)
   }"

definition atomic_store :: "'t chain \<Rightarrow> place \<Rightarrow> val_edge \<Rightarrow> 't chain" where
  "atomic_store c pl v = c\<lparr>c_trie := write_place (c_trie c) pl v\<rparr>"

definition copy_to :: "'t chain \<Rightarrow> val_edge \<Rightarrow> byte list \<Rightarrow> 't chain" where
  "copy_to c v bytes = c\<lparr>c_alloc := mem_write (c_alloc c) (val_ptr v) bytes\<rparr>"

definition write_byte :: "'t chain \<Rightarrow> append_slot \<Rightarrow> byte \<Rightarrow> 't chain option" where
  "write_byte c sl data = do {
     rust_assert (data_size sl = 1);
     rust_assert (storage_loc sl = 0);
     Some (atomic_store (copy_to c (data_ptr sl) [data]) (trie_entry sl) (data_ptr sl))
   }"

definition finish_append_with_contents :: "'t chain \<Rightarrow> append_slot \<Rightarrow> packet \<Rightarrow> 't chain option" where
  "finish_append_with_contents c sl data = do {
     rust_assert (data_size sl = pkt_len data);
     Some (atomic_store (copy_to c (data_ptr sl) (to_vec data)) (trie_entry sl) (data_ptr sl))
   }"

definition chain_get :: "'t chain \<Rightarrow> u64 \<Rightarrow> val_edge option" where
  "chain_get c k = trie_get (c_trie c) k"

text \<open>\<open>Packet::wrap_bytes\<close>; 2 to the 64 retries are more than a packet has bytes.\<close>

definition packet_bytes :: "(nat \<Rightarrow> byte) \<Rightarrow> byte list option" where
  "packet_bytes ld = do {
     r \<leftarrow> wrap_bytes packet_schema ld (2 ^ 64);
     (case r of Inl _ \<Rightarrow> None | Inr bytes \<Rightarrow> Some bytes)
   }"

section \<open>The server\<close>

text \<open>
  An \<open>RcSlice\<close> is its address; the bytes behind it are in a heap of their own. Its addresses lie from
  \<open>rc_base\<close> up, apart from the memory of the chains. A new slice is not initialised; here it is zero.
\<close>

type_synonym rc_heap = "nat \<Rightarrow> byte list"

definition rc_base :: nat where
  "rc_base = 2 ^ 63"

text \<open>\<open>SkeensMultiStorage\<close>; the pointer array is what the fast path keeps in the bytes of the second slice.\<close>

record multi_storage =
  ms_timestamps :: "u64 list"
  ms_queue_indicies :: "u64 list"
  ms_st0 :: nat
  ms_st1 :: "nat option"
  ms_pointers :: "(order \<times> place) option list"

definition multi_storage_new ::
  "nat \<Rightarrow> nat \<Rightarrow> nat option \<Rightarrow> nat \<Rightarrow> nat \<Rightarrow> rc_heap \<Rightarrow> multi_storage \<times> rc_heap" where
  "multi_storage_new num_locs entry_size sentinel_size a0 a1 h =
     (\<lparr>ms_timestamps = replicate num_locs 0, ms_queue_indicies = replicate num_locs 0,
       ms_st0 = a0, ms_st1 = map_option (\<lambda>_. a1) sentinel_size,
       ms_pointers = (case sentinel_size of None \<Rightarrow> [] | Some s \<Rightarrow> replicate s None)\<rparr>,
      case sentinel_size of
        None \<Rightarrow> h(a0 := replicate entry_size 0)
      | Some s \<Rightarrow> h(a0 := replicate entry_size 0, a1 := replicate s 0))"

datatype ('l, 'r) troption = TroNone | TroLeft 'l | TroRight 'r

fun unwrap_left :: "('l, 'r) troption \<Rightarrow> 'l option" where
  "unwrap_left (TroLeft l) = Some l"
| "unwrap_left _ = None"

fun unwrap_right :: "('l, 'r) troption \<Rightarrow> 'r option" where
  "unwrap_right (TroRight r) = Some r"
| "unwrap_right _ = None"

text \<open>The pair of slices of the older lock protocol.\<close>

type_synonym rc_slices = "nat \<times> nat"

type_synonym trie_slot = "(order \<times> place) option"

datatype 't to_worker =
    TwWrite packet order append_slot 't
  | TwMultiReplica packet rc_slices "trie_slot list" 't nat
  | TwMultiFastPath packet storage_ptr 't
  | TwSkeens1 packet storage_ptr 't
  | TwSkeensFinished order_index trie_slot storage_ptr u64 't
  | TwSnapSkeensFinished order_index storage_ptr u64 't
  | TwSnapshotSkeens1 packet storage_ptr 't
  | TwSnapshotSkeens1Replica packet storage_ptr 't
  | TwSingleServerSkeens1 storage_ptr 't
  | TwSingleSkeens packet order val_edge u64 u64 u64 't
  | TwDelayedSingle u64 trie_slot val_edge u64 't
  | TwSkeens1Replica packet storage_ptr 't
  | TwSkeens2MultiReplica order_index trie_slot u64 storage_ptr 't
  | TwSkeens2SnapReplica order_index u64 storage_ptr 't
  | TwSkeens1SingleReplica packet order val_edge u64 't
  | TwSkeens2SingleReplica u64 trie_slot val_edge u64 't
  | TwRead order val_edge packet 't
  | TwEmptyRead entry packet 't
  | TwReply packet 't
  | TwReturnBuffer packet 't
  | TwGotRecovery packet 't
  | TwDidntGetRecovery packet uuid 't
  | TwContinueRecovery packet 't
  | TwEndRecovery packet 't

fun get_associated_data :: "'t to_worker \<Rightarrow> 't" where
  "get_associated_data (TwWrite b o' sl t) = t"
| "get_associated_data (TwMultiReplica b st ps t n) = t"
| "get_associated_data (TwMultiFastPath b st t) = t"
| "get_associated_data (TwSkeens1 b st t) = t"
| "get_associated_data (TwSkeensFinished l sl st ts t) = t"
| "get_associated_data (TwSnapSkeensFinished l st ts t) = t"
| "get_associated_data (TwSnapshotSkeens1 b st t) = t"
| "get_associated_data (TwSnapshotSkeens1Replica b st t) = t"
| "get_associated_data (TwSingleServerSkeens1 st t) = t"
| "get_associated_data (TwSingleSkeens b o' st loc time q t) = t"
| "get_associated_data (TwDelayedSingle i sl st ts t) = t"
| "get_associated_data (TwSkeens1Replica b st t) = t"
| "get_associated_data (TwSkeens2MultiReplica l sl ts st t) = t"
| "get_associated_data (TwSkeens2SnapReplica l ts st t) = t"
| "get_associated_data (TwSkeens1SingleReplica b o' st loc t) = t"
| "get_associated_data (TwSkeens2SingleReplica i sl st ts t) = t"
| "get_associated_data (TwRead o' v b t) = t"
| "get_associated_data (TwEmptyRead e b t) = t"
| "get_associated_data (TwReply b t) = t"
| "get_associated_data (TwReturnBuffer b t) = t"
| "get_associated_data (TwGotRecovery b t) = t"
| "get_associated_data (TwDidntGetRecovery b i t) = t"
| "get_associated_data (TwContinueRecovery b t) = t"
| "get_associated_data (TwEndRecovery b t) = t"

record 't server_log =
  log_chains :: "order \<rightharpoonup> 't chain"
  total_servers :: nat
  this_server_num :: nat
  to_workers :: "'t to_worker list"
  storages :: "storage_ptr \<Rightarrow> multi_storage"
  rc_slices_mem :: rc_heap

definition send_to_worker :: "'t server_log \<Rightarrow> 't to_worker \<Rightarrow> 't server_log" where
  "send_to_worker s m = s\<lparr>to_workers := to_workers s @ [m]\<rparr>"

definition set_chain :: "'t server_log \<Rightarrow> order \<Rightarrow> 't chain \<Rightarrow> 't server_log" where
  "set_chain s o' c = s\<lparr>log_chains := (log_chains s)(o' \<mapsto> c)\<rparr>"

definition server_new ::
  "nat \<Rightarrow> nat \<Rightarrow> (storage_ptr \<Rightarrow> multi_storage) \<Rightarrow> rc_heap \<Rightarrow> 't server_log option" where
  "server_new this_server servers st h = do {
     rust_assert (this_server \<le> servers);
     Some \<lparr>log_chains = Map.empty, total_servers = servers, this_server_num = this_server, to_workers = [],
           storages = st, rc_slices_mem = h\<rparr>
   }"

text \<open>\<open>chain % total_servers\<close> panics when there are no servers.\<close>

definition stores_chain :: "'t server_log \<Rightarrow> order \<Rightarrow> bool option" where
  "stores_chain s chain = do {
     rust_assert (total_servers s \<noteq> 0);
     Some (chain mod total_servers s = this_server_num s)
   }"

text \<open>The byte at an offset from an entry's pointer: in a reference-counted slice or in the chain's memory.\<close>

definition load :: "'t server_log \<Rightarrow> order \<Rightarrow> val_edge \<Rightarrow> nat \<Rightarrow> byte" where
  "load s o' v i =
     (if rc_base \<le> val_ptr v then
        (let bytes = rc_slices_mem s (val_ptr v) in if i < length bytes then bytes ! i else 0)
      else case log_chains s o' of None \<Rightarrow> 0 | Some c \<Rightarrow> mem (c_alloc c) (val_ptr v + i))"

end
