(* ===== verification/Ordering.thy ===== *)
theory Ordering
  imports Server_Types
begin

text \<open>
  The ordering thread (\<^verbatim>\<open>fuzzy_log_server/src/ordering_thread.rs\<close>): the operations of a chain, and the
  handlers of reads, single appends, multi-appends and snapshots. A handler is a function of the server's
  state; what it sends to the workers is appended to the state's messages. The callback of the Skeens
  flush is a walk over the appends the flush delivers.
\<close>

section \<open>A chain\<close>

definition needs_skeens_single :: "'t chain \<Rightarrow> bool" where
  "needs_skeens_single c \<longleftrightarrow> \<not> skeens_is_empty (c_skeens c)"

definition handle_skeens_single ::
  "'t chain \<Rightarrow> packet \<Rightarrow> u64 \<Rightarrow> 't \<Rightarrow> ((val_edge \<times> u64 \<times> u64 \<times> u64) \<times> 't chain) option" where
  "handle_skeens_single c buffer timestamp t = do {
     (slot, loc, c) \<leftarrow> reserve_space c (pkt_len buffer);
     (r, sk) \<leftarrow> add_single_append (c_skeens c) (pkt_id buffer) timestamp slot t;
     (case r of
        NewAppend ts queue_num \<Rightarrow> Some ((slot, loc, ts, queue_num), c\<lparr>c_skeens := sk\<rparr>)
      | _ \<Rightarrow> None)
   }"

text \<open>The buffer's location becomes the index the entry gets.\<close>

definition append_data :: "'t chain \<Rightarrow> packet \<Rightarrow> (append_slot \<times> packet \<times> 't chain) option" where
  "append_data c buffer = do {
     let index = trie_len (c_trie c);
     val \<leftarrow> set_flag buffer fReadSuccess;
     locs \<leftarrow> pkt_locs val;
     (case locs of
        [] \<Rightarrow> None
      | (o', _) # ls \<Rightarrow> do {
          val \<leftarrow> locs_mut val ((o', index) # ls);
          (sl, c) \<leftarrow> partial_append c (pkt_len val);
          Some (sl, val, c)
        })
   }"

definition write_data :: "'t chain \<Rightarrow> entry \<Rightarrow> nat \<Rightarrow> (append_slot \<times> 't chain) option" where
  "write_data c location sz =
     (if trie_len (c_trie c) = location then partial_append c sz
      else partial_append_at c location u64_max sz)"

definition timestamp_for_multi ::
  "'t chain \<Rightarrow> uuid \<Rightarrow> storage_ptr \<Rightarrow> bool \<Rightarrow> 't \<Rightarrow> ((u64 + u64 \<times> u64) \<times> 't chain) option" where
  "timestamp_for_multi c uid storage is_sentinel t = do {
     (r, sk) \<leftarrow> add_multi_append (c_skeens c) uid storage is_sentinel t;
     Some (case r of NewAppend ts num \<Rightarrow> Inr (ts, num) | OldPhase1 ts \<Rightarrow> Inl ts | ResPhase2 ts \<Rightarrow> Inl ts,
           c\<lparr>c_skeens := sk\<rparr>)
   }"

definition timestamp_for_snap ::
  "'t chain \<Rightarrow> uuid \<Rightarrow> storage_ptr \<Rightarrow> 't \<Rightarrow> ((u64 + u64 \<times> u64) \<times> 't chain) option" where
  "timestamp_for_snap c uid storage t = do {
     (r, sk) \<leftarrow> add_snapshot (c_skeens c) uid storage t;
     Some (case r of NewAppend ts num \<Rightarrow> Inr (ts, num) | OldPhase1 ts \<Rightarrow> Inl ts | ResPhase2 ts \<Rightarrow> Inl ts,
           c\<lparr>c_skeens := sk\<rparr>)
   }"

definition blank_senti :: "order \<Rightarrow> packet" where
  "blank_senti chain = PSenti 0 fReadSuccess 0 0 [(chain, 1)] []"

definition horizon_or_add_blank :: "'t chain \<Rightarrow> order \<Rightarrow> (u64 \<times> 't chain) option" where
  "horizon_or_add_blank c chain = do {
     horizon \<leftarrow> trie_horizon (c_trie c);
     if 0 < horizon then Some (horizon, c)
     else do {
       (sl, c) \<leftarrow> partial_append c (pkt_len (blank_senti chain));
       c \<leftarrow> finish_append_with_contents c sl (blank_senti chain);
       horizon \<leftarrow> trie_horizon (c_trie c);
       Some (horizon, c)
     }
   }"

datatype 't skeens_finish =
    FSingle u64 place val_edge u64 't
  | FMulti u64 "place option" storage_ptr u64 't
  | FSnap u64 storage_ptr u64 't

definition trie_prep_append :: "'t chain \<Rightarrow> (u64 \<times> place \<times> 't chain) option" where
  "trie_prep_append c = do {
     (loc, sl, tr) \<leftarrow> prep_append (c_trie c) 0;
     Some (loc, PCell (fst sl) (snd sl), c\<lparr>c_trie := tr\<rparr>)
   }"

fun finish_one :: "order \<Rightarrow> 't chain \<Rightarrow> 't got_max \<Rightarrow> ('t skeens_finish \<times> 't chain) option" where
  "finish_one chain c (GSimpleSingle ts storage t i) = do {
     (loc, p, c) \<leftarrow> trie_prep_append c;
     Some (FSingle loc p storage ts t, c)
   }"
| "finish_one chain c (GSingle ts n storage t i) = do {
     (loc, p, c) \<leftarrow> trie_prep_append c;
     Some (FSingle loc p storage ts t, c)
   }"
| "finish_one chain c (GMulti ts storage t i) = do {
     (loc, p, c) \<leftarrow> trie_prep_append c;
     Some (FMulti loc (Some p) storage ts t, c)
   }"
| "finish_one chain c (GSenti ts storage t i) = do {
     (loc, c) \<leftarrow> horizon_or_add_blank c chain;
     Some (FMulti loc None storage ts t, c)
   }"
| "finish_one chain c (GSnap ts storage t i) = do {
     loc \<leftarrow> trie_horizon (c_trie c);
     Some (FSnap loc storage ts t, c)
   }"

fun finish_all :: "order \<Rightarrow> 't chain \<Rightarrow> 't got_max list \<Rightarrow> ('t skeens_finish list \<times> 't chain) option" where
  "finish_all chain c [] = Some ([], c)"
| "finish_all chain c (g # gs) = do {
     (f, c) \<leftarrow> finish_one chain c g;
     (fs, c) \<leftarrow> finish_all chain c gs;
     Some (f # fs, c)
   }"

definition finish_multi :: "'t chain \<Rightarrow> uuid \<Rightarrow> u64 \<Rightarrow> order \<Rightarrow> ('t skeens_finish list \<times> 't chain) option" where
  "finish_multi c uid max_timestamp chain = do {
     (r, sk) \<leftarrow> set_max_timestamp (c_skeens c) uid max_timestamp;
     (case r of
        SetMaxOk \<Rightarrow> Some ([], c\<lparr>c_skeens := sk\<rparr>)
      | Duplicate ts \<Rightarrow> None
      | NotWaiting \<Rightarrow> None
      | NeedsFlush \<Rightarrow> do {
          (gs, sk) \<leftarrow> flush_got_max_timestamp sk;
          finish_all chain (c\<lparr>c_skeens := sk\<rparr>) gs
        })
   }"

text \<open>A new chain starts with a one-byte entry at index 0.\<close>

definition chain_new :: "'t chain option" where
  "chain_new = do {
     (sl, c) \<leftarrow> partial_append \<lparr>c_trie = trie_new, c_alloc = bt_new, c_skeens = skeens_new\<rparr> 1;
     write_byte c sl kRead
   }"

definition ensure_chain :: "'t server_log \<Rightarrow> order \<Rightarrow> ('t chain \<times> 't server_log) option" where
  "ensure_chain s chain =
     (case log_chains s chain of
        Some c \<Rightarrow> Some (c, s)
      | None \<Rightarrow> do { c \<leftarrow> chain_new; Some (c, set_chain s chain c) })"

section \<open>Reads and single appends\<close>

definition handle_read :: "'t server_log \<Rightarrow> packet \<Rightarrow> 't \<Rightarrow> 't server_log option" where
  "handle_read s buffer t = do {
     locs \<leftarrow> pkt_locs buffer;
     (case locs of
        [] \<Rightarrow> None
      | (chain, index) # _ \<Rightarrow>
          (case log_chains s chain of
             None \<Rightarrow> Some (send_to_worker s (TwEmptyRead 0 buffer t))
           | Some lg \<Rightarrow>
               (case trie_get (c_trie lg) index of
                  None \<Rightarrow> do {
                    last_entry \<leftarrow> u64_sub (trie_len (c_trie lg)) 1;
                    Some (send_to_worker s (TwEmptyRead last_entry buffer t))
                  }
                | Some packet \<Rightarrow> Some (send_to_worker s (TwRead chain packet buffer t)))))
   }"

definition handle_data :: "'t server_log \<Rightarrow> packet \<Rightarrow> 't \<Rightarrow> 't server_log option" where
  "handle_data s buffer t = do {
     locs \<leftarrow> pkt_locs buffer;
     min_timestamp \<leftarrow> lock_num buffer;
     flag \<leftarrow> pkt_flag buffer;
     (case locs of
        [] \<Rightarrow> None
      | (chain, index) # _ \<Rightarrow> do {
          stored \<leftarrow> stores_chain s chain;
          rust_assert stored;
          (c, s) \<leftarrow> ensure_chain s chain;
          if bits_contains flag fDirectWrite then do {
            (slot, c) \<leftarrow> write_data c index (pkt_len buffer);
            Some (send_to_worker (set_chain s chain c) (TwWrite buffer chain slot t))
          } else do {
            (needed, sk) \<leftarrow> need_single_at (c_skeens c) min_timestamp;
            let c = c\<lparr>c_skeens := sk\<rparr>;
            if needed then do {
              ((slot, loc, time, queue_num), c) \<leftarrow> handle_skeens_single c buffer min_timestamp t;
              Some (send_to_worker (set_chain s chain c) (TwSingleSkeens buffer chain slot loc time queue_num t))
            } else do {
              (slot, buffer, c) \<leftarrow> append_data c buffer;
              Some (send_to_worker (set_chain s chain c) (TwWrite buffer chain slot t))
            }
          }
        })
   }"

section \<open>Multi-appends\<close>

definition is_foreign :: "'t server_log \<Rightarrow> order \<Rightarrow> bool option" where
  "is_foreign s o' = (if o' = 0 then Some True else map_option Not (stores_chain s o'))"

fun round1_loop ::
  "uuid \<Rightarrow> storage_ptr \<Rightarrow> bool \<Rightarrow> 't \<Rightarrow> bool \<Rightarrow> 't server_log \<Rightarrow> order_index list \<Rightarrow>
   ((u64 \<times> u64) list \<times> 't server_log) option" where
  "round1_loop uid storage distinguish t is_sentinel s [] = Some ([], s)"
| "round1_loop uid storage distinguish t is_sentinel s ((chain, _) # ls) = do {
     foreign \<leftarrow> is_foreign s chain;
     if foreign then do {
       (rs, s) \<leftarrow> round1_loop uid storage distinguish t (is_sentinel \<or> chain = 0) s ls;
       Some ((0, 0) # rs, s)
     } else do {
       (c, s) \<leftarrow> ensure_chain s chain;
       (r, c) \<leftarrow> timestamp_for_multi c uid storage (distinguish \<and> is_sentinel) t;
       (case r of
          Inl _ \<Rightarrow> None
        | Inr (ts, num) \<Rightarrow> do {
            (rs, s) \<leftarrow> round1_loop uid storage distinguish t is_sentinel (set_chain s chain c) ls;
            Some ((ts, num) # rs, s)
          })
     }
   }"

text \<open>The first \<open>length rs\<close> timestamps and queue numbers of a storage are overwritten.\<close>

definition store_round1 :: "'t server_log \<Rightarrow> storage_ptr \<Rightarrow> (u64 \<times> u64) list \<Rightarrow> 't server_log" where
  "store_round1 s storage rs =
     (let m = storages s storage; n = length rs in
      s\<lparr>storages := (storages s)(storage :=
         m\<lparr>ms_timestamps := map fst rs @ drop n (ms_timestamps m),
           ms_queue_indicies := map snd rs @ drop n (ms_queue_indicies m)\<rparr>)\<rparr>)"

definition room_for :: "'t server_log \<Rightarrow> storage_ptr \<Rightarrow> nat \<Rightarrow> bool" where
  "room_for s storage n \<longleftrightarrow> n \<le> length (ms_timestamps (storages s storage)) \<and>
     n \<le> length (ms_queue_indicies (storages s storage))"

definition new_multiappend_round1 ::
  "'t server_log \<Rightarrow> packet \<Rightarrow> storage_ptr \<Rightarrow> bool \<Rightarrow> 't \<Rightarrow> 't server_log option" where
  "new_multiappend_round1 s buffer storage distinguish_sentinels t = do {
     locs \<leftarrow> pkt_locs buffer;
     rust_assert (room_for s storage (length locs));
     (rs, s) \<leftarrow> round1_loop (pkt_id buffer) storage distinguish_sentinels t False s locs;
     Some (store_round1 s storage rs)
   }"

fun finished_msg :: "order \<Rightarrow> 't skeens_finish \<Rightarrow> 't to_worker" where
  "finished_msg chain (FMulti index trie_slot storage ts t) =
     TwSkeensFinished (chain, index) (map_option (\<lambda>p. (chain, p)) trie_slot) storage ts t"
| "finished_msg chain (FSnap index storage ts t) = TwSnapSkeensFinished (chain, index) storage ts t"
| "finished_msg chain (FSingle index trie_slot storage ts t) =
     TwDelayedSingle index (Some (chain, trie_slot)) storage ts t"

fun round2_loop ::
  "uuid \<Rightarrow> u64 \<Rightarrow> 't server_log \<Rightarrow> order_index list \<Rightarrow> (order_index list \<times> 't server_log) option" where
  "round2_loop uid max_timestamp s [] = Some ([], s)"
| "round2_loop uid max_timestamp s ((chain, i) # ls) = do {
     foreign \<leftarrow> is_foreign s chain;
     if foreign then do {
       (ls', s) \<leftarrow> round2_loop uid max_timestamp s ls;
       Some ((chain, 0) # ls', s)
     } else do {
       c \<leftarrow> log_chains s chain;
       (fs, c) \<leftarrow> finish_multi c uid max_timestamp chain;
       let s = set_chain s chain c;
       let s = s\<lparr>to_workers := to_workers s @ map (finished_msg chain) fs\<rparr>;
       (ls', s) \<leftarrow> round2_loop uid max_timestamp s ls;
       Some ((chain, i) # ls', s)
     }
   }"

definition new_multiappend_round2 ::
  "'t server_log \<Rightarrow> flag \<Rightarrow> packet \<Rightarrow> (packet \<times> 't server_log) option" where
  "new_multiappend_round2 s kind buffer = do {
     rust_assert (bits_contains kind fUnlock);
     max_timestamp \<leftarrow> lock_num buffer;
     locs \<leftarrow> pkt_locs buffer;
     (locs, s) \<leftarrow> round2_loop (pkt_id buffer) max_timestamp s locs;
     buffer \<leftarrow> locs_mut buffer locs;
     Some (buffer, s)
   }"

definition handle_new_multiappend ::
  "'t server_log \<Rightarrow> flag \<Rightarrow> packet \<Rightarrow> (storage_ptr, rc_slices) troption \<Rightarrow> 't \<Rightarrow> 't server_log option" where
  "handle_new_multiappend s kind buffer storage t = do {
     rust_assert (bits_contains kind fTakeLock);
     if bits_contains kind fUnlock then do {
       (buffer, s) \<leftarrow> new_multiappend_round2 s kind buffer;
       Some (send_to_worker s (TwReturnBuffer buffer t))
     } else do {
       storage \<leftarrow> unwrap_left storage;
       s \<leftarrow> new_multiappend_round1 s buffer storage False t;
       Some (send_to_worker s (TwSkeens1 buffer storage t))
     }
   }"

end
