(* ===== verification/Chain_GC.thy ===== *)
theory Chain_GC
  imports Server_Types
begin

text \<open>
  Garbage collection of a chain: \<open>Trie::set_min\<close> and \<open>Trie::delete_free\<close> (\<^verbatim>\<open>fuzzy_log_server/src/trie.rs\<close>)
  and \<open>Trie::free_first\<close> of \<^verbatim>\<open>byte_trie.rs\<close>. Both walk every present table in the order of its slots. A
  body that leaves the loop (\<open>break\<close>, \<open>return\<close>) is \<open>Inl\<close>. Dropping a table, a box or a reference-counted
  slice clears the pointer; its address is never given out again, so its contents stay.
\<close>

section \<open>The walk\<close>

type_synonym 'a walk_state = "trie \<times> 'a"
type_synonym 'a walk_result = "('a walk_state + 'a walk_state) option"

fun for_slots :: "nat list \<Rightarrow> (nat \<Rightarrow> 'a walk_state \<Rightarrow> 'a walk_result) \<Rightarrow> 'a walk_state \<Rightarrow> 'a walk_result" where
  "for_slots [] f s = Some (Inr s)"
| "for_slots (i # is) f s = do {
     r \<leftarrow> f i s;
     (case r of Inl s \<Rightarrow> Some (Inl s) | Inr s \<Rightarrow> for_slots is f s)
   }"

text \<open>\<open>*slot = None\<close>, unless the loop was left.\<close>

fun drop_slot :: "place \<Rightarrow> 'a walk_state + 'a walk_state \<Rightarrow> 'a walk_state + 'a walk_state" where
  "drop_slot pl (Inl s) = Inl s"
| "drop_slot pl (Inr (t, x)) = Inr (write_place t pl 0, x)"

fun walk :: "nat \<Rightarrow> (place \<Rightarrow> 'a walk_state \<Rightarrow> 'a walk_result) \<Rightarrow> place \<Rightarrow> 'a walk_state \<Rightarrow> 'a walk_result" where
  "walk 0 body old (t, x) =
     (let a = read_place t old in
      if a = 0 then Some (Inr (t, x)) else for_slots [0..<1024] (\<lambda>i. body (PCell a i)) (t, x))"
| "walk (Suc n) body old (t, x) =
     (let a = read_place t old in
      if a = 0 then Some (Inr (t, x))
      else for_slots [0..<1024]
        (\<lambda>i s. map_option (drop_slot (PCell a i)) (walk n body (PCell a i) s)) (t, x))"

section \<open>The allocator\<close>

definition free_first_body :: "nat \<Rightarrow> place \<Rightarrow> nat walk_state \<Rightarrow> nat walk_result" where
  "free_first_body num_blocks pl s =
     (let (t, next) = s in
      Some (if num_blocks \<le> next then Inl (t, next) else Inr (write_place t pl 0, next + 1)))"

definition free_first :: "byte_trie \<Rightarrow> nat \<Rightarrow> byte_trie option" where
  "free_first b num_blocks = do {
     r \<leftarrow> walk 4 (free_first_body num_blocks) (storage_root (tables b)) (tables b, 0);
     Some (b\<lparr>tables := (case r of Inl (t, _) \<Rightarrow> t | Inr (t, _) \<Rightarrow> t)\<rparr>)
   }"

section \<open>The trie\<close>

definition set_min :: "'t chain \<Rightarrow> u64 \<Rightarrow> 't chain" where
  "set_min c mn = c\<lparr>c_trie := (c_trie c)\<lparr>min_entry := mn\<rparr>\<rparr>"

text \<open>The variant of the entry behind a pointer, whose bytes \<open>ld\<close> reads; nothing behind a null pointer.\<close>

definition edge_var :: "(val_edge \<Rightarrow> nat \<Rightarrow> byte) \<Rightarrow> val_edge \<Rightarrow> kind option" where
  "edge_var ld v = (if val_ptr v = 0 then None else Some (fst (try_var packet_schema [ld v 0])))"

definition edge_is_multi :: "(val_edge \<Rightarrow> nat \<Rightarrow> byte) \<Rightarrow> val_edge \<Rightarrow> bool" where
  "edge_is_multi ld v \<longleftrightarrow> edge_var ld v = Some kMultiput \<or> edge_var ld v = Some kSentinel"

definition is_data :: "(val_edge \<Rightarrow> nat \<Rightarrow> byte) \<Rightarrow> val_edge \<Rightarrow> bool" where
  "is_data ld v \<longleftrightarrow> edge_var ld v = Some kData"

definition edge_len :: "(val_edge \<Rightarrow> nat \<Rightarrow> byte) \<Rightarrow> val_edge \<Rightarrow> nat option" where
  "edge_len ld v = map_option length (packet_bytes (ld v))"

definition is_big :: "(val_edge \<Rightarrow> nat \<Rightarrow> byte) \<Rightarrow> val_edge \<Rightarrow> bool option" where
  "is_big ld v = (if is_data ld v then map_option (\<lambda>n. max_in_block_size < n) (edge_len ld v) else Some False)"

text \<open>\<open>next\<close> and \<open>num_removed\<close> are the walk's own state.\<close>

definition delete_body :: "(val_edge \<Rightarrow> nat \<Rightarrow> byte) \<Rightarrow> u64 \<Rightarrow> place \<Rightarrow> (u64 \<times> nat) walk_state \<Rightarrow> (u64 \<times> nat) walk_result" where
  "delete_body ld mx pl s = do {
     let (t, next, num_removed) = s;
     if mx \<le> next then Some (Inl s)
     else do {
       let v = read_place t pl;
       num_removed \<leftarrow>
         (if \<not> is_end v then Some num_removed
          else if edge_is_multi ld v then do { _ \<leftarrow> edge_len ld v; Some num_removed }
          else do {
            big \<leftarrow> is_big ld v;
            Some (if big then num_removed else num_removed + 1)
          });
       next \<leftarrow> u64_add next 1;
       Some (Inr (write_place t pl 0, next, num_removed))
     }
   }"

definition delete_pass :: "(val_edge \<Rightarrow> nat \<Rightarrow> byte) \<Rightarrow> u64 \<Rightarrow> (u64 \<times> nat) walk_state \<Rightarrow> (u64 \<times> nat) walk_result" where
  "delete_pass ld mx = for_slots [0..<16]
     (\<lambda>i s. map_option (drop_slot (PRoot i)) (walk 5 (delete_body ld mx) (PRoot i) s))"

text \<open>\<open>while next < max\<close>, which never ends once the tree is empty and \<open>next\<close> is still below.\<close>

partial_function (option) delete_loop ::
  "(val_edge \<Rightarrow> nat \<Rightarrow> byte) \<Rightarrow> u64 \<Rightarrow> (u64 \<times> nat) walk_state \<Rightarrow> (u64 \<times> nat) walk_state option" where
  "delete_loop ld mx s =
     (if fst (snd s) < mx then do {
        r \<leftarrow> delete_pass ld mx s;
        (case r of Inl s \<Rightarrow> Some s | Inr s \<Rightarrow> delete_loop ld mx s)
      } else Some s)"

definition delete_free :: "(val_edge \<Rightarrow> nat \<Rightarrow> byte) \<Rightarrow> 't chain \<Rightarrow> 't chain option" where
  "delete_free ld c = do {
     (t, _, num_removed) \<leftarrow> delete_loop ld (min_entry (c_trie c)) (c_trie c, first_entry (c_trie c), 0);
     al \<leftarrow> free_first (c_alloc c) num_removed;
     Some (c\<lparr>c_trie := t\<lparr>first_entry := min_entry t\<rparr>, c_alloc := al\<rparr>)
   }"

section \<open>What a collection does\<close>

lemma for_slots_append:
  "for_slots (xs @ ys) f s = do {
     r \<leftarrow> for_slots xs f s;
     (case r of Inl s \<Rightarrow> Some (Inl s) | Inr s \<Rightarrow> for_slots ys f s)
   }"
  by (induction xs arbitrary: s) (auto split: sum.splits bind_splits)

end
