(* ===== verification/Ordering_Handlers.thy ===== *)
theory Ordering_Handlers
  imports Ordering Chain_GC
begin

text \<open>
  The remaining handlers of the ordering thread: multi-appends that touch this server only, snapshots, the
  older lock-based multi-appends, garbage collection and the dispatch \<open>handle_op\<close>.
\<close>

section \<open>Multi-appends on one server\<close>

fun fast_path_loop ::
  "bool \<Rightarrow> 't server_log \<Rightarrow> order_index list \<Rightarrow> trie_slot list \<Rightarrow>
   (order_index list \<times> trie_slot list \<times> 't server_log) option" where
  "fast_path_loop is_sentinel s [] ps = Some ([], ps, s)"
| "fast_path_loop is_sentinel s ((o', _) # ls) [] = None"
| "fast_path_loop is_sentinel s ((o', _) # ls) (p # ps) = do {
     foreign \<leftarrow> is_foreign s o';
     if foreign then do {
       (ls', ps', s) \<leftarrow> fast_path_loop (is_sentinel \<or> o' = 0) s ls ps;
       Some ((o', 0) # ls', None # ps', s)
     } else do {
       (c, s) \<leftarrow> ensure_chain s o';
       if \<not> is_sentinel then do {
         (index, ptr, c) \<leftarrow> trie_prep_append c;
         (ls', ps', s) \<leftarrow> fast_path_loop is_sentinel (set_chain s o' c) ls ps;
         Some ((o', index) # ls', Some (o', ptr) # ps', s)
       } else do {
         (horizon, c) \<leftarrow> horizon_or_add_blank c o';
         (ls', ps', s) \<leftarrow> fast_path_loop is_sentinel (set_chain s o' c) ls ps;
         Some ((o', horizon) # ls', p # ps', s)
       }
     }
   }"

definition single_server_single_append_fast_path ::
  "'t server_log \<Rightarrow> packet \<Rightarrow> storage_ptr \<Rightarrow> 't \<Rightarrow> 't server_log option" where
  "single_server_single_append_fast_path s buffer storage t = do {
     let m = storages s storage;
     rust_assert (ms_st1 m \<noteq> None);
     locs \<leftarrow> pkt_locs buffer;
     (locs', ps, s) \<leftarrow> fast_path_loop False s locs (ms_pointers m);
     buffer \<leftarrow> locs_mut buffer locs';
     let s = s\<lparr>storages := (storages s)(storage := m\<lparr>ms_pointers := ps\<rparr>)\<rparr>;
     Some (send_to_worker s (TwMultiFastPath buffer storage t))
   }"

definition single_server_local_skeens ::
  "'t server_log \<Rightarrow> flag \<Rightarrow> packet \<Rightarrow> storage_ptr \<Rightarrow> 't \<Rightarrow> 't server_log option" where
  "single_server_local_skeens s kind buffer storage t = do {
     s \<leftarrow> new_multiappend_round1 s buffer storage True t;
     let ts = ms_timestamps (storages s storage);
     let s = send_to_worker s (TwSingleServerSkeens1 storage t);
     max_timestamp \<leftarrow> (if ts = [] then None else Some (Max (set ts)));
     buffer \<leftarrow> lock_mut buffer max_timestamp;
     buffer \<leftarrow> set_flag buffer fUnlock;
     (buffer, s) \<leftarrow> new_multiappend_round2 s (bits_insert kind fUnlock) buffer;
     Some (send_to_worker s (TwReturnBuffer buffer t))
   }"

fun needs_loop :: "'t server_log \<Rightarrow> order_index list \<Rightarrow> (bool \<times> bool \<times> 't server_log) option" where
  "needs_loop s [] = Some (False, False, s)"
| "needs_loop s ((c, _) # ls) = do {
     stored \<leftarrow> stores_chain s c;
     rust_assert stored;
     if c = 0 then needs_loop s ls
     else do {
       (ch, s) \<leftarrow> ensure_chain s c;
       (lock, skeens, s) \<leftarrow> needs_loop s ls;
       Some (is_locked (c_trie ch) \<or> lock, needs_skeens_single ch \<or> skeens, s)
     }
   }"

definition handle_single_server_append ::
  "'t server_log \<Rightarrow> flag \<Rightarrow> packet \<Rightarrow> (storage_ptr, rc_slices) troption \<Rightarrow> 't \<Rightarrow> 't server_log option" where
  "handle_single_server_append s kind buffer storage t = do {
     locs \<leftarrow> pkt_locs buffer;
     (needs_lock, needs_skeens, s) \<leftarrow> needs_loop s locs;
     rust_assert (\<not> (needs_lock \<and> needs_skeens));
     storage \<leftarrow> unwrap_left storage;
     if \<not> needs_lock \<and> \<not> needs_skeens
     then single_server_single_append_fast_path s buffer storage t
     else single_server_local_skeens s kind buffer storage t
   }"

text \<open>The answer to a multi-append that found a chain locked.\<close>

fun lock_failed_locs :: "'t server_log \<Rightarrow> order_index list \<Rightarrow> (order_index list \<times> 't server_log) option" where
  "lock_failed_locs s [] = Some ([], s)"
| "lock_failed_locs s ((o', i) # ls) = do {
     foreign \<leftarrow> is_foreign s o';
     if foreign then do {
       (ls', s) \<leftarrow> lock_failed_locs s ls;
       Some ((o', i) # ls', s)
     } else do {
       (c, s) \<leftarrow> ensure_chain s o';
       (ls', s) \<leftarrow> lock_failed_locs s ls;
       Some ((o', if is_locked (c_trie c) then u64_max else i) # ls', s)
     }
   }"

definition multi_append_lock_failed :: "'t server_log \<Rightarrow> packet \<Rightarrow> 't \<Rightarrow> 't server_log option" where
  "multi_append_lock_failed s buffer t = do {
     locs \<leftarrow> pkt_locs buffer;
     (locs, s) \<leftarrow> lock_failed_locs s locs;
     buffer \<leftarrow> locs_mut buffer locs;
     Some (send_to_worker s (TwReply buffer t))
   }"

section \<open>Snapshots\<close>

fun snapshot_locs :: "'t server_log \<Rightarrow> order_index list \<Rightarrow> order_index list option" where
  "snapshot_locs s [] = Some []"
| "snapshot_locs s ((o', _) # ls) = do {
     foreign \<leftarrow> is_foreign s o';
     h \<leftarrow> (if foreign then Some 0
          else case log_chains s o' of None \<Rightarrow> Some 0 | Some c \<Rightarrow> trie_horizon (c_trie c));
     ls' \<leftarrow> snapshot_locs s ls;
     Some ((o', h) # ls')
   }"

definition handle_single_server_snapshot :: "'t server_log \<Rightarrow> packet \<Rightarrow> 't \<Rightarrow> 't server_log option" where
  "handle_single_server_snapshot s buffer t = do {
     buffer \<leftarrow> set_flag buffer fReadSuccess;
     locs \<leftarrow> pkt_locs buffer;
     locs' \<leftarrow> snapshot_locs s locs;
     buffer \<leftarrow> locs_mut buffer locs';
     Some (send_to_worker s (TwReply buffer t))
   }"

text \<open>The timestamps and queue numbers of chains that are stored elsewhere stay as they are.\<close>

fun snap_round1_loop ::
  "uuid \<Rightarrow> storage_ptr \<Rightarrow> 't \<Rightarrow> 't server_log \<Rightarrow> order_index list \<Rightarrow> (u64 \<times> u64) list \<Rightarrow>
   ((u64 \<times> u64) list \<times> 't server_log) option" where
  "snap_round1_loop uid storage t s ((chain, _) # ls) (old # olds) = do {
     stored \<leftarrow> stores_chain s chain;
     if \<not> stored then do {
       (rs, s) \<leftarrow> snap_round1_loop uid storage t s ls olds;
       Some (old # rs, s)
     } else do {
       (c, s) \<leftarrow> ensure_chain s chain;
       (r, c) \<leftarrow> timestamp_for_snap c uid storage t;
       (case r of
          Inl _ \<Rightarrow> None
        | Inr (ts, num) \<Rightarrow> do {
            (rs, s) \<leftarrow> snap_round1_loop uid storage t (set_chain s chain c) ls olds;
            Some ((ts, num) # rs, s)
          })
     }
   }"
| "snap_round1_loop uid storage t s _ _ = Some ([], s)"

definition skeens_snapshot_round1 ::
  "'t server_log \<Rightarrow> flag \<Rightarrow> packet \<Rightarrow> storage_ptr \<Rightarrow> 't \<Rightarrow> 't server_log option" where
  "skeens_snapshot_round1 s kind buffer storage t = do {
     rust_assert (\<not> bits_contains kind fUnlock);
     locs \<leftarrow> pkt_locs buffer;
     rust_assert (room_for s storage (length locs));
     let m = storages s storage;
     (rs, s) \<leftarrow> snap_round1_loop (pkt_id buffer) storage t s locs (zip (ms_timestamps m) (ms_queue_indicies m));
     Some (store_round1 s storage rs)
   }"

definition handle_skeens_snapshot ::
  "'t server_log \<Rightarrow> flag \<Rightarrow> packet \<Rightarrow> (storage_ptr, rc_slices) troption \<Rightarrow> 't \<Rightarrow> 't server_log option" where
  "handle_skeens_snapshot s kind buffer storage t = do {
     rust_assert (bits_contains kind fTakeLock);
     if bits_contains kind fUnlock then do {
       (buffer, s) \<leftarrow> new_multiappend_round2 s kind buffer;
       Some (send_to_worker s (TwReturnBuffer buffer t))
     } else do {
       storage \<leftarrow> unwrap_left storage;
       s \<leftarrow> skeens_snapshot_round1 s kind buffer storage t;
       Some (send_to_worker s (TwSnapshotSkeens1 buffer storage t))
     }
   }"

definition handle_snapshot ::
  "'t server_log \<Rightarrow> flag \<Rightarrow> packet \<Rightarrow> (storage_ptr, rc_slices) troption \<Rightarrow> 't \<Rightarrow> 't server_log option" where
  "handle_snapshot s kind buffer storage t =
     (if \<not> bits_contains kind fTakeLock then handle_single_server_snapshot s buffer t
      else do {
        rust_assert (bits_contains kind fNewMultiPut);
        handle_skeens_snapshot s kind buffer storage t
      })"

section \<open>Lock-based multi-appends\<close>

text \<open>Unlocking: whether every stored chain's lock was released.\<close>

fun unlock_loop :: "'t server_log \<Rightarrow> order_index list \<Rightarrow> (bool \<times> 't server_log) option" where
  "unlock_loop s [] = Some (True, s)"
| "unlock_loop s ((chain, i) # ls) =
     (if (chain, i) = (0, 0) then unlock_loop s ls
      else do {
        stored \<leftarrow> stores_chain s chain;
        if stored then do {
          (c, s) \<leftarrow> ensure_chain s chain;
          (ok, tr) \<leftarrow> unlock (c_trie c) i;
          (oks, s) \<leftarrow> unlock_loop (set_chain s chain (c\<lparr>c_trie := tr\<rparr>)) ls;
          Some (ok \<and> oks, s)
        } else unlock_loop s ls
      })"

text \<open>
  Finding the places: the new locations, whether a lock was refused (the rest of the locations then
  stay as they are) and the number of places on this server.
\<close>

fun place_loop ::
  "bool \<Rightarrow> 't server_log \<Rightarrow> order_index list \<Rightarrow>
   (order_index list \<times> bool \<times> nat \<times> 't server_log) option" where
  "place_loop locking s [] = Some ([], False, 0, s)"
| "place_loop locking s ((chain, i) # ls) = do {
     rust_assert ((chain, i) \<noteq> (0, 0));
     stored \<leftarrow> stores_chain s chain;
     if stored then do {
       (c, s) \<leftarrow> ensure_chain s chain;
       refused \<leftarrow> (if locking then cannot_lock (c_trie c) i else Some False);
       if refused then Some ((chain, u64_max) # ls, True, 0, s)
       else do {
         let next_entry = trie_len (c_trie c);
         rust_assert (0 < next_entry);
         (ls', failed, n, s) \<leftarrow> place_loop locking s ls;
         Some ((chain, next_entry) # ls', failed, Suc n, s)
       }
     } else do {
       (ls', failed, n, s) \<leftarrow> place_loop locking s ls;
       Some ((chain, 0) # ls', failed, n, s)
     }
   }"

fun emplace_loop ::
  "bool \<Rightarrow> 't server_log \<Rightarrow> order_index list \<Rightarrow> (trie_slot list \<times> 't server_log) option" where
  "emplace_loop locking s [] = Some ([], s)"
| "emplace_loop locking s ((chain, index) # ls) = do {
     stored \<leftarrow> stores_chain s chain;
     if stored then do {
       rust_assert (index \<noteq> 0);
       (c, s) \<leftarrow> ensure_chain s chain;
       tr \<leftarrow> (if locking then increment_lock (c_trie c) else Some (c_trie c));
       (_, ptr, c) \<leftarrow> trie_prep_append (c\<lparr>c_trie := tr\<rparr>);
       (ps, s) \<leftarrow> emplace_loop locking (set_chain s chain c) ls;
       Some (Some (chain, ptr) # ps, s)
     } else emplace_loop locking s ls
   }"

text \<open>The locations before the first \<open>(0, 0)\<close>, and those behind it.\<close>

definition before_sentinel :: "order_index list \<Rightarrow> order_index list" where
  "before_sentinel = takeWhile (\<lambda>l. l \<noteq> (0, 0))"

definition after_sentinel :: "order_index list \<Rightarrow> order_index list" where
  "after_sentinel ls = drop 1 (dropWhile (\<lambda>l. l \<noteq> (0, 0)) ls)"

definition handle_old_multiappend ::
  "'t server_log \<Rightarrow> flag \<Rightarrow> packet \<Rightarrow> (storage_ptr, rc_slices) troption \<Rightarrow> 't \<Rightarrow> 't server_log option" where
  "handle_old_multiappend s kind buffer storage t =
     (if bits_contains kind fUnlock then do {
        locs \<leftarrow> pkt_locs buffer;
        (all_unlocked, s) \<leftarrow> unlock_loop s locs;
        buffer \<leftarrow> (if all_unlocked then set_flag buffer fReadSuccess else Some buffer);
        Some (send_to_worker s (TwReply buffer t))
      } else do {
        let locking = bits_contains kind fTakeLock;
        locs \<leftarrow> pkt_locs buffer;
        let has_senti = ((0, 0) \<in> set locs);
        (as, failed1, n1, s) \<leftarrow> place_loop locking s (before_sentinel locs);
        (bs, failed, n2, s) \<leftarrow>
          (if has_senti \<and> \<not> failed1 then place_loop locking s (after_sentinel locs)
           else Some (after_sentinel locs, failed1, 0, s));
        buffer \<leftarrow> locs_mut buffer (as @ (if has_senti then (0, 0) # bs else []));
        if failed then Some (send_to_worker s (TwReply buffer t))
        else do {
          slices \<leftarrow> unwrap_right storage;
          rust_assert (length (rc_slices_mem s (fst slices)) = pkt_len buffer);
          ssz \<leftarrow> sentinel_entry_size buffer;
          rust_assert (length (rc_slices_mem s (snd slices)) = ssz);
          buffer \<leftarrow> set_flag buffer fReadSuccess;
          (ps1, s) \<leftarrow> emplace_loop locking s (before_sentinel as);
          (ps2, s) \<leftarrow> (if has_senti then emplace_loop locking s bs else Some ([], s));
          Some (send_to_worker s (TwMultiReplica buffer slices (ps1 @ ps2) t (n1 + n2)))
        }
      })"

definition handle_multiappend ::
  "'t server_log \<Rightarrow> flag \<Rightarrow> packet \<Rightarrow> (storage_ptr, rc_slices) troption \<Rightarrow> 't \<Rightarrow> 't server_log option" where
  "handle_multiappend s kind buffer storage t =
     (if bits_contains kind fDirectWrite then None
      else if \<not> bits_contains kind fTakeLock then handle_single_server_append s kind buffer storage t
      else if bits_contains kind fNewMultiPut then handle_new_multiappend s kind buffer storage t
      else handle_old_multiappend s kind buffer storage t)"

section \<open>Garbage collection and dispatch\<close>

text \<open>Chains the server does not have are skipped; publishing the map changes nothing in it.\<close>

fun set_mins :: "'t server_log \<Rightarrow> order_index list \<Rightarrow> 't server_log" where
  "set_mins s [] = s"
| "set_mins s ((o', i) # ls) =
     set_mins (case log_chains s o' of None \<Rightarrow> s | Some c \<Rightarrow> set_chain s o' (set_min c i)) ls"

fun delete_frees :: "'t server_log \<Rightarrow> order_index list \<Rightarrow> 't server_log option" where
  "delete_frees s [] = Some s"
| "delete_frees s ((o', _) # ls) =
     (case log_chains s o' of
        None \<Rightarrow> delete_frees s ls
      | Some c \<Rightarrow> do {
          c \<leftarrow> delete_free (load s o') c;
          delete_frees (set_chain s o' c) ls
        })"

definition handle_gc :: "'t server_log \<Rightarrow> packet \<Rightarrow> 't \<Rightarrow> 't server_log option" where
  "handle_gc s buffer t = do {
     locs \<leftarrow> pkt_locs buffer;
     s \<leftarrow> delete_frees (set_mins s locs) locs;
     Some (send_to_worker s (TwReply buffer t))
   }"

definition handle_op ::
  "'t server_log \<Rightarrow> packet \<Rightarrow> (storage_ptr, rc_slices) troption \<Rightarrow> 't \<Rightarrow> 't server_log option" where
  "handle_op s buffer storage t = do {
     flag \<leftarrow> pkt_flag buffer;
     lay \<leftarrow> kind_layout (pkt_kind buffer);
     (case lay of
        LMultiput \<Rightarrow> handle_multiappend s flag buffer storage t
      | LSentinel \<Rightarrow> handle_multiappend s flag buffer storage t
      | LSnapshot \<Rightarrow> handle_snapshot s flag buffer storage t
      | LRead \<Rightarrow> handle_read s buffer t
      | LData \<Rightarrow> handle_data s buffer t
      | LLock \<Rightarrow> None
      | LGC \<Rightarrow> handle_gc s buffer t)
   }"

end
