(* ===== verification/Replication.thy ===== *)
theory Replication
  imports Ordering_Handlers
begin

text \<open>
  What a replica does with the writes its primary forwards (\<open>handle_replication\<close>) and the recovery of
  unfinished multi-appends (\<open>handle_recovery\<close>) in \<^verbatim>\<open>fuzzy_log_server/src/ordering_thread.rs\<close>. A replica
  places an entry at the index and storage location the primary chose.
\<close>

datatype to_replicate =
    RepData packet u64
  | RepMulti packet rc_slices
  | RepSkeens1 packet storage_ptr
  | RepSingleSkeens1 packet u64
  | RepSnapshotSkeens1 packet storage_ptr
  | RepSkeens2 packet
  | RepUnLock packet
  | RepGC packet
  | RepTasRecoverer packet "uuid \<times> order_index list"

datatype recovery =
    TasRecoverer packet "uuid \<times> order_index list"
  | CheckSkeens1 packet

section \<open>First round\<close>

definition replicate_data :: "'t server_log \<Rightarrow> packet \<Rightarrow> u64 \<Rightarrow> 't \<Rightarrow> 't server_log option" where
  "replicate_data s buffer loc t = do {
     locs \<leftarrow> pkt_locs buffer;
     (case locs of
        [] \<Rightarrow> None
      | (chain, index) # _ \<Rightarrow> do {
          stored \<leftarrow> stores_chain s chain;
          rust_assert stored;
          (c, s) \<leftarrow> ensure_chain s chain;
          (slot, c) \<leftarrow> partial_append_at c index loc (pkt_len buffer);
          Some (send_to_worker (set_chain s chain c) (TwWrite buffer chain slot t))
        })
   }"

definition replicate_single_skeens1 :: "'t server_log \<Rightarrow> packet \<Rightarrow> u64 \<Rightarrow> 't \<Rightarrow> 't server_log option" where
  "replicate_single_skeens1 s buffer loc t = do {
     lns \<leftarrow> locs_and_node_nums buffer;
     (case lns of
        [] \<Rightarrow> None
      | ((chain, _), node_num) # _ \<Rightarrow> do {
          sz \<leftarrow> non_replicated_len buffer;
          ts \<leftarrow> lock_num buffer;
          (c, s) \<leftarrow> ensure_chain s chain;
          (storage, c) \<leftarrow> reserve_space_at c loc sz;
          (_, sk) \<leftarrow> replicate_single_append_round1 (c_skeens c) ts node_num (pkt_id buffer) storage t;
          Some (send_to_worker (set_chain s chain (c\<lparr>c_skeens := sk\<rparr>))
            (TwSkeens1SingleReplica buffer chain storage loc t))
        })
   }"

fun rep_skeens1_loop ::
  "uuid \<Rightarrow> storage_ptr \<Rightarrow> bool \<Rightarrow> 't \<Rightarrow> bool \<Rightarrow> 't server_log \<Rightarrow> (order_index \<times> u64) list \<Rightarrow> 't server_log option" where
  "rep_skeens1_loop uid storage is_single_server t is_sentinel s [] = Some s"
| "rep_skeens1_loop uid storage is_single_server t is_sentinel s (((o', i), node_num) # ls) = do {
     foreign \<leftarrow> is_foreign s o';
     if foreign then rep_skeens1_loop uid storage is_single_server t (is_sentinel \<or> o' = 0) s ls
     else do {
       (c, s) \<leftarrow> ensure_chain s o';
       (_, sk) \<leftarrow> replicate_multi_append_round1 (c_skeens c) i node_num uid storage
         (is_single_server \<and> is_sentinel) t;
       rep_skeens1_loop uid storage is_single_server t is_sentinel
         (set_chain s o' (c\<lparr>c_skeens := sk\<rparr>)) ls
     }
   }"

definition replicate_skeens1 :: "'t server_log \<Rightarrow> packet \<Rightarrow> storage_ptr \<Rightarrow> 't \<Rightarrow> 't server_log option" where
  "replicate_skeens1 s buffer storage t = do {
     flag \<leftarrow> pkt_flag buffer;
     lns \<leftarrow> locs_and_node_nums buffer;
     s \<leftarrow> rep_skeens1_loop (pkt_id buffer) storage (\<not> bits_contains flag fTakeLock) t False s lns;
     Some (send_to_worker s (TwSkeens1Replica buffer storage t))
   }"

fun rep_snapshot_loop ::
  "uuid \<Rightarrow> storage_ptr \<Rightarrow> 't \<Rightarrow> 't server_log \<Rightarrow> (order_index \<times> u64) list \<Rightarrow> 't server_log option" where
  "rep_snapshot_loop uid storage t s [] = Some s"
| "rep_snapshot_loop uid storage t s (((o', i), node_num) # ls) = do {
     foreign \<leftarrow> is_foreign s o';
     if foreign then rep_snapshot_loop uid storage t s ls
     else do {
       (c, s) \<leftarrow> ensure_chain s o';
       (_, sk) \<leftarrow> replicate_snapshot_round1 (c_skeens c) i node_num uid storage t;
       rep_snapshot_loop uid storage t (set_chain s o' (c\<lparr>c_skeens := sk\<rparr>)) ls
     }
   }"

definition replicate_snapshot_skeens1 :: "'t server_log \<Rightarrow> packet \<Rightarrow> storage_ptr \<Rightarrow> 't \<Rightarrow> 't server_log option" where
  "replicate_snapshot_skeens1 s buffer storage t = do {
     lns \<leftarrow> locs_and_node_nums buffer;
     s \<leftarrow> rep_snapshot_loop (pkt_id buffer) storage t s lns;
     Some (send_to_worker s (TwSnapshotSkeens1Replica buffer storage t))
   }"

section \<open>Second round\<close>

definition trie_prep_append_at :: "'t chain \<Rightarrow> u64 \<Rightarrow> (place \<times> 't chain) option" where
  "trie_prep_append_at c key = do {
     (pl, tr) \<leftarrow> prep_append_at (c_trie c) key;
     Some (pl, c\<lparr>c_trie := tr\<rparr>)
   }"

fun rep_finish_one :: "order \<Rightarrow> 't chain \<Rightarrow> 't replicated_skeens \<Rightarrow> ('t to_worker \<times> 't chain) option" where
  "rep_finish_one o' c (RMulti index storage mx t) = do {
     (slot, c) \<leftarrow> trie_prep_append_at c index;
     Some (TwSkeens2MultiReplica (o', index) (Some (o', slot)) mx storage t, c)
   }"
| "rep_finish_one o' c (RSenti index storage mx t) =
     Some (TwSkeens2MultiReplica (o', index) None mx storage t, c)"
| "rep_finish_one o' c (RSnap index storage mx t) =
     Some (TwSkeens2SnapReplica (o', index) mx storage t, c)"
| "rep_finish_one o' c (RSingle index storage mx t) = do {
     (slot, c) \<leftarrow> trie_prep_append_at c index;
     Some (TwSkeens2SingleReplica index (Some (o', slot)) storage mx t, c)
   }"

fun rep_finish_all :: "order \<Rightarrow> 't chain \<Rightarrow> 't replicated_skeens list \<Rightarrow> ('t to_worker list \<times> 't chain) option" where
  "rep_finish_all o' c [] = Some ([], c)"
| "rep_finish_all o' c (r # rs) = do {
     (m, c) \<leftarrow> rep_finish_one o' c r;
     (ms, c) \<leftarrow> rep_finish_all o' c rs;
     Some (m # ms, c)
   }"

fun rep_skeens2_loop :: "uuid \<Rightarrow> u64 \<Rightarrow> 't server_log \<Rightarrow> order_index list \<Rightarrow> 't server_log option" where
  "rep_skeens2_loop uid max_timestamp s [] = Some s"
| "rep_skeens2_loop uid max_timestamp s ((o', i) # ls) = do {
     foreign \<leftarrow> is_foreign s o';
     if foreign then rep_skeens2_loop uid max_timestamp s ls
     else do {
       (c, s) \<leftarrow> ensure_chain s o';
       (rs, sk) \<leftarrow> replicate_round2 (c_skeens c) uid max_timestamp i;
       (ms, c) \<leftarrow> rep_finish_all o' (c\<lparr>c_skeens := sk\<rparr>) rs;
       let s = set_chain s o' c;
       rep_skeens2_loop uid max_timestamp (s\<lparr>to_workers := to_workers s @ ms\<rparr>) ls
     }
   }"

definition replicate_skeens2 :: "'t server_log \<Rightarrow> packet \<Rightarrow> 't \<Rightarrow> 't server_log option" where
  "replicate_skeens2 s buffer t = do {
     max_timestamp \<leftarrow> lock_num buffer;
     rust_assert (0 < max_timestamp);
     locs \<leftarrow> pkt_locs buffer;
     s \<leftarrow> rep_skeens2_loop (pkt_id buffer) max_timestamp s locs;
     Some (send_to_worker s (TwReturnBuffer buffer t))
   }"

section \<open>Lock-based multi-appends\<close>

text \<open>The number of locations this server stores; no second separator may follow the first.\<close>

fun count_places :: "'t server_log \<Rightarrow> order_index list \<Rightarrow> nat option" where
  "count_places s [] = Some 0"
| "count_places s (l # ls) = do {
     rust_assert (l \<noteq> (0, 0));
     stored \<leftarrow> stores_chain s (fst l);
     n \<leftarrow> count_places s ls;
     Some (if stored then Suc n else n)
   }"

fun rep_emplace_loop :: "'t server_log \<Rightarrow> order_index list \<Rightarrow> (trie_slot list \<times> 't server_log) option" where
  "rep_emplace_loop s [] = Some ([], s)"
| "rep_emplace_loop s ((chain, index) # ls) = do {
     stored \<leftarrow> stores_chain s chain;
     if stored then do {
       rust_assert (index \<noteq> 0);
       (c, s) \<leftarrow> ensure_chain s chain;
       (ptr, c) \<leftarrow> trie_prep_append_at c index;
       (ps, s) \<leftarrow> rep_emplace_loop (set_chain s chain c) ls;
       Some (Some (chain, ptr) # ps, s)
     } else rep_emplace_loop s ls
   }"

definition replicate_multi :: "'t server_log \<Rightarrow> packet \<Rightarrow> rc_slices \<Rightarrow> 't \<Rightarrow> 't server_log option" where
  "replicate_multi s buffer storage t = do {
     flag \<leftarrow> pkt_flag buffer;
     locs \<leftarrow> pkt_locs buffer;
     n1 \<leftarrow> count_places s (before_sentinel locs);
     n2 \<leftarrow> count_places s (after_sentinel locs);
     (ps1, s) \<leftarrow> rep_emplace_loop s (before_sentinel locs);
     (ps2, s) \<leftarrow> (if bits_contains flag fTakeLock then rep_emplace_loop s (after_sentinel locs) else Some ([], s));
     Some (send_to_worker s (TwMultiReplica buffer storage (ps1 @ ps2) t (n1 + n2)))
   }"

section \<open>Recovery\<close>

definition recovery_reply :: "uuid option + 'r \<Rightarrow> packet \<Rightarrow> 't \<Rightarrow> 't to_worker" where
  "recovery_reply res buffer t =
     (case res of
        Inr _ \<Rightarrow> TwGotRecovery buffer t
      | Inl i \<Rightarrow> TwDidntGetRecovery buffer (case i of Some i \<Rightarrow> i | None \<Rightarrow> 0) t)"

definition replicate_tas_recoverer ::
  "'t server_log \<Rightarrow> packet \<Rightarrow> uuid \<times> order_index list \<Rightarrow> 't \<Rightarrow> 't server_log option" where
  "replicate_tas_recoverer s buffer recoverer t = do {
     (write_id, _) \<leftarrow> write_id_and_old_recoverer buffer;
     index \<leftarrow> lock_num buffer;
     (case snd recoverer of
        [] \<Rightarrow> None
      | (chain, _) # _ \<Rightarrow> do {
          (c, s) \<leftarrow> ensure_chain s chain;
          let (res, sk) = replicate_recoverer (c_skeens c) write_id recoverer index;
          Some (send_to_worker (set_chain s chain (c\<lparr>c_skeens := sk\<rparr>)) (recovery_reply res buffer t))
        })
   }"

fun handle_replication :: "'t server_log \<Rightarrow> to_replicate \<Rightarrow> 't \<Rightarrow> 't server_log option" where
  "handle_replication s (RepData buffer loc) t = replicate_data s buffer loc t"
| "handle_replication s (RepSingleSkeens1 buffer loc) t = replicate_single_skeens1 s buffer loc t"
| "handle_replication s (RepSkeens1 buffer storage) t = replicate_skeens1 s buffer storage t"
| "handle_replication s (RepSnapshotSkeens1 buffer storage) t = replicate_snapshot_skeens1 s buffer storage t"
| "handle_replication s (RepSkeens2 buffer) t = replicate_skeens2 s buffer t"
| "handle_replication s (RepMulti buffer storage) t = replicate_multi s buffer storage t"
| "handle_replication s (RepUnLock buffer) t = None"
| "handle_replication s (RepGC buffer) t = handle_gc s buffer t"
| "handle_replication s (RepTasRecoverer buffer recoverer) t = replicate_tas_recoverer s buffer recoverer t"

text \<open>The nil \<open>Uuid\<close> is 0.\<close>

fun handle_recovery :: "'t server_log \<Rightarrow> recovery \<Rightarrow> 't \<Rightarrow> 't server_log option" where
  "handle_recovery s (TasRecoverer buffer recoverer) t = do {
     (write_id, old_recoverer) \<leftarrow> write_id_and_old_recoverer buffer;
     (case snd recoverer of
        [] \<Rightarrow> None
      | (chain, _) # _ \<Rightarrow> do {
          (c, s) \<leftarrow> ensure_chain s chain;
          (res, sk) \<leftarrow> tas_recoverer (c_skeens c) write_id recoverer
            (if old_recoverer = 0 then None else Some old_recoverer);
          buffer \<leftarrow> (case res of Inr i \<Rightarrow> lock_mut buffer i | Inl _ \<Rightarrow> Some buffer);
          Some (send_to_worker (set_chain s chain (c\<lparr>c_skeens := sk\<rparr>)) (recovery_reply res buffer t))
        })
   }"
| "handle_recovery s (CheckSkeens1 buffer) t = do {
     locs \<leftarrow> pkt_locs buffer;
     (case locs of
        [] \<Rightarrow> None
      | (chain, time) # _ \<Rightarrow> do {
          still_there \<leftarrow> (case log_chains s chain of
             None \<Rightarrow> Some False
           | Some c \<Rightarrow> check_skeens1 (c_skeens c) (pkt_id buffer) time);
          Some (send_to_worker s
            (if still_there then TwContinueRecovery buffer t else TwEndRecovery buffer t))
        })
   }"

end
