(* ===== verification/Worker.thy ===== *)
theory Worker
  imports Replication
begin

text \<open>
  The worker threads (\<^verbatim>\<open>fuzzy_log_server/src/worker_thread.rs\<close>): a worker takes a message of the ordering
  thread, copies the packet to where it is kept, stores the pointer in the trie and says what to send to
  the client or, in the middle of a replication chain, to the next replica. \<open>last_ref\<close> says whether the
  message holds the last reference to a multi-append's storage (\<open>Arc::try_unwrap\<close>); a store through a null
  pointer is a panic here.
\<close>

datatype to_send =
    SNothing
  | SContents packet
  | SOldContents packet u64
  | SSlice "byte list"
  | SStaticSlice "byte list"
  | SRead "byte list"
  | SOldReplication "byte list" u64

type_synonym 't worked = "(packet option \<times> to_send \<times> 't server_log) option"

section \<open>Memory\<close>

text \<open>\<open>bytes_as_entry_mut\<close> and the assignments made through it.\<close>

definition entry_mut :: "byte list \<Rightarrow> (packet \<Rightarrow> packet option) \<Rightarrow> byte list option" where
  "entry_mut bytes u = do {
     r \<leftarrow> try_packet bytes;
     (case r of
        Inl _ \<Rightarrow> None
      | Inr (p, rest) \<Rightarrow> do { p' \<leftarrow> u p; Some (to_vec p' @ rest) })
   }"

definition rc_write :: "'t server_log \<Rightarrow> nat \<Rightarrow> byte list \<Rightarrow> 't server_log" where
  "rc_write s a bytes = s\<lparr>rc_slices_mem := (rc_slices_mem s)(a := bytes)\<rparr>"

definition copy_from_slice :: "'t server_log \<Rightarrow> nat \<Rightarrow> byte list \<Rightarrow> 't server_log option" where
  "copy_from_slice s a bytes = do {
     rust_assert (length (rc_slices_mem s a) = length bytes);
     Some (rc_write s a bytes)
   }"

definition rc_mut :: "'t server_log \<Rightarrow> nat \<Rightarrow> (packet \<Rightarrow> packet option) \<Rightarrow> 't server_log option" where
  "rc_mut s a u = do {
     bytes \<leftarrow> entry_mut (rc_slices_mem s a) u;
     Some (rc_write s a bytes)
   }"

definition store_edge :: "'t server_log \<Rightarrow> trie_slot \<Rightarrow> val_edge \<Rightarrow> 't server_log option" where
  "store_edge s slot v =
     (case slot of
        None \<Rightarrow> None
      | Some (o', pl) \<Rightarrow> do {
          c \<leftarrow> log_chains s o';
          Some (set_chain s o' (atomic_store c pl v))
        })"

definition set_storage :: "'t server_log \<Rightarrow> storage_ptr \<Rightarrow> multi_storage \<Rightarrow> 't server_log" where
  "set_storage s st m = s\<lparr>storages := (storages s)(st := m)\<rparr>"

text \<open>\<open>AppendSlot::finish_append\<close>: the bytes are copied into the slot and the edge to them is published. What is
  returned are the bytes of the slot, whose contents a debug assertion compares with those of the packet.\<close>

definition to_sized_packet :: "'t chain \<Rightarrow> val_edge \<Rightarrow> nat \<Rightarrow> byte list" where
  "to_sized_packet c v len = map (\<lambda>i. mem (c_alloc c) (val_ptr v + i)) [0..<len]"

definition slot_finish_append :: "'t chain \<Rightarrow> append_slot \<Rightarrow> packet \<Rightarrow> (byte list \<times> 't chain) option" where
  "slot_finish_append c sl data = do {
     let bytes = to_vec data;
     rust_assert (data_size sl = length bytes);
     let c = atomic_store (copy_to c (data_ptr sl) bytes) (trie_entry sl) (data_ptr sl);
     let written = to_sized_packet c (data_ptr sl) (data_size sl);
     w \<leftarrow> bytes_as_entry written;
     d \<leftarrow> bytes_as_entry bytes;
     rust_assert (w = d);
     Some (written, c)
   }"

definition fill_from :: "'t server_log \<Rightarrow> storage_ptr \<Rightarrow> packet \<Rightarrow> (packet \<times> 't server_log) option" where
  "fill_from s st buffer = do {
     let m = storages s st;
     buffer \<leftarrow> set_flag buffer fReadSuccess;
     s \<leftarrow> copy_from_slice s (ms_st0 m) (to_vec buffer);
     (case ms_st1 m of
        None \<Rightarrow> Some (buffer, s)
      | Some a1 \<Rightarrow> do {
          (bytes, _) \<leftarrow> slice_to_sentinel (to_vec buffer);
          p \<leftarrow> bytes_as_entry bytes;
          s \<leftarrow> copy_from_slice s a1 (take (pkt_len p) bytes);
          Some (buffer, s)
        })
   }"

fun recoverer_is :: "packet \<Rightarrow> uuid \<Rightarrow> packet option" where
  "recoverer_is (PUpdateRecovery r w f k ls) i = Some (PUpdateRecovery i w f k ls)"
| "recoverer_is _ i = None"

text \<open>\<open>locs[i].1 = ts[i]\<close> for every location; a shorter \<open>ts\<close> is an index out of range.\<close>

definition set_entries :: "u64 list \<Rightarrow> packet \<Rightarrow> packet option" where
  "set_entries ts p = do {
     locs \<leftarrow> pkt_locs p;
     rust_assert (length locs \<le> length ts);
     locs_mut p (zip (map fst locs) ts)
   }"

definition clear_flag :: "packet \<Rightarrow> flag \<Rightarrow> packet option" where
  "clear_flag p m = flag_mut p (\<lambda>f. bits_remove f m)"

text \<open>The first index with a property (\<open>position\<close>).\<close>

fun position :: "('a \<Rightarrow> bool) \<Rightarrow> 'a list \<Rightarrow> nat option" where
  "position P [] = None"
| "position P (x # xs) = (if P x then Some 0 else map_option Suc (position P xs))"

section \<open>Single appends\<close>

definition finish_write ::
  "'t server_log \<Rightarrow> bool \<Rightarrow> packet \<Rightarrow> order \<Rightarrow> append_slot \<Rightarrow> 't worked" where
  "finish_write s rep buffer o' slot = do {
     c \<leftarrow> log_chains s o';
     (ret, c) \<leftarrow> slot_finish_append c slot buffer;
     Some (Some buffer,
       (if rep then SOldReplication ret (storage_loc slot) else SStaticSlice ret), set_chain s o' c)
   }"

definition finish_single_skeens ::
  "'t server_log \<Rightarrow> bool \<Rightarrow> packet \<Rightarrow> order \<Rightarrow> val_edge \<Rightarrow> u64 \<Rightarrow> u64 \<Rightarrow> u64 \<Rightarrow> 't worked" where
  "finish_single_skeens s rep buffer o' storage loc time queue_num = do {
     buffer \<leftarrow> lock_mut buffer time;
     buffer \<leftarrow> set_flag buffer fReadSuccess;
     c \<leftarrow> log_chains s o';
     let s = set_chain s o' (copy_to c storage (to_vec buffer));
     buffer \<leftarrow> set_flag buffer fSkeens1Queued;
     if rep then do {
       p \<leftarrow> single_skeens_to_replication buffer time queue_num;
       Some (Some buffer, SOldContents p loc, s)
     } else Some (Some buffer, SNothing, s)
   }"

definition finish_skeens1_single_replica ::
  "'t server_log \<Rightarrow> bool \<Rightarrow> packet \<Rightarrow> order \<Rightarrow> val_edge \<Rightarrow> u64 \<Rightarrow> 't worked" where
  "finish_skeens1_single_replica s rep buffer o' storage loc = do {
     len \<leftarrow> non_replicated_len buffer;
     bytes \<leftarrow> to_non_replicated (take len (to_vec buffer));
     bytes \<leftarrow> entry_mut bytes (\<lambda>p. do { p \<leftarrow> clear_flag p fSkeens1Queued; set_flag p fReadSuccess });
     c \<leftarrow> log_chains s o';
     let s = set_chain s o' (copy_to c storage bytes);
     Some (Some buffer, (if rep then SOldContents buffer loc else SNothing), s)
   }"

definition finish_delayed_single ::
  "'t server_log \<Rightarrow> bool \<Rightarrow> u64 \<Rightarrow> trie_slot \<Rightarrow> val_edge \<Rightarrow> u64 \<Rightarrow> 't worked" where
  "finish_delayed_single s rep index slot storage timestamp = do {
     rust_assert (0 < timestamp);
     (o', pl) \<leftarrow> slot;
     bytes \<leftarrow> packet_bytes (load s o' storage);
     p \<leftarrow> bytes_as_entry bytes;
     locs \<leftarrow> pkt_locs p;
     (case locs of
        [] \<Rightarrow> None
      | (color, _) # ls \<Rightarrow> do {
          p \<leftarrow> locs_mut p ((color, index) # ls);
          p \<leftarrow> lock_mut p timestamp;
          flag \<leftarrow> pkt_flag p;
          rust_assert (bits_contains flag fReadSuccess);
          c \<leftarrow> log_chains s o';
          let s = set_chain s o' (atomic_store (copy_to c storage (to_vec p)) pl storage);
          Some (None,
            (if rep then SContents (PSkeens2ToReplica (pkt_id p) timestamp (color, index))
             else SStaticSlice (to_vec p)), s)
        })
   }"

section \<open>Multi-appends\<close>

text \<open>
  Lock-based multi-appends. The index runs over the places of this server but is compared with all
  locations; the places behind the separator are collected and then not used.
\<close>

fun store_places ::
  "'t server_log \<Rightarrow> nat \<Rightarrow> order_index list \<Rightarrow> trie_slot list \<Rightarrow> nat \<Rightarrow> 't server_log option" where
  "store_places s a locs places 0 = Some s"
| "store_places s a (l # locs) (p # places) (Suc n) =
     (if l = (0, 0) then Some s
      else do { v \<leftarrow> end_from_ptr a; s \<leftarrow> store_edge s p v; store_places s a locs places n })"
| "store_places s a _ _ (Suc n) = None"

definition finish_multi_replica ::
  "'t server_log \<Rightarrow> bool \<Rightarrow> packet \<Rightarrow> rc_slices \<Rightarrow> trie_slot list \<Rightarrow> nat \<Rightarrow> 't worked" where
  "finish_multi_replica s rep buffer storage places num_places = do {
     let bytes = to_vec buffer;
     let a = fst storage;
     let s = rc_write s a (bytes @ drop (length bytes) (rc_slices_mem s a));
     locs \<leftarrow> pkt_locs buffer;
     rust_assert (num_places \<le> length locs);
     s \<leftarrow> store_places s a locs places num_places;
     Some (Some buffer, (if rep then SOldReplication bytes u64_max else SStaticSlice bytes), s)
   }"

fun store_fast :: "'t server_log \<Rightarrow> nat \<Rightarrow> (order_index \<times> trie_slot) list \<Rightarrow> 't server_log option" where
  "store_fast s a [] = Some s"
| "store_fast s a ((oi, slot) # ls) =
     (if oi = (0, 0) then Some s
      else if slot = None then store_fast s a ls
      else do { v \<leftarrow> end_from_ptr a; s \<leftarrow> store_edge s slot v; store_fast s a ls })"

definition finish_multi_fast_path ::
  "'t server_log \<Rightarrow> bool \<Rightarrow> packet \<Rightarrow> storage_ptr \<Rightarrow> 't worked" where
  "finish_multi_fast_path s rep buffer storage = do {
     let m = storages s storage;
     buffer \<leftarrow> set_flag buffer fReadSuccess;
     s \<leftarrow> copy_from_slice s (ms_st0 m) (to_vec buffer);
     rust_assert (ms_st1 m \<noteq> None);
     locs \<leftarrow> pkt_locs buffer;
     rust_assert (length locs \<le> length (ms_pointers m));
     s \<leftarrow> store_fast s (ms_st0 m) (zip locs (ms_pointers m));
     let st0 = rc_slices_mem s (ms_st0 m);
     Some (Some buffer, (if rep then SOldReplication st0 0 else SSlice st0), s)
   }"

text \<open>Without replicas the storage is only marked; with replicas it holds the timestamps while they are sent.\<close>

definition finish_single_server_skeens1 :: "'t server_log \<Rightarrow> bool \<Rightarrow> storage_ptr \<Rightarrow> 't worked" where
  "finish_single_server_skeens1 s rep storage = do {
     let m = storages s storage;
     s \<leftarrow> rc_mut s (ms_st0 m) (\<lambda>p. set_flag p fReadSuccess);
     if rep then do {
       s \<leftarrow> rc_mut s (ms_st0 m) (\<lambda>p. do { p \<leftarrow> set_flag p fSkeens1Queued; set_entries (ms_timestamps m) p });
       p \<leftarrow> bytes_as_entry (rc_slices_mem s (ms_st0 m));
       p \<leftarrow> multi_skeens_to_replication p (ms_queue_indicies m);
       s \<leftarrow> rc_mut s (ms_st0 m) (\<lambda>p. do {
              p \<leftarrow> clear_flag p fSkeens1Queued;
              locs \<leftarrow> pkt_locs p;
              locs_mut p (map (\<lambda>(o', _). (o', 0)) locs)
            });
       Some (None, SContents p, s)
     } else Some (None, SNothing, s)
   }"

text \<open>First round of a multi-append or a snapshot.\<close>

definition finish_skeens1 :: "'t server_log \<Rightarrow> bool \<Rightarrow> packet \<Rightarrow> storage_ptr \<Rightarrow> 't worked" where
  "finish_skeens1 s rep buffer storage = do {
     let m = storages s storage;
     buffer \<leftarrow> set_flag buffer fReadSuccess;
     s \<leftarrow> copy_from_slice s (ms_st0 m) (to_vec buffer);
     buffer \<leftarrow> set_flag buffer fSkeens1Queued;
     buffer \<leftarrow> set_entries (ms_timestamps m) buffer;
     if rep then do {
       p \<leftarrow> multi_skeens_to_replication buffer (ms_queue_indicies m);
       Some (Some buffer, SContents p, s)
     } else Some (Some buffer, SSlice (to_vec buffer), s)
   }"

text \<open>\<open>xs.iter_mut().zip(ys)\<close> with an assignment: the common prefix is overwritten.\<close>

definition zip_assign :: "'a list \<Rightarrow> 'a list \<Rightarrow> 'a list" where
  "zip_assign xs ys = take (length xs) ys @ drop (length ys) xs"

definition finish_skeens1_replica :: "'t server_log \<Rightarrow> bool \<Rightarrow> packet \<Rightarrow> storage_ptr \<Rightarrow> 't worked" where
  "finish_skeens1_replica s rep buffer storage = do {
     let m = storages s storage;
     len \<leftarrow> non_replicated_len buffer;
     s \<leftarrow> copy_from_slice s (ms_st0 m) (take len (to_vec buffer));
     bytes \<leftarrow> to_non_replicated (rc_slices_mem s (ms_st0 m));
     p \<leftarrow> bytes_as_entry bytes;
     locs \<leftarrow> pkt_locs p;
     rust_assert (length locs \<le> length (ms_timestamps m));
     bytes \<leftarrow> entry_mut bytes (\<lambda>p. do {
       p \<leftarrow> locs_mut p (map (\<lambda>(o', _). (o', 0)) locs);
       clear_flag p fSkeens1Queued
     });
     let s = rc_write s (ms_st0 m) bytes;
     flag \<leftarrow> pkt_flag p;
     qs \<leftarrow> queue_nums buffer;
     let s = set_storage s storage (m\<lparr>
       ms_timestamps := zip_assign (ms_timestamps m) (map snd locs),
       ms_queue_indicies := zip_assign (ms_queue_indicies m) qs\<rparr>);
     if rep then Some (Some buffer, SSlice (to_vec buffer), s)
     else if bits_contains flag fTakeLock then do {
       p \<leftarrow> to_unreplica buffer;
       Some (Some buffer, SContents p, s)
     } else Some (Some buffer, SNothing, s)
   }"

definition finish_snapshot_skeens1_replica :: "'t server_log \<Rightarrow> bool \<Rightarrow> packet \<Rightarrow> storage_ptr \<Rightarrow> 't worked" where
  "finish_snapshot_skeens1_replica s rep buffer storage = do {
     let m = storages s storage;
     locs \<leftarrow> pkt_locs buffer;
     qs \<leftarrow> queue_nums buffer;
     let s = set_storage s storage (m\<lparr>
       ms_timestamps := zip_assign (ms_timestamps m) (map snd locs),
       ms_queue_indicies := zip_assign (ms_queue_indicies m) qs\<rparr>);
     if rep then Some (Some buffer, SSlice (to_vec buffer), s)
     else do {
       p \<leftarrow> to_unreplica buffer;
       Some (Some buffer, SContents p, s)
     }
   }"

section \<open>Second round\<close>

text \<open>\<open>locs[position(chain)].1 = index\<close>.\<close>

definition set_loc :: "order_index \<Rightarrow> packet \<Rightarrow> packet option" where
  "set_loc loc p = do {
     locs \<leftarrow> pkt_locs p;
     i \<leftarrow> position (\<lambda>l. fst l = fst loc) locs;
     locs_mut p (locs[i := loc])
   }"

definition set_loc_at :: "nat \<Rightarrow> u64 \<Rightarrow> packet \<Rightarrow> packet option" where
  "set_loc_at i e p = do {
     locs \<leftarrow> pkt_locs p;
     rust_assert (i < length locs);
     locs_mut p (locs[i := (fst (locs ! i), e)])
   }"

text \<open>The storage is sent to the client by whoever finishes last.\<close>

definition round2_send ::
  "'t server_log \<Rightarrow> bool \<Rightarrow> bool \<Rightarrow> uuid \<Rightarrow> u64 \<Rightarrow> order_index \<Rightarrow> multi_storage \<Rightarrow> to_send" where
  "round2_send s rep last_ref uid timestamp loc m =
     (if rep then SContents (PSkeens2ToReplica uid timestamp loc)
      else if last_ref then SSlice (rc_slices_mem s (ms_st0 m)) else SNothing)"

fun store_all :: "'t server_log \<Rightarrow> nat \<Rightarrow> trie_slot list \<Rightarrow> 't server_log option" where
  "store_all s a [] = Some s"
| "store_all s a (p # ps) = do { v \<leftarrow> end_from_ptr a; s \<leftarrow> store_edge s p v; store_all s a ps }"

definition handle_single_server_skeens_finished ::
  "'t server_log \<Rightarrow> bool \<Rightarrow> bool \<Rightarrow> order_index \<Rightarrow> trie_slot \<Rightarrow> storage_ptr \<Rightarrow> u64 \<Rightarrow> 't worked" where
  "handle_single_server_skeens_finished s rep last_ref loc slot storage timestamp = do {
     let m = storages s storage;
     p \<leftarrow> bytes_as_entry (rc_slices_mem s (ms_st0 m));
     locs \<leftarrow> pkt_locs p;
     index \<leftarrow> position (\<lambda>l. fst l = fst loc) locs;
     s \<leftarrow> rc_mut s (ms_st0 m) (set_loc loc);
     m \<leftarrow> (if slot = None then Some m
          else do {
            rust_assert (ms_st1 m \<noteq> None);
            rust_assert (length locs \<le> length (ms_pointers m));
            Some (m\<lparr>ms_pointers := (ms_pointers m)[index := slot]\<rparr>)
          });
     let s = set_storage s storage m;
     s \<leftarrow> (if last_ref then do {
            rust_assert (ms_st1 m \<noteq> None);
            rust_assert (length locs \<le> length (ms_pointers m));
            store_all s (ms_st0 m) (take (length locs) (ms_pointers m))
          } else Some s);
     if rep then Some (None, SContents (PSkeens2ToReplica (pkt_id p) timestamp loc), s)
     else do {
       p \<leftarrow> bytes_as_entry (rc_slices_mem s (ms_st0 m));
       Some (None, SContents p, s)
     }
   }"

text \<open>The copy that goes into the chains behind the separator, and whether this chain is one of them.\<close>

definition finish_sentinel ::
  "'t server_log \<Rightarrow> multi_storage \<Rightarrow> order_index \<Rightarrow> u64 \<Rightarrow> (bool \<times> 't server_log) option" where
  "finish_sentinel s m loc timestamp =
     (case ms_st1 m of
        None \<Rightarrow> Some (False, s)
      | Some a1 \<Rightarrow> do {
          p \<leftarrow> bytes_as_entry (rc_slices_mem s (ms_st0 m));
          locs \<leftarrow> pkt_locs p;
          i \<leftarrow> position (\<lambda>l. fst l = fst loc) locs;
          s \<leftarrow> rc_mut s a1 (\<lambda>p. do { p \<leftarrow> set_loc_at i (snd loc) p; lock_mut p timestamp });
          s_i \<leftarrow> position (\<lambda>l. l = (0, 0)) locs;
          Some (s_i < i, s)
        })"

definition finish_skeens2 ::
  "'t server_log \<Rightarrow> bool \<Rightarrow> bool \<Rightarrow> order_index \<Rightarrow> trie_slot \<Rightarrow> storage_ptr \<Rightarrow> u64 \<Rightarrow> 't worked" where
  "finish_skeens2 s rep last_ref loc slot storage timestamp = do {
     let m = storages s storage;
     p \<leftarrow> bytes_as_entry (rc_slices_mem s (ms_st0 m));
     flag \<leftarrow> pkt_flag p;
     if \<not> bits_contains flag fTakeLock
     then handle_single_server_skeens_finished s rep last_ref loc slot storage timestamp
     else do {
       s \<leftarrow> rc_mut s (ms_st0 m) (\<lambda>p. do { p \<leftarrow> lock_mut p timestamp; set_loc loc p });
       (is_sentinel, s) \<leftarrow> finish_sentinel s m loc timestamp;
       a \<leftarrow> (if is_sentinel then ms_st1 m else Some (ms_st0 m));
       v \<leftarrow> end_from_ptr a;
       s \<leftarrow> store_edge s slot v;
       Some (None, round2_send s rep last_ref (pkt_id p) timestamp loc m, s)
     }
   }"

definition finish_snap2 ::
  "'t server_log \<Rightarrow> bool \<Rightarrow> bool \<Rightarrow> order_index \<Rightarrow> storage_ptr \<Rightarrow> u64 \<Rightarrow> 't worked" where
  "finish_snap2 s rep last_ref loc storage timestamp = do {
     let m = storages s storage;
     p \<leftarrow> bytes_as_entry (rc_slices_mem s (ms_st0 m));
     s \<leftarrow> rc_mut s (ms_st0 m) (set_loc loc);
     Some (None, round2_send s rep last_ref (pkt_id p) timestamp loc m, s)
   }"

section \<open>Messages and reads\<close>

definition send_back :: "'t server_log \<Rightarrow> packet \<Rightarrow> 't worked" where
  "send_back s buffer = Some (Some buffer, SSlice (to_vec buffer), s)"

definition finish_empty_read :: "'t server_log \<Rightarrow> entry \<Rightarrow> packet \<Rightarrow> 't worked" where
  "finish_empty_read s last_valid_loc buffer = do {
     locs \<leftarrow> pkt_locs buffer;
     (case locs of
        [] \<Rightarrow> None
      | old_loc # _ \<Rightarrow> Some (Some buffer,
          SContents (PRead (pkt_id buffer) fNothing 0 0 old_loc (fst old_loc, last_valid_loc) (fst old_loc, 0)), s))
   }"

fun handle_to_worker2 :: "'t server_log \<Rightarrow> bool \<Rightarrow> bool \<Rightarrow> 't to_worker \<Rightarrow> 't worked" where
  "handle_to_worker2 s rep last_ref (TwReturnBuffer buffer t) = Some (Some buffer, SNothing, s)"
| "handle_to_worker2 s rep last_ref (TwReply buffer t) = send_back s buffer"
| "handle_to_worker2 s rep last_ref (TwRead o' v buffer t) = do {
     bytes \<leftarrow> packet_bytes (load s o' v);
     Some (Some buffer, SRead bytes, s)
   }"
| "handle_to_worker2 s rep last_ref (TwEmptyRead e buffer t) = finish_empty_read s e buffer"
| "handle_to_worker2 s rep last_ref (TwWrite buffer o' slot t) = finish_write s rep buffer o' slot"
| "handle_to_worker2 s rep last_ref (TwSingleSkeens buffer o' v loc time q t) =
     finish_single_skeens s rep buffer o' v loc time q"
| "handle_to_worker2 s rep last_ref (TwSkeens1SingleReplica buffer o' v loc t) =
     finish_skeens1_single_replica s rep buffer o' v loc"
| "handle_to_worker2 s rep last_ref (TwDelayedSingle i slot v ts t) = finish_delayed_single s rep i slot v ts"
| "handle_to_worker2 s rep last_ref (TwSkeens2SingleReplica i slot v ts t) = finish_delayed_single s rep i slot v ts"
| "handle_to_worker2 s rep last_ref (TwMultiReplica buffer st ps t n) = finish_multi_replica s rep buffer st ps n"
| "handle_to_worker2 s rep last_ref (TwMultiFastPath buffer st t) = finish_multi_fast_path s rep buffer st"
| "handle_to_worker2 s rep last_ref (TwSingleServerSkeens1 st t) = finish_single_server_skeens1 s rep st"
| "handle_to_worker2 s rep last_ref (TwSkeens1 buffer st t) = finish_skeens1 s rep buffer st"
| "handle_to_worker2 s rep last_ref (TwSkeensFinished l slot st ts t) = finish_skeens2 s rep last_ref l slot st ts"
| "handle_to_worker2 s rep last_ref (TwSkeens2MultiReplica l slot ts st t) = finish_skeens2 s rep last_ref l slot st ts"
| "handle_to_worker2 s rep last_ref (TwSkeens1Replica buffer st t) = finish_skeens1_replica s rep buffer st"
| "handle_to_worker2 s rep last_ref (TwSnapshotSkeens1 buffer st t) = finish_skeens1 s rep buffer st"
| "handle_to_worker2 s rep last_ref (TwSnapshotSkeens1Replica buffer st t) =
     finish_snapshot_skeens1_replica s rep buffer st"
| "handle_to_worker2 s rep last_ref (TwSnapSkeensFinished l st ts t) = finish_snap2 s rep last_ref l st ts"
| "handle_to_worker2 s rep last_ref (TwSkeens2SnapReplica l ts st t) = finish_snap2 s rep last_ref l st ts"
| "handle_to_worker2 s rep last_ref (TwGotRecovery buffer t) =
     do { buffer \<leftarrow> set_flag buffer fReadSuccess; send_back s buffer }"
| "handle_to_worker2 s rep last_ref (TwDidntGetRecovery buffer i t) =
     do { buffer \<leftarrow> clear_flag buffer fReadSuccess; buffer \<leftarrow> recoverer_is buffer i; send_back s buffer }"
| "handle_to_worker2 s rep last_ref (TwContinueRecovery buffer t) =
     do { buffer \<leftarrow> set_flag buffer fReadSuccess; send_back s buffer }"
| "handle_to_worker2 s rep last_ref (TwEndRecovery buffer t) = send_back s buffer"

text \<open>Reads that a worker answers itself, without the ordering thread.\<close>

definition worker_handle_read :: "'t server_log \<Rightarrow> packet \<Rightarrow> (byte list + packet) option" where
  "worker_handle_read s buffer = do {
     locs \<leftarrow> pkt_locs buffer;
     (case locs of
        [] \<Rightarrow> None
      | (chain, index) # _ \<Rightarrow> do {
          rust_assert (0 < index);
          let (found, bounds) = (case log_chains s chain of
            None \<Rightarrow> (None, (0, 0))
          | Some lg \<Rightarrow> (trie_atomic_get (c_trie lg) index, trie_bounds (c_trie lg)));
          (case found of
             Some v \<Rightarrow> do { bytes \<leftarrow> packet_bytes (load s chain v); Some (Inl bytes) }
           | None \<Rightarrow> Some (Inr (PRead (pkt_id buffer) fNothing 0 0 (chain, index)
               (chain, snd bounds - 1) (chain, fst bounds))))
        })
   }"

end
