(* ===== verification/Chain_Run.thy ===== *)
theory Chain_Run
  imports Ordering
begin

text \<open>
  Runs of one chain of the ordering thread: the requests the handlers make of it and the stores of the
  workers into the places they were given. Skeen's deliveries turn into indices of the trie; the
  theorems are about these indices, on one chain and on two chains of different servers.
\<close>

section \<open>The length of the trie\<close>

definition trie_ok :: "nat \<Rightarrow> trie \<Rightarrow> bool" where
  "trie_ok n t \<longleftrightarrow> (\<exists>vals. length vals = n \<and> appended vals t) \<and> 0 < n \<and> n \<le> 2 ^ 62"

lemma appended_next: "appended vals t \<Longrightarrow> next_entry t = length vals"
  unfolding appended_def by (rule mid_appendD(2))

lemma prep_append_panics_full:
  assumes "next_entry t = 2 ^ 62"
  shows "prep_append t v = None"
proof -
  have "refresh_root t = None"
    using assms by (auto simp: refresh_root_def root_index_def rust_assert_def)
  then show ?thesis by (simp add: prep_append_def rust_assert_def)
qed

lemma prep_append_cases:
  assumes app: "appended vals t" "length vals \<le> 2 ^ 62" and res: "prep_append t v = Some (k, sl, t')"
  shows "k = length vals \<and> appended (vals @ [v]) t' \<and> length vals < 2 ^ 62 \<and>
    sl = (node t' 6 (length vals div 1024), length vals mod 1024)"
proof -
  have "length vals \<noteq> 2 ^ 62"
    using prep_append_panics_full [of t v] appended_next [OF app(1)] res by auto
  then have n: "length vals < 2 ^ 62" using app(2) by simp
  obtain sl' t'' where p: "prep_append t v = Some (length vals, sl', t'')" "appended (vals @ [v]) t''"
    "sl' = (node t'' 6 (length vals div 1024), length vals mod 1024)" "extends t t''"
    using prep_append_appended [OF app(1) n, of v] .
  then show ?thesis using res n by simp
qed

lemma trie_ok_len: "trie_ok n t \<Longrightarrow> next_entry t = n"
  using appended_next by (auto simp: trie_ok_def)

lemma trie_ok_horizon: "trie_ok n t \<Longrightarrow> trie_horizon t = Some (n - 1)"
  using trie_ok_len [of n t] by (auto simp: trie_horizon_def trie_ok_def u64_sub_def)

lemma trie_ok_prep:
  assumes "trie_ok n t" "prep_append t v = Some (k, sl, t')"
  shows "k = n \<and> trie_ok (Suc n) t' \<and> sl = (node t' 6 (n div 1024), n mod 1024)"
proof -
  obtain vals where v: "length vals = n" "appended vals t" "n \<le> 2 ^ 62" using assms(1) by (auto simp: trie_ok_def)
  have "k = n \<and> appended (vals @ [v]) t' \<and> n < 2 ^ 62 \<and> sl = (node t' 6 (n div 1024), n mod 1024)"
    using prep_append_cases [OF v(2) _ assms(2)] v(1,3) by simp
  moreover have "length (vals @ [v]) = Suc n" using v(1) by simp
  ultimately show ?thesis unfolding trie_ok_def using Suc_leI by blast
qed

text \<open>The cell of entry \<open>k\<close>, as \<open>prep_append\<close> returned it.\<close>

definition cell :: "trie \<Rightarrow> nat \<Rightarrow> place" where
  "cell t k = PCell (node t 6 (k div 1024)) (k mod 1024)"

lemma trie_ok_store:
  assumes "trie_ok n t" "k < n"
  shows "trie_ok n (write_place t (cell t k) v)"
proof -
  obtain vals where w: "length vals = n" "appended vals t" using assms(1) by (auto simp: trie_ok_def)
  have "appended (vals[k := v]) (write_place t (cell t k) v)"
    using finish_append_appended [OF w(2), of k _ v] assms(2) w(1) by (simp add: finish_append_def cell_def)
  moreover have "length (vals[k := v]) = n" using w(1) by simp
  ultimately show ?thesis using assms(1) unfolding trie_ok_def by blast
qed

lemma trie_ok_new:
  assumes "prep_append trie_new v = Some (k, sl, t')"
  shows "k = 0 \<and> trie_ok 1 t' \<and> sl = (node t' 6 0, 0)"
proof -
  have "k = 0 \<and> appended [v] t' \<and> sl = (node t' 6 0, 0)"
    using prep_append_cases [OF trie_new_appended _ assms] by simp
  then show ?thesis unfolding trie_ok_def by (intro conjI exI [of _ "[v]"]) auto
qed

section \<open>The operations of a chain\<close>

definition chain_len_ok :: "nat \<Rightarrow> 't chain \<Rightarrow> bool" where
  "chain_len_ok n c \<longleftrightarrow> trie_ok n (c_trie c)"

lemma chain_len_ok_simps [simp]:
  "chain_len_ok n (c\<lparr>c_alloc := al\<rparr>) = chain_len_ok n c"
  "chain_len_ok n (c\<lparr>c_skeens := sk\<rparr>) = chain_len_ok n c"
  "chain_len_ok n (c\<lparr>c_trie := tr\<rparr>) = trie_ok n tr"
  "chain_len_ok n (copy_to c v bytes) = chain_len_ok n c"
  by (simp_all add: chain_len_ok_def copy_to_def)

lemma partial_append_len:
  assumes "chain_len_ok n c" "partial_append c sz = Some (sl, c')"
  shows "chain_len_ok (Suc n) c' \<and> trie_entry sl = cell (c_trie c') n \<and> c_skeens c' = c_skeens c"
  using assms trie_ok_prep
  by (fastforce simp: partial_append_def rust_simps chain_len_ok_def cell_def)

lemma trie_prep_append_len:
  assumes "chain_len_ok n c" "trie_prep_append c = Some (k, p, c')"
  shows "k = n \<and> chain_len_ok (Suc n) c' \<and> p = cell (c_trie c') n \<and> c_skeens c' = c_skeens c"
  using assms trie_ok_prep
  by (fastforce simp: trie_prep_append_def rust_simps chain_len_ok_def cell_def)

lemma atomic_store_len:
  "chain_len_ok n c \<Longrightarrow> k < n \<Longrightarrow> chain_len_ok n (atomic_store c (cell (c_trie c) k) v)"
  using trie_ok_store by (simp add: atomic_store_def chain_len_ok_def)

lemma atomic_store_skeens [simp]: "c_skeens (atomic_store c p v) = c_skeens c"
  by (simp add: atomic_store_def)

lemma copy_to_sel [simp]: "c_skeens (copy_to c v bytes) = c_skeens c" "c_trie (copy_to c v bytes) = c_trie c"
  by (simp_all add: copy_to_def)

lemma finish_contents_len:
  assumes "chain_len_ok n c" "trie_entry sl = cell (c_trie c) k" "k < n"
    "finish_append_with_contents c sl p = Some c'"
  shows "chain_len_ok n c' \<and> c_skeens c' = c_skeens c"
  using assms atomic_store_len [of n "copy_to c (data_ptr sl) (to_vec p)" k]
  by (auto simp: finish_append_with_contents_def rust_simps)

lemma horizon_or_add_blank_len:
  assumes "chain_len_ok n c" "horizon_or_add_blank c o' = Some (h, c')"
  shows "\<exists>n' \<ge> n. chain_len_ok n' c' \<and> h = n' - 1 \<and> c_skeens c' = c_skeens c"
proof (cases "n = 1")
  case False
  then show ?thesis
    using assms trie_ok_horizon [of n "c_trie c"]
    by (auto simp: horizon_or_add_blank_def chain_len_ok_def rust_simps trie_ok_def)
next
  case True
  then have "trie_horizon (c_trie c) = Some 0" using assms(1) trie_ok_horizon by (fastforce simp: chain_len_ok_def)
  then obtain sl c1 where c1: "partial_append c (pkt_len (blank_senti o')) = Some (sl, c1)"
    "finish_append_with_contents c1 sl (blank_senti o') = Some c'" "trie_horizon (c_trie c') = Some h"
    using assms(2) by (auto simp: horizon_or_add_blank_def rust_simps)
  have "chain_len_ok (Suc n) c1" "trie_entry sl = cell (c_trie c1) n" "c_skeens c1 = c_skeens c"
    using partial_append_len [OF assms(1) c1(1)] by simp_all
  then have c': "chain_len_ok (Suc n) c'" "c_skeens c' = c_skeens c"
    using finish_contents_len [OF _ _ _ c1(2)] by auto
  then have "h = n" using c1(3) trie_ok_horizon [of "Suc n"] by (simp add: chain_len_ok_def)
  then show ?thesis using c' by (intro exI [of _ "Suc n"]) simp
qed

section \<open>Deliveries become indices\<close>

fun finish_index :: "'t skeens_finish \<Rightarrow> u64" where
  "finish_index (FSingle loc p v ts t) = loc"
| "finish_index (FMulti loc p st ts t) = loc"
| "finish_index (FSnap loc st ts t) = loc"

text \<open>Whether the delivery takes an entry of its own: a sentinel and a snapshot only name the last one.\<close>

fun placed :: "'t skeens_finish \<Rightarrow> bool" where
  "placed (FSingle loc p v ts t) = True"
| "placed (FMulti loc p st ts t) = (p \<noteq> None)"
| "placed (FSnap loc st ts t) = False"

definition index_order :: "'t skeens_finish \<Rightarrow> 't skeens_finish \<Rightarrow> bool" where
  "index_order f f' \<longleftrightarrow> (if placed f' then finish_index f < finish_index f' else finish_index f \<le> finish_index f')"

text \<open>What a delivery is reported as.\<close>

fun reported :: "'t got_max \<Rightarrow> 't skeens_finish \<Rightarrow> bool" where
  "reported (GSimpleSingle ts v t i) f = (\<exists>loc p. f = FSingle loc p v ts t)"
| "reported (GSingle ts n v t i) f = (\<exists>loc p. f = FSingle loc p v ts t)"
| "reported (GMulti ts st t i) f = (\<exists>loc p. f = FMulti loc (Some p) st ts t)"
| "reported (GSenti ts st t i) f = (\<exists>loc. f = FMulti loc None st ts t)"
| "reported (GSnap ts st t i) f = (\<exists>loc. f = FSnap loc st ts t)"

lemma finish_one_len:
  assumes len: "chain_len_ok n c" and res: "finish_one o' c g = Some (f, c')"
  shows "\<exists>n' \<ge> n. chain_len_ok n' c' \<and> reported g f \<and> finish_index f = n' - 1 \<and>
    (placed f \<longrightarrow> n \<le> finish_index f) \<and> c_skeens c' = c_skeens c"
proof (cases g)
  case (GSenti ts st t i)
  then obtain loc where "horizon_or_add_blank c o' = Some (loc, c')" "f = FMulti loc None st ts t"
    using res by (auto simp: rust_simps)
  then show ?thesis using horizon_or_add_blank_len [OF len] GSenti by fastforce
next
  case (GSnap ts st t i)
  then show ?thesis using len res trie_ok_horizon by (fastforce simp: rust_simps chain_len_ok_def)
qed (rule exI [of _ "Suc n"], use res in \<open>auto simp: rust_simps dest!: trie_prep_append_len [OF len]\<close>)+

lemma chain_len_pos: "chain_len_ok n c \<Longrightarrow> 0 < n"
  by (simp add: chain_len_ok_def trie_ok_def)

lemma finish_all_len:
  assumes "chain_len_ok n c" "finish_all o' c gs = Some (fs, c')"
  shows "\<exists>n' \<ge> n. chain_len_ok n' c' \<and> list_all2 reported gs fs \<and> sorted_wrt index_order fs \<and>
    (\<forall>f \<in> set fs. (if placed f then n \<le> finish_index f else n \<le> Suc (finish_index f)) \<and> finish_index f < n') \<and>
    c_skeens c' = c_skeens c"
  using assms
proof (induction gs arbitrary: n c fs)
  case Nil
  then show ?case by auto
next
  case (Cons g gs)
  obtain f c1 fs' where s: "finish_one o' c g = Some (f, c1)" "finish_all o' c1 gs = Some (fs', c')" "fs = f # fs'"
    using Cons.prems(2) by (auto simp: rust_simps)
  obtain n1 where n1: "n \<le> n1" "chain_len_ok n1 c1" "reported g f" "finish_index f = n1 - 1"
    "placed f \<longrightarrow> n \<le> finish_index f" "c_skeens c1 = c_skeens c" "0 < n1"
    using finish_one_len [OF Cons.prems(1) s(1)] chain_len_pos by blast
  obtain n2 where n2: "n1 \<le> n2" "chain_len_ok n2 c'" "list_all2 reported gs fs'" "sorted_wrt index_order fs'"
    "\<forall>f \<in> set fs'. (if placed f then n1 \<le> finish_index f else n1 \<le> Suc (finish_index f)) \<and> finish_index f < n2"
    "c_skeens c' = c_skeens c1"
    using Cons.IH [OF n1(2) s(2)] by blast
  have "index_order f f'" if "f' \<in> set fs'" for f'
    using n2(5) that n1(4,7) by (cases "placed f'") (fastforce simp: index_order_def)+
  moreover have "(if placed f' then n \<le> finish_index f' else n \<le> Suc (finish_index f')) \<and> finish_index f' < n2"
    if "f' \<in> set (f # fs')" for f'
    using that n2(1,5) n1(1,4,5,7) by (cases "f' = f") (fastforce split: if_splits)+
  ultimately show ?case using n1 n2 s(3) by (intro exI [of _ n2]) auto
qed

lemma finish_multi_skeens:
  assumes "finish_multi c uid mx o' = Some (fs, c')"
  obtains r gs sk where "finish_skeens (c_skeens c) uid mx = Some (r, gs, sk)"
    "finish_all o' (c\<lparr>c_skeens := sk\<rparr>) gs = Some (fs, c')"
proof -
  obtain r sk where r: "set_max_timestamp (c_skeens c) uid mx = Some (r, sk)"
    using assms by (auto simp: finish_multi_def rust_simps)
  show ?thesis
    using assms r that by (cases r) (auto simp: finish_multi_def finish_skeens_def rust_simps)
qed

section \<open>Runs\<close>

text \<open>
  What the ordering thread asks of a chain, with Skeen's requests and the deliveries (each with what it
  is reported as) recorded. Between requests a worker may write bytes and store into an entry's cell.
\<close>

inductive chain_run ::
  "order \<Rightarrow> 't sk_req list \<Rightarrow> ('t got_max \<times> 't skeens_finish) list \<Rightarrow> 't chain \<Rightarrow> bool" for o' where
  fresh: "chain_new = Some c \<Longrightarrow> chain_run o' [] [] c"
| multi: "\<lbrakk>chain_run o' rs log c; timestamp_for_multi c uid st sen t = Some (r, c')\<rbrakk>
    \<Longrightarrow> chain_run o' (rs @ [ReqMulti uid st sen t]) log c'"
| snap: "\<lbrakk>chain_run o' rs log c; timestamp_for_snap c uid st t = Some (r, c')\<rbrakk>
    \<Longrightarrow> chain_run o' (rs @ [ReqSnapshot uid st t]) log c'"
| need: "\<lbrakk>chain_run o' rs log c; need_single_at (c_skeens c) ts = Some (b, sk)\<rbrakk>
    \<Longrightarrow> chain_run o' (rs @ [ReqNeedSingle ts]) log (c\<lparr>c_skeens := sk\<rparr>)"
| single: "\<lbrakk>chain_run o' rs log c; handle_skeens_single c p ts t = Some ((v, loc, ts', q), c')\<rbrakk>
    \<Longrightarrow> chain_run o' (rs @ [ReqSingle (pkt_id p) ts v t]) log c'"
| append: "\<lbrakk>chain_run o' rs log c; append_data c p = Some (sl, p', c')\<rbrakk> \<Longrightarrow> chain_run o' rs log c'"
| fast: "\<lbrakk>chain_run o' rs log c; trie_prep_append c = Some (k, pl, c')\<rbrakk> \<Longrightarrow> chain_run o' rs log c'"
| horizon: "\<lbrakk>chain_run o' rs log c; horizon_or_add_blank c o' = Some (h, c')\<rbrakk> \<Longrightarrow> chain_run o' rs log c'"
| max: "\<lbrakk>chain_run o' rs log c; finish_multi c uid mx o' = Some (fs, c');
      finish_skeens (c_skeens c) uid mx = Some (r, gs, sk)\<rbrakk>
    \<Longrightarrow> chain_run o' (rs @ [ReqMax uid mx]) (log @ zip gs fs) c'"
| store: "\<lbrakk>chain_run o' rs log c; k < trie_len (c_trie c)\<rbrakk>
    \<Longrightarrow> chain_run o' rs log (atomic_store c (cell (c_trie c) k) v)"
| copy: "chain_run o' rs log c \<Longrightarrow> chain_run o' rs log (copy_to c v bytes)"

definition log_ok :: "nat \<Rightarrow> ('t got_max \<times> 't skeens_finish) list \<Rightarrow> bool" where
  "log_ok n log \<longleftrightarrow> list_all (\<lambda>(g, f). reported g f \<and> finish_index f < n) log \<and>
     sorted_wrt index_order (map snd log)"

lemma log_ok_mono: "log_ok n log \<Longrightarrow> n \<le> n' \<Longrightarrow> log_ok n' log"
  by (fastforce simp: log_ok_def list_all_iff)

lemma log_ok_append:
  assumes "log_ok n log" "n \<le> n'" "list_all2 reported gs fs" "sorted_wrt index_order fs"
    "\<forall>f \<in> set fs. (if placed f then n \<le> finish_index f else n \<le> Suc (finish_index f)) \<and> finish_index f < n'"
  shows "log_ok n' (log @ zip gs fs)"
proof -
  have z: "map snd (zip gs fs) = fs" using list_all2_lengthD [OF assms(3)] by simp
  have "index_order f f'" if "f \<in> snd ` set log" "f' \<in> set fs" for f f'
  proof -
    have "finish_index f < n" using assms(1) that(1) by (auto simp: log_ok_def list_all_iff)
    then show ?thesis using assms(5) that(2) by (cases "placed f'") (fastforce simp: index_order_def)+
  qed
  moreover have "list_all (\<lambda>(g, f). reported g f \<and> finish_index f < n') (zip gs fs)"
    using assms(3,5) by (auto simp: list_all_iff list_all2_iff dest: set_zip_rightD)
  moreover have "log_ok n' log" using log_ok_mono assms(1,2) .
  ultimately show ?thesis using assms(4) by (auto simp: log_ok_def sorted_wrt_append z)
qed

lemma chain_new_ok:
  assumes "chain_new = Some c"
  shows "chain_len_ok 1 c \<and> c_skeens c = skeens_new"
proof -
  obtain sl c0 where c0: "partial_append \<lparr>c_trie = trie_new, c_alloc = bt_new, c_skeens = skeens_new\<rparr> 1 = Some (sl, c0)"
    "write_byte c0 sl kRead = Some c"
    using assms by (auto simp: chain_new_def rust_simps)
  then have "chain_len_ok 1 c0" "trie_entry sl = cell (c_trie c0) 0" "c_skeens c0 = skeens_new"
    using trie_ok_new by (fastforce simp: partial_append_def rust_simps chain_len_ok_def cell_def)+
  then show ?thesis
    using c0(2) atomic_store_len [of 1 "copy_to c0 (data_ptr sl) [kRead]" 0] by (auto simp: write_byte_def rust_simps)
qed

definition chain_inv :: "'t sk_req list \<Rightarrow> ('t got_max \<times> 't skeens_finish) list \<Rightarrow> 't chain \<Rightarrow> bool" where
  "chain_inv rs log c \<longleftrightarrow>
     (\<exists>n. chain_len_ok n c \<and> log_ok n log) \<and> (\<exists>acc. sk_run rs acc (map fst log) (c_skeens c))"

lemma chain_inv_grow:
  assumes "chain_inv rs log c" "c_skeens c' = c_skeens c" "\<And>n. chain_len_ok n c \<Longrightarrow> \<exists>n' \<ge> n. chain_len_ok n' c'"
  shows "chain_inv rs log c'"
proof -
  obtain n where n: "chain_len_ok n c" "log_ok n log" using assms(1) by (auto simp: chain_inv_def)
  obtain n' where "n \<le> n'" "chain_len_ok n' c'" using assms(3) [OF n(1)] by blast
  then show ?thesis using log_ok_mono [OF n(2)] assms(1,2) unfolding chain_inv_def by auto
qed

lemma chain_inv_skeens:
  assumes "chain_inv rs log c" "sk_exec (c_skeens c) req = Some (resp, [], c_skeens c')" "c_trie c' = c_trie c"
  shows "chain_inv (rs @ [req]) log c'"
proof -
  obtain acc where "sk_run rs acc (map fst log) (c_skeens c)" using assms(1) by (auto simp: chain_inv_def)
  from sk_run.step [OF this assms(2)]
  have "\<exists>acc. sk_run (rs @ [req]) acc (map fst log) (c_skeens c')" by auto
  then show ?thesis using assms(1,3) by (auto simp: chain_inv_def chain_len_ok_def)
qed

lemma chain_inv_max:
  assumes inv: "chain_inv rs log c" and fin: "finish_multi c uid mx o' = Some (fs, c')"
    and sk: "finish_skeens (c_skeens c) uid mx = Some (r, gs, sk)"
  shows "chain_inv (rs @ [ReqMax uid mx]) (log @ zip gs fs) c'"
proof -
  obtain n acc where n: "chain_len_ok n c" "log_ok n log" "sk_run rs acc (map fst log) (c_skeens c)"
    using inv by (auto simp: chain_inv_def)
  have all: "finish_all o' (c\<lparr>c_skeens := sk\<rparr>) gs = Some (fs, c')"
    by (rule finish_multi_skeens [OF fin]) (use sk in simp)
  have n0: "chain_len_ok n (c\<lparr>c_skeens := sk\<rparr>)" using n(1) by simp
  obtain n' where n': "n \<le> n'" "chain_len_ok n' c'" "list_all2 reported gs fs" "sorted_wrt index_order fs"
    "\<forall>f \<in> set fs. (if placed f then n \<le> finish_index f else n \<le> Suc (finish_index f)) \<and> finish_index f < n'"
    "c_skeens c' = sk"
    using finish_all_len [OF n0 all] by auto
  have "map fst (zip gs fs) = gs" using list_all2_lengthD [OF n'(3)] by simp
  moreover have "sk_exec (c_skeens c) (ReqMax uid mx) = Some (RespMax r, gs, sk)" using sk by simp
  ultimately have "\<exists>acc. sk_run (rs @ [ReqMax uid mx]) acc (map fst (log @ zip gs fs)) (c_skeens c')"
    using sk_run.step [OF n(3)] n'(6) by fastforce
  then show ?thesis using log_ok_append [OF n(2) n'(1,3,4,5)] n'(2) unfolding chain_inv_def by blast
qed

lemma case_list_eq_Some [rust_simps]:
  "(case xs of [] \<Rightarrow> None | y # ys \<Rightarrow> f y ys) = Some z \<longleftrightarrow> (\<exists>y ys. xs = y # ys \<and> f y ys = Some z)"
  by (cases xs) auto

lemma case_new_append_eq_Some [rust_simps]:
  "(case r of NewAppend a b \<Rightarrow> f a b | _ \<Rightarrow> None) = Some z \<longleftrightarrow> (\<exists>a b. r = NewAppend a b \<and> f a b = Some z)"
  by (cases r) auto

lemma append_data_len:
  assumes "chain_len_ok n c" "append_data c p = Some (sl, p', c')"
  shows "chain_len_ok (Suc n) c' \<and> c_skeens c' = c_skeens c"
  using assms(2) partial_append_len [OF assms(1)]
  by (auto simp: append_data_def rust_simps)

lemma handle_skeens_single_exec:
  assumes "handle_skeens_single c p ts t = Some ((v, loc, ts', q), c')"
  shows "sk_exec (c_skeens c) (ReqSingle (pkt_id p) ts v t) = Some (RespAppend (NewAppend ts' q), [], c_skeens c')"
    "c_trie c' = c_trie c"
  using assms
  by (auto simp: handle_skeens_single_def reserve_space_def rust_simps)

lemma chain_run_inv: "chain_run o' rs log c \<Longrightarrow> chain_inv rs log c"
proof (induction rule: chain_run.induct)
  case (fresh c)
  then have "chain_len_ok 1 c" "c_skeens c = skeens_new" using chain_new_ok by blast+
  moreover have "log_ok 1 []" by (simp add: log_ok_def)
  moreover have "sk_run [] {#} (map fst []) skeens_new" by simp
  ultimately show ?case unfolding chain_inv_def by metis
next
  case (multi rs log c uid st sen t r c')
  then show ?case
    by (auto simp: timestamp_for_multi_def rust_simps intro!: chain_inv_skeens [of rs log c])
next
  case (snap rs log c uid st t r c')
  then show ?case
    by (auto simp: timestamp_for_snap_def rust_simps intro!: chain_inv_skeens [of rs log c])
next
  case (need rs log c ts b sk)
  then show ?case by (auto intro!: chain_inv_skeens [of rs log c])
next
  case (single rs log c p ts t v loc ts' q c')
  then show ?case using chain_inv_skeens handle_skeens_single_exec by metis
next
  case (append rs log c p sl p' c')
  then show ?case using chain_inv_grow [of rs log c c'] append_data_len by (metis chain_inv_def le_SucI order_refl)
next
  case (fast rs log c k pl c')
  then show ?case using chain_inv_grow [of rs log c c'] trie_prep_append_len by (metis chain_inv_def le_SucI order_refl)
next
  case (horizon rs log c h c')
  then show ?case using chain_inv_grow [of rs log c c'] horizon_or_add_blank_len by (metis chain_inv_def)
next
  case (max rs log c uid mx fs c' r gs sk)
  then show ?case using chain_inv_max by blast
next
  case (store rs log c k v)
  have "\<exists>n' \<ge> n. chain_len_ok n' (atomic_store c (cell (c_trie c) k) v)" if "chain_len_ok n c" for n
    using atomic_store_len [OF that, of k v] store.hyps(2) trie_ok_len that by (auto simp: chain_len_ok_def trie_len_def)
  then show ?case by (intro chain_inv_grow [OF store.IH]) simp_all
next
  case (copy rs log c v bytes)
  then show ?case by (intro chain_inv_grow [OF copy.IH]) auto
qed

end
