(* ===== verification/Chain_Store.thy ===== *)
theory Chain_Store
  imports Chain_Run
begin

text \<open>
  A chain as a store of entries. Abstractly a chain is a number of reserved entries and, for the entries
  whose bytes the chain itself allocated, the slot handed to the worker and the packet once the worker has
  written it. The relation \<open>chain_rep\<close> ties this to the trie, the allocator and the memory: reserved
  regions are disjoint, cells are those of the trie, and a written entry's bytes are its packet's.
\<close>

section \<open>The representation\<close>

type_synonym contents = "u64 \<rightharpoonup> append_slot \<times> packet option"

definition slot_region :: "append_slot \<Rightarrow> nat set" where
  "slot_region sl = {val_ptr (data_ptr sl) ..< val_ptr (data_ptr sl) + data_size sl}"

definition mem_bytes :: "'t chain \<Rightarrow> val_edge \<Rightarrow> nat \<Rightarrow> byte list" where
  "mem_bytes c v n = map (\<lambda>i. mem (c_alloc c) (val_ptr v + i)) [0..<n]"

definition slot_state :: "'t chain \<Rightarrow> val_edge \<Rightarrow> append_slot \<Rightarrow> packet option \<Rightarrow> bool" where
  "slot_state c v sl q =
     (case q of
        None \<Rightarrow> v = 0
      | Some p \<Rightarrow> v = data_ptr sl \<and> packet_fits p \<and> data_size sl = pkt_len p \<and>
          mem_bytes c (data_ptr sl) (pkt_len p) = to_vec p)"

definition rep :: "nat list \<Rightarrow> nat list \<Rightarrow> nat set \<Rightarrow> 't chain \<Rightarrow> contents \<Rightarrow> bool" where
  "rep vals blocks box c R \<longleftrightarrow>
     appended vals (c_trie c) \<and> length vals \<le> 2 ^ 62 \<and> alloc_inv blocks box (c_alloc c) \<and>
     fresh_mem (c_alloc c) \<le> rc_base \<and>
     (\<forall>k sl q. R k = Some (sl, q) \<longrightarrow> k < length vals \<and> trie_entry sl = cell (c_trie c) k \<and>
        0 < val_ptr (data_ptr sl) \<and> slot_region sl \<subseteq> taken blocks (c_alloc c) box \<and> slot_state c (vals ! k) sl q) \<and>
     (\<forall>k sl q k' sl' q'. R k = Some (sl, q) \<longrightarrow> R k' = Some (sl', q') \<longrightarrow> k \<noteq> k' \<longrightarrow>
        slot_region sl \<inter> slot_region sl' = {})"

definition chain_rep :: "'t chain \<Rightarrow> contents \<Rightarrow> bool" where
  "chain_rep c R \<longleftrightarrow> 0 < trie_len (c_trie c) \<and> (\<exists>vals blocks box. rep vals blocks box c R)"

text \<open>Room for one more entry of \<open>sz\<close> bytes.\<close>

definition chain_room :: "nat \<Rightarrow> 't chain \<Rightarrow> bool" where
  "chain_room sz c \<longleftrightarrow> trie_len (c_trie c) < 2 ^ 62 \<and> stored_bytes (c_alloc c) + 16384 \<le> 2 ^ 63 \<and>
     fresh_mem (c_alloc c) + sz + 16384 \<le> rc_base"

lemma repD:
  assumes "rep vals blocks box c R"
  shows "appended vals (c_trie c)" "trie_len (c_trie c) = length vals" "length vals \<le> 2 ^ 62" "alloc_inv blocks box (c_alloc c)"
    "R k = Some (sl, q) \<Longrightarrow> k < length vals"
    "R k = Some (sl, q) \<Longrightarrow> trie_entry sl = cell (c_trie c) k"
    "R k = Some (sl, q) \<Longrightarrow> 0 < val_ptr (data_ptr sl)"
    "R k = Some (sl, q) \<Longrightarrow> slot_region sl \<subseteq> taken blocks (c_alloc c) box"
    "R k = Some (sl, q) \<Longrightarrow> slot_state c (vals ! k) sl q"
    "R k = Some (sl, q) \<Longrightarrow> R k' = Some (sl', q') \<Longrightarrow> k \<noteq> k' \<Longrightarrow> slot_region sl \<inter> slot_region sl' = {}"
    "fresh_mem (c_alloc c) \<le> rc_base"
  using assms appended_next unfolding rep_def by (blast, simp add: trie_len_def, blast+)

definition entry_rep :: "nat list \<Rightarrow> nat list \<Rightarrow> nat set \<Rightarrow> 't chain \<Rightarrow> u64 \<Rightarrow> append_slot \<Rightarrow> packet option \<Rightarrow> bool" where
  "entry_rep vals blocks box c k sl q \<longleftrightarrow> k < length vals \<and> trie_entry sl = cell (c_trie c) k \<and>
     0 < val_ptr (data_ptr sl) \<and> slot_region sl \<subseteq> taken blocks (c_alloc c) box \<and> slot_state c (vals ! k) sl q"

lemma repI:
  assumes "appended vals (c_trie c)" "length vals \<le> 2 ^ 62" "alloc_inv blocks box (c_alloc c)"
    and "fresh_mem (c_alloc c) \<le> rc_base"
    and "\<And>k sl q. R k = Some (sl, q) \<Longrightarrow> entry_rep vals blocks box c k sl q"
    and "\<And>k sl q k' sl' q'. R k = Some (sl, q) \<Longrightarrow> R k' = Some (sl', q') \<Longrightarrow> k \<noteq> k' \<Longrightarrow>
      slot_region sl \<inter> slot_region sl' = {}"
  shows "rep vals blocks box c R"
  unfolding rep_def using assms unfolding entry_rep_def by blast

lemma chain_rep_len: "chain_rep c R \<Longrightarrow> chain_len_ok (trie_len (c_trie c)) c"
  using repD(1-3) by (fastforce simp: chain_rep_def chain_len_ok_def trie_ok_def)

lemma slot_state_mem: "c_alloc c' = c_alloc c \<or> mem (c_alloc c') = mem (c_alloc c) \<Longrightarrow> slot_state c' v sl q = slot_state c v sl q"
  by (auto simp: slot_state_def mem_bytes_def split: option.splits)

section \<open>Reading\<close>

lemma pkt_len_bound: "packet_fits p \<Longrightarrow> pkt_len p \<le> 2 ^ 64"
  by (cases p) (simp_all add: pkt_len_def packet_len_def pkt_variant_def fields_defs field_size_def counters_def
      is_size_var_def ois_fit_def data_fits_def nums_fit_def)

lemma packet_bytes_to_vec:
  assumes fits: "packet_fits p" and bytes: "map ld [0..<pkt_len p] = to_vec p"
  shows "packet_bytes ld = Some (to_vec p)"
proof -
  have ok: "vals_ok (snd (pkt_variant p)) (pkt_vals p)" using pkt_vals_ok [OF fits] by (simp add: pkt_variant_def)
  have m: "map ld [0..<packet_len (pkt_variant p) (pkt_vals p)] = fill_vec (pkt_variant p) (pkt_vals p)"
    using bytes by (simp add: pkt_len_def to_vec_def)
  have "0 < min_len packet_schema" "min_len packet_schema \<le> pkt_len p"
    using min_len_bounds [OF pkt_variant_in [of p]] by (simp_all add: pkt_len_def)
  then have "min_len packet_schema \<le> pkt_len p" "pkt_len p - min_len packet_schema < 2 ^ 64"
    using pkt_len_bound [OF fits] by linarith+
  then show ?thesis
    using wrap_bytes_loop_done [OF packet_schema_ok pkt_variant_in ok m, of "min_len packet_schema" "2 ^ 64"]
    by (simp add: packet_bytes_def wrap_bytes_def to_vec_def pkt_len_def)
qed

lemma taken_below:
  assumes "alloc_inv blocks box b" "x \<in> taken blocks b box"
  shows "x < fresh_mem b"
proof (cases "x \<in> box")
  case False
  then obtain l where l: "x = loc_addr blocks l" "l < stored_bytes b" using assms(2) by (auto simp: taken_def)
  have bi: "bt_inv blocks b" using assms(1) by (simp add: alloc_inv_def)
  obtain v where v: "v \<in> set blocks" "x < v + 8192" using loc_addr_in_block [OF stored_in_blocks [OF bi l(2)]] l(1) by blast
  have "v < fresh_mem b" "8192 dvd v" "8192 dvd fresh_mem b" using bi v(1) by (auto simp: bt_inv_def blocks_ok_def)
  then have "v + 8192 \<le> fresh_mem b" by (elim dvdE) simp
  then show ?thesis using v(2) by simp
qed (use assms(1) in \<open>simp add: alloc_inv_def\<close>)

lemma rep_low:
  assumes "rep vals blocks box c R" "R k = Some (sl, q)" "0 < data_size sl"
  shows "val_ptr (data_ptr sl) < rc_base"
proof -
  note d = repD [OF assms(1)]
  have "val_ptr (data_ptr sl) \<in> slot_region sl" using assms(3) by (simp add: slot_region_def)
  then have "val_ptr (data_ptr sl) < fresh_mem (c_alloc c)" using taken_below [OF d(4)] d(8) [OF assms(2)] by blast
  then show ?thesis using d(11) by simp
qed

lemma chain_rep_read:
  assumes "chain_rep c R" "R k = Some (sl, Some p)"
  shows "trie_get (c_trie c) k = Some (data_ptr sl)" "val_ptr (data_ptr sl) < rc_base"
    "packet_bytes (\<lambda>i. mem (c_alloc c) (val_ptr (data_ptr sl) + i)) = Some (to_vec p)"
proof -
  obtain vals blocks box where r: "rep vals blocks box c R" using assms(1) by (auto simp: chain_rep_def)
  note d = repD [OF r]
  have k: "k < length vals" "k < 2 ^ 64" using d(3) d(5) [OF assms(2)] by simp_all
  have s: "vals ! k = data_ptr sl" "packet_fits p" "mem_bytes c (data_ptr sl) (pkt_len p) = to_vec p" "data_size sl = pkt_len p"
    using d(9) [OF assms(2)] by (simp_all add: slot_state_def)
  show "trie_get (c_trie c) k = Some (data_ptr sl)"
    using appended_get [OF d(1) k(2)] k(1) s(1) d(7) [OF assms(2)] by simp
  show "packet_bytes (\<lambda>i. mem (c_alloc c) (val_ptr (data_ptr sl) + i)) = Some (to_vec p)"
    using packet_bytes_to_vec [OF s(2)] s(3) by (simp add: mem_bytes_def)
  have "0 < pkt_len p" using s(2) by (simp add: pkt_len_def packet_len_def)
  then show "val_ptr (data_ptr sl) < rc_base" using rep_low [OF r assms(2)] s(4) by simp
qed

lemma chain_rep_unwritten:
  assumes "chain_rep c R" "k < 2 ^ 64" "trie_len (c_trie c) \<le> k \<or> (\<exists>sl. R k = Some (sl, None))"
  shows "trie_get (c_trie c) k = None"
proof -
  obtain vals blocks box where r: "rep vals blocks box c R" using assms(1) by (auto simp: chain_rep_def)
  note d = repD [OF r]
  have "val_ptr (0 :: nat) = 0" by (simp add: val_ptr_def)
  moreover have "vals ! k = 0" if "k < length vals"
    using assms(3) that d(2,9) by (fastforce simp: slot_state_def)
  ultimately show ?thesis using appended_get [OF d(1) assms(2)] by simp
qed

section \<open>Reserving\<close>

lemma extends_cell:
  assumes "extends t t'" "appended vals t" "k < length vals"
  shows "cell t' k = cell t k"
proof -
  have "(k div 1024) * span 6 < length vals" using assms(3) by (simp add: span_def)
  then have "node t 6 (k div 1024) \<noteq> 0"
    using mid_appendD(4) [of vals 0 t 6 "k div 1024"] assms(2) by (simp add: appended_def)
  then show ?thesis using assms(1) by (simp add: cell_def extends_def)
qed

lemma partial_append_total:
  assumes r: "rep vals blocks box c R" and room: "chain_room sz c" and sz: "1 \<le> sz"
  obtains sl c' blocks' box' where "partial_append c sz = Some (sl, c')"
    "rep (vals @ [0]) blocks' box' c' (R(length vals \<mapsto> (sl, None)))" "data_size sl = sz"
    "stored_bytes (c_alloc c') \<le> stored_bytes (c_alloc c) + 16384" "c_skeens c' = c_skeens c"
    "fresh_mem (c_alloc c') \<le> fresh_mem (c_alloc c) + sz + 16384"
proof -
  note d = repD [OF r]
  have "stored_bytes (c_alloc c) + 16384 \<le> 2 ^ 63" "length vals < 2 ^ 62" "fresh_mem (c_alloc c) + sz + 16384 \<le> rc_base"
    using room by (simp_all add: chain_room_def d(2))
  then obtain blocks' box' v loc al where a: "alloc_reserve_space (c_alloc c) sz = Some (v, loc, al)"
    "alloc_inv blocks' box' al" "taken blocks (c_alloc c) box \<union> {val_ptr v ..< val_ptr v + sz} \<subseteq> taken blocks' al box'"
    "{val_ptr v ..< val_ptr v + sz} \<inter> taken blocks (c_alloc c) box = {}" "0 < val_ptr v"
    "stored_bytes al \<le> stored_bytes (c_alloc c) + 16384" "mem al = mem (c_alloc c)"
    "fresh_mem al \<le> fresh_mem (c_alloc c) + sz + 16384"
    using reserve_space_step [OF d(4) sz] by blast
  obtain cl t' where p: "prep_append (c_trie c) 0 = Some (length vals, cl, t')" "appended (vals @ [0]) t'"
    "cl = (node t' 6 (length vals div 1024), length vals mod 1024)" "extends (c_trie c) t'"
    using prep_append_appended [OF d(1) \<open>length vals < 2 ^ 62\<close>, of 0] .
  define sl where "sl = \<lparr>trie_entry = PCell (fst cl) (snd cl), data_ptr = v, data_size = sz, storage_loc = loc\<rparr>"
  define c' where "c' = c\<lparr>c_trie := t', c_alloc := al\<rparr>"
  have res: "partial_append c sz = Some (sl, c')" using a(1) p(1) by (simp add: partial_append_def sl_def c'_def)
  have reg: "slot_region sl = {val_ptr v ..< val_ptr v + sz}" by (simp add: slot_region_def sl_def)
  let ?R = "R(length vals \<mapsto> (sl, None))"
  have old: "entry_rep (vals @ [0]) blocks' box' c' k s q" if k: "R k = Some (s, q)" for k s q
    using d(5-9) [OF k] extends_cell [OF p(4) d(1) d(5) [OF k]] a(3,7) slot_state_mem [of c' c]
    by (auto simp: c'_def nth_append entry_rep_def)
  have new: "entry_rep (vals @ [0]) blocks' box' c' (length vals) sl None"
    using p(3) a(3,5) by (simp add: sl_def c'_def cell_def slot_region_def slot_state_def entry_rep_def)
  have disj: "slot_region s \<inter> slot_region sl = {}" "slot_region sl \<inter> slot_region s = {}"
    if "R k = Some (s, q)" for k s q
    using d(8) [OF that] a(4) unfolding reg by blast+
  have app: "appended (vals @ [0]) (c_trie c')" and al: "alloc_inv blocks' box' (c_alloc c')" 
    and len: "length (vals @ [0]) \<le> 2 ^ 62" and low: "fresh_mem (c_alloc c') \<le> rc_base"
    using p(2) a(2,8) \<open>length vals < 2 ^ 62\<close> \<open>fresh_mem (c_alloc c) + sz + 16384 \<le> rc_base\<close> by (simp_all add: c'_def)
  have "rep (vals @ [0]) blocks' box' c' ?R"
  proof (rule repI [OF app len al low])
    fix k s q assume k: "?R k = Some (s, q)"
    show "entry_rep (vals @ [0]) blocks' box' c' k s q"
      using old [of k s q] new k by (cases "k = length vals") simp_all
    fix k' s' q' assume k': "?R k' = Some (s', q')" "k \<noteq> k'"
    show "slot_region s \<inter> slot_region s' = {}"
      using k k' disj(1) [of k s q] disj(2) [of k' s' q'] d(10) [of k s q k' s' q']
      by (cases "k = length vals"; cases "k' = length vals") simp_all
  qed
  then show ?thesis using that [OF res] a(6,8) by (simp add: sl_def c'_def)
qed

section \<open>Writing\<close>

lemma mem_write_inv [simp]:
  "alloc_inv blocks box (mem_write b a bytes) = alloc_inv blocks box b"
  "taken blocks (mem_write b a bytes) box = taken blocks b box"
  "stored_bytes (mem_write b a bytes) = stored_bytes b"
  "fresh_mem (mem_write b a bytes) = fresh_mem b"
  by (simp_all add: alloc_inv_def bt_inv_def taken_def mem_write_def)

lemma mem_write_same:
  assumes "length bytes = n" "val_ptr v = a"
  shows "map (\<lambda>i. mem (mem_write b a bytes) (val_ptr v + i)) [0..<n] = bytes"
  using assms by (intro nth_equalityI) (auto simp: mem_write_def)

lemma mem_write_other:
  assumes "{val_ptr v ..< val_ptr v + n} \<inter> {a ..< a + length bytes} = {}"
  shows "map (\<lambda>i. mem (mem_write b a bytes) (val_ptr v + i)) [0..<n] = map (\<lambda>i. mem b (val_ptr v + i)) [0..<n]"
proof (rule map_cong [OF refl])
  fix i assume "i \<in> set [0..<n]"
  then have "val_ptr v + i \<in> {val_ptr v ..< val_ptr v + n}" by simp
  then have "val_ptr v + i \<notin> {a ..< a + length bytes}" using assms by blast
  then show "mem (mem_write b a bytes) (val_ptr v + i) = mem b (val_ptr v + i)" by (auto simp: mem_write_def)
qed

lemma finish_total:
  assumes r: "rep vals blocks box c R" and k: "R k = Some (sl, None)"
    and p: "packet_fits p" "data_size sl = pkt_len p"
  obtains c' where "finish_append_with_contents c sl p = Some c'"
    "rep (vals[k := data_ptr sl]) blocks box c' (R(k \<mapsto> (sl, Some p)))"
    "trie_len (c_trie c') = trie_len (c_trie c)" "stored_bytes (c_alloc c') = stored_bytes (c_alloc c)"
    "c_skeens c' = c_skeens c"
proof -
  note d = repD [OF r]
  let ?vs = "vals[k := data_ptr sl]" let ?R = "R(k \<mapsto> (sl, Some p))"
  define c' where "c' = atomic_store (copy_to c (data_ptr sl) (to_vec p)) (trie_entry sl) (data_ptr sl)"
  have res: "finish_append_with_contents c sl p = Some c'" using p(2) by (simp add: finish_append_with_contents_def c'_def rust_assert_def)
  have al: "c_alloc c' = mem_write (c_alloc c) (val_ptr (data_ptr sl)) (to_vec p)" "c_skeens c' = c_skeens c"
    and tr: "c_trie c' = finish_append (c_trie c) (node (c_trie c) 6 (k div 1024), k mod 1024) (data_ptr sl)"
    using d(6) [OF k] by (simp_all add: c'_def atomic_store_def copy_to_def finish_append_def cell_def)
  have app: "appended ?vs (c_trie c')" unfolding tr by (rule finish_append_appended [OF d(1) d(5) [OF k] refl])
  have nodes: "cell (c_trie c') j = cell (c_trie c) j" for j
  proof -
    have "(k div 1024) * span 6 < length vals" using d(5) [OF k] by (simp add: span_def)
    then have "node (c_trie c) 6 (k div 1024) \<noteq> 0"
      using mid_appendD(4) [of vals 0 "c_trie c" 6 "k div 1024"] d(1) by (simp add: appended_def)
    then show ?thesis
      using node_write_value(1) [of "c_trie c" _ "k div 1024"] mid_appendD(1) [of vals 0 "c_trie c"] d(1)
      unfolding tr finish_append_def cell_def appended_def by simp
  qed
  have len: "length (to_vec p) = data_size sl" using p to_vec_length by simp
  have kept: "slot_state c' v s q = slot_state c v s q" if disj: "slot_region s \<inter> slot_region sl = {}" for v s q
  proof -
    have "mem_bytes c' (data_ptr s) (data_size s) = mem_bytes c (data_ptr s) (data_size s)"
      unfolding mem_bytes_def al by (rule mem_write_other) (use disj in \<open>simp only: len slot_region_def\<close>)
    then show ?thesis by (auto simp: slot_state_def split: option.splits)
  qed
  have new: "slot_state c' (data_ptr sl) sl (Some p)"
    using p to_vec_length [OF p(1)] mem_write_same by (simp add: slot_state_def mem_bytes_def al)
  have "rep ?vs blocks box c' ?R"
  proof (rule repI [OF app])
    fix j s q assume j: "?R j = Some (s, q)"
    show "entry_rep ?vs blocks box c' j s q"
    proof (cases "j = k")
      case True
      then show ?thesis using j new d(5-8) [OF k] by (simp add: entry_rep_def nodes al)
    next
      case False
      then have js: "R j = Some (s, q)" using j by simp
      then show ?thesis using False d(5-9) [OF js] kept [OF d(10) [OF js k False]] by (simp add: entry_rep_def nodes al)
    qed
    fix j' s' q' assume j': "?R j' = Some (s', q')" "j \<noteq> j'"
    obtain r where "R j = Some (s, r)" using j k by (cases "j = k") simp_all
    moreover obtain r' where "R j' = Some (s', r')" using j'(1) k by (cases "j' = k") simp_all
    ultimately show "slot_region s \<inter> slot_region s' = {}" using d(10) j'(2) by blast
  qed (use d(3,4,11) al in simp_all)
  moreover have "trie_len (c_trie c') = trie_len (c_trie c)"
    using appended_next [OF app] d(2) by (simp add: trie_len_def)
  ultimately show ?thesis using that [OF res] al by simp
qed

section \<open>A new chain\<close>

lemma first_reservation: "\<exists>v al. alloc_reserve_space bt_new 1 = Some (v, 0, al)"
proof -
  have z: "stored_bytes bt_new = 0" by (simp add: bt_new_def)
  obtain b where b: "bt_append bt_new 2 = Some ((fresh_mem bt_new, 2), 0, b)"
    using bt_append_fits [OF bt_new_inv, of 2] bt_place_aligned [OF bt_new_inv, of 2] z by auto
  have "fresh_mem bt_new mod 2 = 0" by (simp add: bt_new_def)
  then show ?thesis
    using b by (simp add: alloc_reserve_space_def alloc_prep_append_def max_in_block_size_def end_from_ptr_def
        rust_assert_def numeral_2_eq_2)
qed

lemma chain_new_rep:
  obtains c where "(chain_new :: 't chain option) = Some c" "chain_rep c Map.empty" "trie_len (c_trie c) = 1"
    "stored_bytes (c_alloc c) \<le> 16384" "c_skeens c = skeens_new" "fresh_mem (c_alloc c) \<le> 24577"
proof -
  let ?c0 = "\<lparr>c_trie = trie_new, c_alloc = bt_new, c_skeens = skeens_new\<rparr> :: 't chain"
  have r0: "rep [] [] {} ?c0 Map.empty"
    by (rule repI) (use trie_new_appended bt_new_inv in \<open>simp_all add: alloc_inv_def bt_new_def rc_base_def\<close>)
  have room: "chain_room 1 ?c0" by (simp add: chain_room_def trie_len_def trie_new_def bt_new_def rc_base_def)
  obtain sl c1 blocks box where c1: "partial_append ?c0 1 = Some (sl, c1)"
    "rep ([] @ [0]) blocks box c1 [length ([] :: nat list) \<mapsto> (sl, None)]" "data_size sl = 1"
    "stored_bytes (c_alloc c1) \<le> stored_bytes (c_alloc ?c0) + 16384" "c_skeens c1 = c_skeens ?c0"
    "fresh_mem (c_alloc c1) \<le> fresh_mem (c_alloc ?c0) + 1 + 16384"
    using partial_append_total [OF r0 room order_refl] .
  have "storage_loc sl = 0" using c1(1) first_reservation by (auto simp: partial_append_def rust_simps)
  define c where "c = atomic_store (copy_to c1 (data_ptr sl) [kRead]) (trie_entry sl) (data_ptr sl)"
  have new: "chain_new = Some c"
    using c1(1,3) \<open>storage_loc sl = 0\<close> by (simp add: chain_new_def write_byte_def c_def rust_assert_def)
  note d = repD [OF c1(2)]
  have tr: "c_trie c = finish_append (c_trie c1) (node (c_trie c1) 6 (0 div 1024), 0 mod 1024) (data_ptr sl)"
    "c_alloc c = mem_write (c_alloc c1) (val_ptr (data_ptr sl)) [kRead]" "c_skeens c = skeens_new"
    using d(6) [of 0 sl None] c1(5)
    by (simp_all add: c_def atomic_store_def copy_to_def finish_append_def cell_def)
  have app: "appended [data_ptr sl] (c_trie c)"
    using finish_append_appended [OF d(1), of 0 _ "data_ptr sl"] by (simp add: tr)
  then have len: "trie_len (c_trie c) = 1" using appended_next by (fastforce simp: trie_len_def)
  have "rep [data_ptr sl] blocks box c Map.empty"
    by (rule repI [OF app]) (use d(4,11) in \<open>simp_all add: tr\<close>)
  then have "chain_rep c Map.empty" using len unfolding chain_rep_def by auto
  moreover have "stored_bytes (c_alloc c) \<le> 16384" "fresh_mem (c_alloc c) \<le> 24577"
    using c1(4,6) by (simp_all add: tr bt_new_def)
  ultimately show ?thesis using that [OF new] len tr(3) by blast
qed

end
