(* ===== verification/Server_Rep.thy ===== *)
theory Server_Rep
  imports Worker Chain_Store
begin

text \<open>
  The server refines a map from chains to entries: the ordering thread reserves an entry for an append, a
  worker publishes it, and a read through the ordering thread and a worker returns exactly the published
  packet, whatever was reserved or published in between.
\<close>

section \<open>The server as a map\<close>

definition server_rep :: "'t server_log \<Rightarrow> (order \<Rightarrow> contents) \<Rightarrow> bool" where
  "server_rep s M \<longleftrightarrow>
     (\<forall>o'. case log_chains s o' of None \<Rightarrow> M o' = Map.empty | Some c \<Rightarrow> chain_rep c (M o'))"

lemma server_repD:
  assumes "server_rep s M"
  shows "log_chains s o' = Some c \<Longrightarrow> chain_rep c (M o')" "log_chains s o' = None \<Longrightarrow> M o' = Map.empty"
  using spec [OF assms [unfolded server_rep_def], of o'] by simp_all

lemma server_rep_entry:
  assumes "server_rep s M" "M o' k = Some x"
  obtains c where "log_chains s o' = Some c" "chain_rep c (M o')"
proof (cases "log_chains s o'")
  case None
  then have "M o' = Map.empty" by (rule server_repD(2) [OF assms(1)])
  then show ?thesis using assms(2) by simp
next
  case (Some c)
  then show ?thesis using that [OF Some server_repD(1) [OF assms(1) Some]] by simp
qed

lemma server_rep_set:
  assumes "server_rep s M" "chain_rep c R"
  shows "server_rep (set_chain s o' c) (M(o' := R))"
  unfolding server_rep_def
proof
  fix q
  show "case log_chains (set_chain s o' c) q of None \<Rightarrow> (M(o' := R)) q = Map.empty
    | Some c \<Rightarrow> chain_rep c ((M(o' := R)) q)"
    using assms spec [OF assms(1) [unfolded server_rep_def], of q] unfolding set_chain_def
    by (cases "q = o'") (simp_all cong: option.case_cong)
qed

lemma server_rep_cong: "log_chains s' = log_chains s \<Longrightarrow> server_rep s' M = server_rep s M"
  by (simp add: server_rep_def)

lemma send_to_worker_sel [simp]:
  "log_chains (send_to_worker s m) = log_chains s" "to_workers (send_to_worker s m) = to_workers s @ [m]"
  by (simp_all add: send_to_worker_def)

lemma set_chain_sel [simp]:
  "log_chains (set_chain s o' c) = (log_chains s)(o' \<mapsto> c)" "to_workers (set_chain s o' c) = to_workers s"
  by (simp_all add: set_chain_def)

lemma chain_new_cases:
  assumes a: "(chain_new :: 't chain option) = Some c"
  shows "chain_rep c Map.empty"
proof (rule chain_new_rep [where 't = 't])
  fix c' :: "'t chain"
  assume b: "chain_new = Some c'" "chain_rep c' Map.empty"
  have "Some c = Some c'" using a b(1) by (rule subst)
  then show ?thesis using b(2) by simp
qed

lemma ensure_chain_rep:
  assumes "server_rep s M" "ensure_chain s o' = Some (c, s1)"
  shows "server_rep s1 M" "chain_rep c (M o')" "log_chains s1 o' = Some c" "to_workers s1 = to_workers s"
proof -
  have "chain_rep c (M o') \<and> log_chains s1 o' = Some c \<and> to_workers s1 = to_workers s \<and> server_rep s1 M"
  proof (cases "log_chains s o'")
    case None
    then have "Option.bind chain_new (\<lambda>c. Some (c, set_chain s o' c)) = Some (c, s1)"
      using assms(2) by (simp add: ensure_chain_def)
    then obtain x where x: "chain_new = Some x" "Some (x, set_chain s o' x) = Some (c, s1)"
      unfolding bind_eq_Some by (elim exE conjE)
    have xc: "x = c" and s1: "s1 = set_chain s o' c" using x(2) by auto
    have c: "chain_new = Some c" using x(1) unfolding xc .
    have "M o' = Map.empty" by (rule server_repD(2) [OF assms(1) None])
    then have "chain_rep c (M o')" using chain_new_cases [OF c] by simp
    then show ?thesis using server_rep_set [OF assms(1), of c "M o'" o'] s1 by simp
  next
    case (Some c0)
    then show ?thesis using assms server_repD(1) [OF assms(1) Some] by (simp add: ensure_chain_def)
  qed
  then show "server_rep s1 M" "chain_rep c (M o')" "log_chains s1 o' = Some c" "to_workers s1 = to_workers s"
    by blast+
qed

lemma ensure_chain_total:
  fixes s :: "'t server_log"
  shows "\<exists>c s1. ensure_chain s o' = Some (c, s1)"
proof (cases "log_chains s o'")
  case None
  obtain c where c: "(chain_new :: 't chain option) = Some c" using chain_new_rep [where 't = 't] by blast
  have "ensure_chain s o' = Some (c, set_chain s o' c)" unfolding ensure_chain_def c using None by simp
  then show ?thesis by blast
qed (simp add: ensure_chain_def)

lemma chain_rep_skeens [simp]: "chain_rep (c\<lparr>c_skeens := sk\<rparr>) R = chain_rep c R"
  by (simp add: chain_rep_def rep_def slot_state_def mem_bytes_def cong: option.case_cong)

text \<open>Giving up a prefix (\<open>set_min\<close>) keeps what is stored until it is collected.\<close>

lemma chain_rep_set_min [simp]: "chain_rep (set_min c mn) R = chain_rep c R"
  by (simp add: chain_rep_def rep_def slot_state_def mem_bytes_def set_min_def appended_def mid_append_def trie_wf_def
      shortcut_at_def trie_len_def cell_def cong: option.case_cong)

section \<open>Reserving\<close>

lemma chain_append:
  assumes rep: "chain_rep c R" and p: "p = PSingle i f (o', x) ds d ts" and room: "chain_room (pkt_len p) c"
  obtains sl c' where "append_data c p =
      Some (sl, PSingle i (bits_insert f fReadSuccess) (o', trie_len (c_trie c)) ds d ts, c')"
    "chain_rep c' (R(trie_len (c_trie c) \<mapsto> (sl, None)))" "data_size sl = pkt_len p"
proof -
  obtain vals blocks box where r: "rep vals blocks box c R" using rep by (auto simp: chain_rep_def)
  have sz: "1 \<le> pkt_len p" by (simp add: pkt_len_def packet_len_def)
  obtain sl c' blocks' box' where s: "partial_append c (pkt_len p) = Some (sl, c')"
    "rep (vals @ [0]) blocks' box' c' (R(length vals \<mapsto> (sl, None)))" "data_size sl = pkt_len p"
    "stored_bytes (c_alloc c') \<le> stored_bytes (c_alloc c) + 16384" "c_skeens c' = c_skeens c"
    "fresh_mem (c_alloc c') \<le> fresh_mem (c_alloc c) + pkt_len p + 16384"
    using partial_append_total [OF r room sz] .
  let ?p = "PSingle i (bits_insert f fReadSuccess) (o', trie_len (c_trie c)) ds d ts"
  have "pkt_len ?p = pkt_len p"
    by (simp add: p pkt_len_def packet_len_def pkt_variant_def fields_defs field_size_def counters_def is_size_var_def)
  then have "append_data c p = Some (sl, ?p, c')" using s(1) by (simp add: append_data_def p)
  moreover have "trie_len (c_trie c') = Suc (length vals)" using repD(2) [OF s(2)] by simp
  then have "chain_rep c' (R(trie_len (c_trie c) \<mapsto> (sl, None)))"
    using s(2) repD(2) [OF r] unfolding chain_rep_def by auto
  ultimately show ?thesis using that s(3) by blast
qed

lemma reserve_step:
  assumes rep: "server_rep s M" and p: "p = PSingle i f (o', x) ds d ts" and nw: "\<not> bits_contains f fDirectWrite"
    and st: "stores_chain s o' = Some True" and c: "ensure_chain s o' = Some (c, s1)"
    and sk: "need_single_at (c_skeens c) ts = Some (False, sk)" and room: "chain_room (pkt_len p) c"
  shows "\<exists>s' sl. handle_data s p t = Some s' \<and>
    to_workers s' = to_workers s @
      [TwWrite (PSingle i (bits_insert f fReadSuccess) (o', trie_len (c_trie c)) ds d ts) o' sl t] \<and>
    data_size sl = pkt_len p \<and> server_rep s' (M(o' := (M o')(trie_len (c_trie c) \<mapsto> (sl, None))))"
proof -
  note r = ensure_chain_rep [OF rep c]
  let ?c = "c\<lparr>c_skeens := sk\<rparr>"
  have r': "chain_rep ?c (M o')" and room': "chain_room (pkt_len p) ?c"
    using r(2) room by (simp_all add: chain_room_def)
  obtain sl c' where a: "append_data ?c p =
      Some (sl, PSingle i (bits_insert f fReadSuccess) (o', trie_len (c_trie ?c)) ds d ts, c')"
    "chain_rep c' ((M o')(trie_len (c_trie ?c) \<mapsto> (sl, None)))" "data_size sl = pkt_len p"
    using chain_append [OF r' p room'] .
  let ?m = "TwWrite (PSingle i (bits_insert f fReadSuccess) (o', trie_len (c_trie c)) ds d ts) o' sl t"
  have "handle_data s p t = Some (send_to_worker (set_chain s1 o' c') ?m)"
    using st c sk nw a(1) by (simp add: handle_data_def p)
  moreover have "server_rep (send_to_worker (set_chain s1 o' c') ?m) (M(o' := (M o')(trie_len (c_trie c) \<mapsto> (sl, None))))"
    using server_rep_set [OF r(1) a(2), of o'] server_rep_cong [of "send_to_worker (set_chain s1 o' c') ?m" "set_chain s1 o' c'"]
    by simp
  ultimately show ?thesis using a(3) r(4) by simp
qed

text \<open>C6: an append to a chain without waiting multi-appends returns: the entry gets the next index of
  the chain, written into the packet that is sent to a worker together with a slot of the packet's length,
  and no entry reserved or published before is disturbed.\<close>

theorem append_reserves:
  assumes rep: "server_rep s M" and p: "p = PSingle i f (o', x) ds d ts" and nw: "\<not> bits_contains f fDirectWrite"
    and st: "stores_chain s o' = Some True" and c: "ensure_chain s o' = Some (c, s1)"
    and sk: "need_single_at (c_skeens c) ts = Some (False, sk)" and room: "chain_room (pkt_len p) c"
  shows "\<exists>s' sl. handle_data s p t = Some s' \<and>
    to_workers s' = to_workers s @
      [TwWrite (PSingle i (bits_insert f fReadSuccess) (o', trie_len (c_trie c)) ds d ts) o' sl t] \<and>
    data_size sl = pkt_len p \<and> server_rep s' (M(o' := (M o')(trie_len (c_trie c) \<mapsto> (sl, None))))"
  by (rule reserve_step [OF assms])

lemma ensure_chain_new:
  fixes s :: "'t server_log"
  assumes "log_chains s o' = None" "sz \<le> 2 ^ 32"
  obtains c where "ensure_chain s o' = Some (c, set_chain s o' c)" "trie_len (c_trie c) = 1" "c_skeens c = skeens_new"
    "chain_room sz c"
proof (rule chain_new_rep [where 't = 't])
  fix c :: "'t chain"
  assume c: "chain_new = Some c" "trie_len (c_trie c) = 1" "stored_bytes (c_alloc c) \<le> 16384" "c_skeens c = skeens_new"
    "fresh_mem (c_alloc c) \<le> 24577"
  have "ensure_chain s o' = Some (c, set_chain s o' c)" unfolding ensure_chain_def c(1) using assms by simp
  moreover have "chain_room sz c" using c(2,3,5) assms(2) by (simp add: chain_room_def rc_base_def)
  ultimately show thesis using that c(2,4) by blast
qed

definition demo_server :: "nat server_log" where
  "demo_server = \<lparr>log_chains = Map.empty, total_servers = 1, this_server_num = 0, to_workers = [],
     storages = (\<lambda>_. \<lparr>ms_timestamps = [], ms_queue_indicies = [], ms_st0 = rc_base, ms_st1 = None, ms_pointers = []\<rparr>),
     rc_slices_mem = (\<lambda>_. [])\<rparr>"

definition demo_append :: packet where
  "demo_append = PSingle 7 0 (5, 0) [] [65, 66] 0"

definition demo_entry :: packet where
  "demo_entry = PSingle 7 1 (5, 1) [] [65, 66] 0"

definition demo_map :: "append_slot \<Rightarrow> packet option \<Rightarrow> order \<Rightarrow> contents" where
  "demo_map sl q = (\<lambda>o'. if o' = 5 then [1 \<mapsto> (sl, q)] else Map.empty)"

lemma demo_map_upd:
  "(\<lambda>_. Map.empty)(5 := Map.empty(1 \<mapsto> (sl, q))) = demo_map sl q"
  "(demo_map sl q)(5 := (demo_map sl q 5)(1 \<mapsto> (sl, q'))) = demo_map sl q'"
  by (auto simp: demo_map_def fun_eq_iff)

lemma demo_start: "server_rep demo_server (\<lambda>_. Map.empty)" "stores_chain demo_server 5 = Some True"
  "log_chains demo_server 5 = None"
  by (simp_all add: server_rep_def demo_server_def stores_chain_def rust_assert_def)

lemma demo_packet: "packet_fits demo_entry" "pkt_len demo_entry = pkt_len demo_append" "pkt_len demo_append \<le> 2 ^ 32"
  by (simp_all add: demo_entry_def demo_append_def pkt_len_def packet_len_def pkt_variant_def fields_defs field_size_def
      counters_def is_size_var_def oi_fits_def ois_fit_def data_fits_def)

lemma demo_flag: "\<not> bits_contains 0 fDirectWrite" "bits_insert 0 fReadSuccess = 1"
  by (simp_all add: bits_contains_def bits_insert_def fDirectWrite_def fReadSuccess_def)

lemma demo_reserve:
  obtains c sk where "ensure_chain demo_server 5 = Some (c, set_chain demo_server 5 c)" "trie_len (c_trie c) = 1"
    "need_single_at (c_skeens c) 0 = Some (False, sk)" "chain_room (pkt_len demo_append) c"
proof -
  obtain c where c: "ensure_chain demo_server 5 = Some (c, set_chain demo_server 5 c)" "trie_len (c_trie c) = 1"
    "c_skeens c = skeens_new" "chain_room (pkt_len demo_append) c"
    using ensure_chain_new [OF demo_start(3) demo_packet(3)] .
  have "\<exists>sk. need_single_at skeens_new 0 = Some (False, sk :: nat skeens_state)"
    by (simp add: need_single_at_def skeens_eval)
  then show ?thesis using that c by metis
qed

theorem append_reserves_witness:
  "\<exists>s' sl. handle_data demo_server demo_append 3 = Some s' \<and> to_workers s' = [TwWrite demo_entry 5 sl 3] \<and>
    data_size sl = pkt_len demo_append \<and> server_rep s' (demo_map sl None)"
proof -
  obtain c sk where c: "ensure_chain demo_server 5 = Some (c, set_chain demo_server 5 c)" "trie_len (c_trie c) = 1"
    "need_single_at (c_skeens c) 0 = Some (False, sk)" "chain_room (pkt_len demo_append) c"
    using demo_reserve .
  show ?thesis
    using append_reserves [OF demo_start(1) demo_append_def demo_flag(1) demo_start(2) c(1,3,4), of 3]
    unfolding c(2) demo_flag(2) demo_entry_def [symmetric] demo_map_upd by (simp add: demo_server_def)
qed

section \<open>Publishing\<close>

text \<open>The bytes copied into a slot are the ones read back from it, so that the assertion of
  \<^const>\<open>slot_finish_append\<close> holds.\<close>

lemma slot_finish_append_same:
  assumes "finish_append_with_contents c sl p = Some c'" "packet_fits p" "data_size sl = pkt_len p"
  shows "slot_finish_append c sl p = Some (to_vec p, c')"
proof -
  have len: "length (to_vec p) = data_size sl" using assms to_vec_length by simp
  have c': "c' = atomic_store (copy_to c (data_ptr sl) (to_vec p)) (trie_entry sl) (data_ptr sl)"
    using assms by (auto simp: finish_append_with_contents_def rust_simps)
  have "to_sized_packet c' (data_ptr sl) (data_size sl) = to_vec p"
    using mem_write_same [OF len refl] by (simp add: c' to_sized_packet_def atomic_store_def copy_to_def)
  moreover have "bytes_as_entry (to_vec p) = Some p"
    using try_packet_to_vec [OF assms(2), of "[]"] by (simp add: bytes_as_entry_def)
  ultimately show ?thesis using len by (simp add: slot_finish_append_def c' Let_def rust_assert_def)
qed

lemma publish_step:
  assumes rep: "server_rep s M" and k: "M o' k = Some (sl, None)"
    and p: "packet_fits p" "data_size sl = pkt_len p"
  shows "\<exists>s'. handle_to_worker2 s cont last_ref (TwWrite p o' sl t) =
      Some (Some p, (if cont then SOldReplication (to_vec p) (storage_loc sl) else SStaticSlice (to_vec p)), s') \<and>
    server_rep s' (M(o' := (M o')(k \<mapsto> (sl, Some p))))"
proof -
  obtain c where c: "log_chains s o' = Some c" "chain_rep c (M o')" using server_rep_entry [OF rep k] .
  obtain vals blocks box where r: "rep vals blocks box c (M o')" using c(2) by (auto simp: chain_rep_def)
  obtain c' where c': "finish_append_with_contents c sl p = Some c'"
    "rep (vals[k := data_ptr sl]) blocks box c' ((M o')(k \<mapsto> (sl, Some p)))"
    "trie_len (c_trie c') = trie_len (c_trie c)" "stored_bytes (c_alloc c') = stored_bytes (c_alloc c)"
    "c_skeens c' = c_skeens c"
    using finish_total [OF r k p] .
  have "slot_finish_append c sl p = Some (to_vec p, c')" by (rule slot_finish_append_same [OF c'(1) p])
  then have "handle_to_worker2 s cont last_ref (TwWrite p o' sl t) = Some (Some p,
      (if cont then SOldReplication (to_vec p) (storage_loc sl) else SStaticSlice (to_vec p)), set_chain s o' c')"
    using c(1) by (simp add: finish_write_def)
  moreover have "chain_rep c' ((M o')(k \<mapsto> (sl, Some p)))"
    using c'(2,3) c(2) unfolding chain_rep_def by auto
  ultimately show ?thesis using server_rep_set [OF rep] by blast
qed

text \<open>C7: a worker that gets the message of a reserved entry writes the packet into its own bytes and
  publishes it at its index, and changes no other entry of the chain.\<close>

theorem worker_publishes:
  assumes rep: "server_rep s M" and k: "M o' k = Some (sl, None)"
    and p: "packet_fits p" "data_size sl = pkt_len p"
  shows "\<exists>s'. handle_to_worker2 s cont last_ref (TwWrite p o' sl t) =
      Some (Some p, (if cont then SOldReplication (to_vec p) (storage_loc sl) else SStaticSlice (to_vec p)), s') \<and>
    server_rep s' (M(o' := (M o')(k \<mapsto> (sl, Some p))))"
  by (rule publish_step [OF assms])

section \<open>Reading\<close>

lemma load_chain:
  "log_chains s o' = Some c \<Longrightarrow> val_ptr v < rc_base \<Longrightarrow> load s o' v = (\<lambda>i. mem (c_alloc c) (val_ptr v + i))"
  by (rule ext) (simp add: load_def)

text \<open>C8: a read of a published entry is sent to a worker with the entry's pointer, and the worker answers
  with exactly the bytes of the packet that was published there.\<close>

theorem read_returns_entry:
  assumes rep: "server_rep s M" and k: "M o' k = Some (sl, Some p)" and q: "q = PRead i f db dp (o', k) h mn"
  shows "\<exists>s'. handle_read s q t = Some s' \<and> to_workers s' = to_workers s @ [TwRead o' (data_ptr sl) q t] \<and>
    handle_to_worker2 s' cont last_ref (TwRead o' (data_ptr sl) q t) = Some (Some q, SRead (to_vec p), s') \<and>
    server_rep s' M"
proof -
  obtain c where c: "log_chains s o' = Some c" "chain_rep c (M o')" using server_rep_entry [OF rep k] .
  note r = chain_rep_read [OF c(2) k]
  let ?s = "send_to_worker s (TwRead o' (data_ptr sl) q t)"
  have "handle_read s q t = Some ?s" using c(1) r(1) by (simp add: handle_read_def q)
  moreover have "load ?s o' (data_ptr sl) = (\<lambda>i. mem (c_alloc c) (val_ptr (data_ptr sl) + i))"
    using load_chain [of ?s o' c] c(1) r(2) by simp
  moreover have "server_rep ?s M" using rep by (simp add: server_rep_cong [of ?s s])
  ultimately show ?thesis using r(3) by simp
qed

text \<open>C9: a read past the end of a chain, of an entry that is reserved but not published, or of a chain
  the server does not have is answered with a \<open>Read\<close> packet that names the last valid index.\<close>

theorem read_of_nothing:
  assumes rep: "server_rep s M" and k: "k < 2 ^ 64" and q: "q = PRead i f db dp (o', k) h mn"
    and none: "log_chains s o' = None \<and> n = 0 \<or>
      log_chains s o' = Some c \<and> n = trie_len (c_trie c) - 1 \<and>
      (trie_len (c_trie c) \<le> k \<or> (\<exists>sl. M o' k = Some (sl, None)))"
  shows "\<exists>s'. handle_read s q t = Some s' \<and> to_workers s' = to_workers s @ [TwEmptyRead n q t] \<and>
    handle_to_worker2 s' cont last_ref (TwEmptyRead n q t) =
      Some (Some q, SContents (PRead i fNothing 0 0 (o', k) (o', n) (o', 0)), s') \<and> server_rep s' M"
proof -
  let ?s = "send_to_worker s (TwEmptyRead n q t)"
  have "handle_read s q t = Some ?s"
  proof (cases "log_chains s o'")
    case None
    then show ?thesis using none by (simp add: handle_read_def q)
  next
    case (Some c')
    then have c: "c' = c" "n = trie_len (c_trie c) - 1"
      "trie_len (c_trie c) \<le> k \<or> (\<exists>sl. M o' k = Some (sl, None))" using none by auto
    have cr: "chain_rep c (M o')" using server_repD(1) [OF rep Some] c(1) by simp
    have g: "trie_get (c_trie c) k = None" using chain_rep_unwritten [OF cr k c(3)] .
    have "0 < trie_len (c_trie c)" using cr by (simp add: chain_rep_def)
    then show ?thesis using Some g c(1,2) by (simp add: handle_read_def q u64_sub_def)
  qed
  moreover have "server_rep ?s M" using rep by (simp add: server_rep_cong [of ?s s])
  ultimately show ?thesis by (simp add: finish_empty_read_def q)
qed

lemma load_send [simp]: "load (send_to_worker s m) = load s"
  by (intro ext) (simp add: load_def send_to_worker_def)

text \<open>What a client is sent for a read that goes through the ordering thread and a worker.\<close>

definition ordered_read :: "'t server_log \<Rightarrow> packet \<Rightarrow> 't \<Rightarrow> to_send option" where
  "ordered_read s q t = do {
     s' \<leftarrow> handle_read s q t;
     (_, out, _) \<leftarrow> handle_to_worker2 s' False False (last (to_workers s'));
     Some out
   }"

text \<open>C10: a worker that answers a read itself, by its own walk of the trie, gives the answer that the ordering
  thread and a worker give together: the same bytes where there is an entry, and otherwise the same \<open>Read\<close> packet
  up to the lower bound in it, which only the worker fills in. The index is not 0, since the worker asserts that,
  and if the server has the chain, the index is not below the collected prefix and the chain has its first entry.
  The second part says what the two give: the bytes at the edge that the walk finds.\<close>

theorem worker_read_agrees:
  assumes k: "0 < k" and c: "\<forall>c. log_chains s o' = Some c \<longrightarrow> min_entry (c_trie c) \<le> k \<and> 0 < trie_len (c_trie c)"
  shows "ordered_read s (PRead i f db dp (o', k) h mn) t =
      map_option (\<lambda>r. case r of Inl bytes \<Rightarrow> SRead bytes
          | Inr p \<Rightarrow> SContents (PRead i fNothing 0 0 (o', k) (the (pkt_horizon p)) (o', 0)))
        (worker_handle_read s (PRead i f db dp (o', k) h mn)) \<and>
    (\<forall>c v. log_chains s o' = Some c \<and> trie_get (c_trie c) k = Some v \<longrightarrow>
      worker_handle_read s (PRead i f db dp (o', k) h mn) = map_option Inl (packet_bytes (load s o' v)))"
proof (cases "log_chains s o'")
  case None
  then show ?thesis using k by (simp add: ordered_read_def worker_handle_read_def handle_read_def finish_empty_read_def rust_assert_def)
next
  case chain: (Some c)
  then have k': "0 < k" "trie_atomic_get (c_trie c) k = trie_get (c_trie c) k" "0 < trie_len (c_trie c)"
    using assms by (simp_all add: trie_atomic_get_walk)
  show ?thesis
  proof (cases "trie_get (c_trie c) k")
    case None
    then show ?thesis using chain k' by (simp add: ordered_read_def worker_handle_read_def handle_read_def trie_bounds_def
        trie_len_def finish_empty_read_def u64_sub_def rust_assert_def)
  next
    case (Some v)
    then show ?thesis using chain k' by (cases "packet_bytes (load s o' v)")
      (simp_all add: ordered_read_def worker_handle_read_def handle_read_def rust_assert_def)
  qed
qed

section \<open>An append, its publication and a read\<close>

lemma demo_reserved:
  "\<exists>(s :: nat server_log) sl. server_rep s (demo_map sl None) \<and>
    data_size sl = pkt_len demo_entry"
proof -
  obtain c sk where c: "ensure_chain demo_server 5 = Some (c, set_chain demo_server 5 c)" "trie_len (c_trie c) = 1"
    "need_single_at (c_skeens c) 0 = Some (False, sk)" "chain_room (pkt_len demo_append) c"
    using demo_reserve .
  show ?thesis
    using reserve_step [OF demo_start(1) demo_append_def demo_flag(1) demo_start(2) c(1,3,4), of 3]
    unfolding c(2) demo_map_upd demo_packet(2) by blast
qed

lemma demo_published:
  "\<exists>(s :: nat server_log) sl. server_rep s (demo_map sl (Some demo_entry))"
proof -
  obtain s :: "nat server_log" and sl where r: "server_rep s (demo_map sl None)"
    "data_size sl = pkt_len demo_entry" using demo_reserved by blast
  have "demo_map sl None 5 1 = Some (sl, None)" by (simp add: demo_map_def)
  from publish_step [OF r(1) this demo_packet(1) r(2)] show ?thesis unfolding demo_map_upd by blast
qed

theorem worker_publishes_witness:
  "\<exists>(s :: nat server_log) sl s'. server_rep s (demo_map sl None) \<and>
    handle_to_worker2 s False False (TwWrite demo_entry 5 sl 3) = Some (Some demo_entry, SStaticSlice (to_vec demo_entry), s') \<and>
    server_rep s' (demo_map sl (Some demo_entry))"
proof -
  obtain s :: "nat server_log" and sl where r: "server_rep s (demo_map sl None)"
    "data_size sl = pkt_len demo_entry" using demo_reserved by blast
  have "demo_map sl None 5 1 = Some (sl, None)" by (simp add: demo_map_def)
  from worker_publishes [OF r(1) this demo_packet(1) r(2), of False False 3] r(1) show ?thesis
    unfolding demo_map_upd if_False by blast
qed

theorem read_returns_entry_witness:
  "\<exists>(s :: nat server_log) s' v. handle_read s (PRead 9 0 0 0 (5, 1) (5, 0) (5, 0)) 3 = Some s' \<and>
    handle_to_worker2 s' False False (TwRead 5 v (PRead 9 0 0 0 (5, 1) (5, 0) (5, 0)) 3) =
      Some (Some (PRead 9 0 0 0 (5, 1) (5, 0) (5, 0)), SRead (to_vec demo_entry), s')"
proof -
  obtain s :: "nat server_log" and sl where r: "server_rep s (demo_map sl (Some demo_entry))"
    using demo_published by blast
  have "demo_map sl (Some demo_entry) 5 1 = Some (sl, Some demo_entry)" by (simp add: demo_map_def)
  from read_returns_entry [OF r this refl] show ?thesis by blast
qed

theorem read_of_nothing_witness:
  "\<exists>s'. handle_read demo_server (PRead 9 0 0 0 (5, 1) (5, 0) (5, 0)) 3 = Some s' \<and>
    to_workers s' = [TwEmptyRead 0 (PRead 9 0 0 0 (5, 1) (5, 0) (5, 0)) 3]"
  using read_of_nothing [OF demo_start(1) _ refl, of 1 5 0 undefined 9 0 0 0 "(5, 0)" "(5, 0)" 3 False False]
    demo_start(3) by (auto simp: demo_server_def)

theorem worker_read_agrees_witness:
  "\<exists>(s :: nat server_log) sl. server_rep s (demo_map sl (Some demo_entry)) \<and>
    worker_handle_read s (PRead 9 0 0 0 (5, 1) (5, 0) (5, 0)) = Some (Inl (to_vec demo_entry)) \<and>
    ordered_read s (PRead 9 0 0 0 (5, 1) (5, 0) (5, 0)) 3 = Some (SRead (to_vec demo_entry))"
proof -
  obtain s :: "nat server_log" and sl where r: "server_rep s (demo_map sl (Some demo_entry))"
    using demo_published by blast
  have m: "demo_map sl (Some demo_entry) 5 1 = Some (sl, Some demo_entry)" by (simp add: demo_map_def)
  obtain c where c: "log_chains s 5 = Some c" "chain_rep c (demo_map sl (Some demo_entry) 5)"
    using server_rep_entry [OF r m] .
  let ?c = "set_min c 1" and ?s = "set_chain s 5 (set_min c 1)"
  have c': "log_chains ?s 5 = Some ?c" "chain_rep ?c (demo_map sl (Some demo_entry) 5)" using c by simp_all
  have "server_rep ?s (demo_map sl (Some demo_entry))" using server_rep_set [OF r c'(2), of 5] by simp
  moreover have "min_entry (c_trie ?c) = 1" "0 < trie_len (c_trie ?c)" using c'(2) by (simp_all add: set_min_def chain_rep_def)
  moreover have "packet_bytes (load ?s 5 (data_ptr sl)) = Some (to_vec demo_entry)"
    using chain_rep_read [OF c'(2) m] load_chain [OF c'(1)] by simp
  ultimately show ?thesis
    using worker_read_agrees [of 1 ?s 5 9 0 0 0 "(5, 0)" "(5, 0)" 3] chain_rep_read(1) [OF c'(2) m] c'(1)
    by (intro exI [of _ ?s] exI [of _ sl]) simp
qed

end
