(* ===== verification/Chain_Order.thy ===== *)
theory Chain_Order
  imports Chain_Store
begin

text \<open>
  The order of a chain's entries: what Skeen's protocol delivers becomes indices in the order of delivery,
  and so two chains place the multi-appends they share in the same order and a snapshot cuts both of them
  at the same point of that order.
\<close>

section \<open>Positions and indices\<close>

lemma index_position:
  assumes "log_ok n log" "i < length log" "j < length log" "placed (snd (log ! j))"
  shows "finish_index (snd (log ! i)) < finish_index (snd (log ! j)) \<longleftrightarrow> i < j"
proof -
  have s: "sorted_wrt index_order (map snd log)" using assms(1) by (simp add: log_ok_def)
  have lt: "index_order (snd (log ! a)) (snd (log ! b))" if "a < b" "b < length log" for a b
    using sorted_wrt_nth_less [OF s that(1)] that by simp
  consider "i < j" | "i = j" | "j < i" by linarith
  then show ?thesis
  proof cases
    case 1
    then show ?thesis using lt [OF 1 assms(3)] assms(4) by (simp add: index_order_def)
  next
    case 3
    then show ?thesis using lt [OF 3 assms(2)] by (auto simp: index_order_def split: if_splits)
  qed simp
qed

text \<open>C11: along every run of a chain each delivery is reported with what it was appended with, deliveries
  that take an entry get strictly increasing indices in the order of delivery, a sentinel or a snapshot
  gets an index no smaller than every delivery before it, and every index is one of the chain's.\<close>

theorem deliveries_get_increasing_indices:
  assumes "chain_run o' rs log c"
  shows "list_all (\<lambda>(g, f). reported g f \<and> finish_index f < trie_len (c_trie c)) log \<and>
    sorted_wrt index_order (map snd log)"
proof -
  obtain n where "chain_len_ok n c" "log_ok n log" using chain_run_inv [OF assms] by (auto simp: chain_inv_def)
  moreover from this(1) have "n = trie_len (c_trie c)" using trie_ok_len by (simp add: chain_len_ok_def trie_len_def)
  ultimately show ?thesis by (simp add: log_ok_def)
qed

text \<open>C5: of two chains that were given the same maxima, and of two multi-appends or snapshots both
  delivered, the second with an entry of its own on both chains: the first has the smaller index on one chain
  if and only if it has on the other. So shared multi-appends lie in the same order on both, and a snapshot
  is behind a multi-append on both or on neither.\<close>

theorem indices_agree:
  assumes r1: "chain_run o1 rs1 log1 c1" and r2: "chain_run o2 rs2 log2 c2"
    and same_max: "\<forall>uid m m'. ReqMax uid m \<in> set rs1 \<longrightarrow> ReqMax uid m' \<in> set rs2 \<longrightarrow> m = m'"
    and i: "i < length log1" "j < length log1" "i' < length log2" "j' < length log2"
    and multi: "is_multi (fst (log1 ! i))" "is_multi (fst (log1 ! j))" "is_multi (fst (log2 ! i'))" "is_multi (fst (log2 ! j'))"
    and ids: "gm_get_id (fst (log1 ! i)) = gm_get_id (fst (log2 ! i'))" "gm_get_id (fst (log1 ! j)) = gm_get_id (fst (log2 ! j'))"
    and own: "placed (snd (log1 ! j))" "placed (snd (log2 ! j'))"
  shows "finish_index (snd (log1 ! i)) < finish_index (snd (log1 ! j)) \<longleftrightarrow>
    finish_index (snd (log2 ! i')) < finish_index (snd (log2 ! j'))"
proof -
  obtain n1 acc1 where l1: "log_ok n1 log1" and s1: "sk_run rs1 acc1 (map fst log1) (c_skeens c1)"
    using chain_run_inv [OF r1] by (auto simp: chain_inv_def)
  obtain n2 acc2 where l2: "log_ok n2 log2" and s2: "sk_run rs2 acc2 (map fst log2) (c_skeens c2)"
    using chain_run_inv [OF r2] by (auto simp: chain_inv_def)
  have "i < j \<longleftrightarrow> i' < j'"
    using agree_positions [OF s1 s2 same_max, of i j i' j'] i multi ids by simp
  then show ?thesis
    using index_position [OF l1 i(1,2) own(1)] index_position [OF l2 i(3,4) own(2)] by simp
qed

section \<open>Two chains\<close>

lemma trie_prep_append_total:
  assumes "chain_len_ok n c" "n < 2 ^ 62"
  shows "\<exists>p c'. trie_prep_append c = Some (n, p, c') \<and> chain_len_ok (Suc n) c' \<and> c_skeens c' = c_skeens c"
proof -
  obtain vals where v: "length vals = n" "appended vals (c_trie c)"
    using assms(1) by (auto simp: chain_len_ok_def trie_ok_def)
  obtain sl t' where p: "prep_append (c_trie c) 0 = Some (n, sl, t')"
    using prep_append_appended [OF v(2), of 0] v(1) assms(2) by metis
  then have t: "trie_prep_append c = Some (n, PCell (fst sl) (snd sl), c\<lparr>c_trie := t'\<rparr>)"
    by (simp add: trie_prep_append_def)
  then show ?thesis using trie_prep_append_len [OF assms(1) t] by blast
qed

lemma two_multis_chain:
  fixes sk1 sk2 sk3 sk4 sk5 :: "'t skeens_state"
  assumes "add_multi_append skeens_new u1 st1 False t1 = Some (NewAppend x1 y1, sk1)" "add_multi_append sk1 u2 st2 False t2 = Some (NewAppend x2 y2, sk2)"
    "set_max_timestamp sk2 v1 m1 = Some (SetMaxOk, sk3)" "set_max_timestamp sk3 v2 m2 = Some (NeedsFlush, sk4)"
    "flush_got_max_timestamp sk4 = Some ([GMulti a1 b1 w1 g1, GMulti a2 b2 w2 g2], sk5)"
  shows "\<exists>c f1 f2. chain_run o' [ReqMulti u1 st1 False t1, ReqMulti u2 st2 False t2, ReqMax v1 m1, ReqMax v2 m2]
    [(GMulti a1 b1 w1 g1, f1), (GMulti a2 b2 w2 g2, f2)] c \<and> placed f1 \<and> placed f2"
proof -
  obtain c :: "'t chain" where c: "chain_new = Some c" using chain_new_rep [where 't = 't] by metis
  note n = conjunct1 [OF chain_new_ok [OF c]] conjunct2 [OF chain_new_ok [OF c]]
  have s1: "timestamp_for_multi c u1 st1 False t1 = Some (Inr (x1, y1), c\<lparr>c_skeens := sk1\<rparr>)"
    unfolding timestamp_for_multi_def n(2) by (simp add: assms(1))
  have s2: "timestamp_for_multi (c\<lparr>c_skeens := sk1\<rparr>) u2 st2 False t2 = Some (Inr (x2, y2), c\<lparr>c_skeens := sk2\<rparr>)"
    by (simp add: timestamp_for_multi_def assms(2))
  note x = chain_run.multi [OF chain_run.multi [OF chain_run.fresh [OF c] s1] s2]
  have s3: "finish_multi (c\<lparr>c_skeens := sk2\<rparr>) v1 m1 o' = Some ([], c\<lparr>c_skeens := sk3\<rparr>)"
    "finish_skeens (c_skeens (c\<lparr>c_skeens := sk2\<rparr>)) v1 m1 = Some (SetMaxOk, [], sk3)"
    by (simp_all add: finish_multi_def finish_skeens_def assms(3))
  have l: "chain_len_ok 1 (c\<lparr>c_skeens := sk5\<rparr>)" using n(1) by simp
  have lt: "1 < (2 :: nat) ^ 62" "Suc 1 < (2 :: nat) ^ 62" by simp_all
  obtain p1 c1 where p1: "trie_prep_append (c\<lparr>c_skeens := sk5\<rparr>) = Some (1, p1, c1)" "chain_len_ok (Suc 1) c1"
    using trie_prep_append_total [OF l lt(1)] by blast
  obtain p2 c2 where p2: "trie_prep_append c1 = Some (Suc 1, p2, c2)"
    using trie_prep_append_total [OF p1(2) lt(2)] by blast
  let ?f1 = "FMulti 1 (Some p1) b1 a1 w1" and ?f2 = "FMulti (Suc 1) (Some p2) b2 a2 w2"
  have s4: "finish_multi (c\<lparr>c_skeens := sk3\<rparr>) v2 m2 o' = Some ([?f1, ?f2], c2)"
    "finish_skeens (c_skeens (c\<lparr>c_skeens := sk3\<rparr>)) v2 m2 = Some (NeedsFlush, [GMulti a1 b1 w1 g1, GMulti a2 b2 w2 g2], sk5)"
    using p1(1) p2 by (simp_all add: finish_multi_def finish_skeens_def assms(4,5))
  have "chain_run o' [ReqMulti u1 st1 False t1, ReqMulti u2 st2 False t2, ReqMax v1 m1, ReqMax v2 m2]
      [(GMulti a1 b1 w1 g1, ?f1), (GMulti a2 b2 w2 g2, ?f2)] c2"
    using chain_run.max [OF chain_run.max [OF x s3] s4] by simp
  moreover have "placed ?f1" "placed ?f2" by simp_all
  ultimately show ?thesis by blast
qed

lemma two_multis_eval:
  "\<exists>sk1 sk2 sk3 sk4 sk5.
    add_multi_append (skeens_new :: nat skeens_state) 10 s1 False 0 = Some (NewAppend 1 0, sk1) \<and>
    add_multi_append sk1 20 s2 False 0 = Some (NewAppend 2 1, sk2) \<and>
    set_max_timestamp sk2 20 2 = Some (SetMaxOk, sk3) \<and> set_max_timestamp sk3 10 2 = Some (NeedsFlush, sk4) \<and>
    flush_got_max_timestamp sk4 = Some ([GMulti 2 s1 0 10, GMulti 2 s2 0 20], sk5)"
  "\<exists>sk1 sk2 sk3 sk4 sk5.
    add_multi_append (skeens_new :: nat skeens_state) 20 s2 False 0 = Some (NewAppend 1 0, sk1) \<and>
    add_multi_append sk1 10 s1 False 0 = Some (NewAppend 2 1, sk2) \<and>
    set_max_timestamp sk2 10 2 = Some (SetMaxOk, sk3) \<and> set_max_timestamp sk3 20 2 = Some (NeedsFlush, sk4) \<and>
    flush_got_max_timestamp sk4 = Some ([GMulti 2 s1 0 10, GMulti 2 s2 0 20], sk5)"
  by (simp_all add: skeens_eval)

lemma two_chains:
  "\<exists>(c :: nat chain) f1 f2. chain_run o' [ReqMulti 10 s1 False 0, ReqMulti 20 s2 False 0, ReqMax 20 2, ReqMax 10 2]
      [(GMulti 2 s1 0 10, f1), (GMulti 2 s2 0 20, f2)] c \<and> placed f1 \<and> placed f2"
  "\<exists>(c :: nat chain) f1 f2. chain_run o' [ReqMulti 20 s2 False 0, ReqMulti 10 s1 False 0, ReqMax 10 2, ReqMax 20 2]
      [(GMulti 2 s1 0 10, f1), (GMulti 2 s2 0 20, f2)] c \<and> placed f1 \<and> placed f2"
proof -
  obtain sk1 sk2 sk3 sk4 sk5 where "add_multi_append (skeens_new :: nat skeens_state) 10 s1 False 0 = Some (NewAppend 1 0, sk1)"
    "add_multi_append sk1 20 s2 False 0 = Some (NewAppend 2 1, sk2)" "set_max_timestamp sk2 20 2 = Some (SetMaxOk, sk3)"
    "set_max_timestamp sk3 10 2 = Some (NeedsFlush, sk4)"
    "flush_got_max_timestamp sk4 = Some ([GMulti 2 s1 0 10, GMulti 2 s2 0 20], sk5)" using two_multis_eval(1) [of s1 s2] by blast
  then show "\<exists>(c :: nat chain) f1 f2. chain_run o' [ReqMulti 10 s1 False 0, ReqMulti 20 s2 False 0, ReqMax 20 2, ReqMax 10 2]
      [(GMulti 2 s1 0 10, f1), (GMulti 2 s2 0 20, f2)] c \<and> placed f1 \<and> placed f2" by (rule two_multis_chain)
  obtain sk1 sk2 sk3 sk4 sk5 where "add_multi_append (skeens_new :: nat skeens_state) 20 s2 False 0 = Some (NewAppend 1 0, sk1)"
    "add_multi_append sk1 10 s1 False 0 = Some (NewAppend 2 1, sk2)" "set_max_timestamp sk2 10 2 = Some (SetMaxOk, sk3)"
    "set_max_timestamp sk3 20 2 = Some (NeedsFlush, sk4)"
    "flush_got_max_timestamp sk4 = Some ([GMulti 2 s1 0 10, GMulti 2 s2 0 20], sk5)" using two_multis_eval(2) [of s2 s1] by blast
  then show "\<exists>(c :: nat chain) f1 f2. chain_run o' [ReqMulti 20 s2 False 0, ReqMulti 10 s1 False 0, ReqMax 10 2, ReqMax 20 2]
      [(GMulti 2 s1 0 10, f1), (GMulti 2 s2 0 20, f2)] c \<and> placed f1 \<and> placed f2" by (rule two_multis_chain)
qed

theorem indices_agree_witness:
  "\<exists>(c1 :: nat chain) (c2 :: nat chain) f1 f2 f1' f2'.
    chain_run 1 [ReqMulti 10 100 False 0, ReqMulti 20 200 False 0, ReqMax 20 2, ReqMax 10 2]
      [(GMulti 2 100 0 10, f1), (GMulti 2 200 0 20, f2)] c1 \<and>
    chain_run 2 [ReqMulti 20 201 False 0, ReqMulti 10 101 False 0, ReqMax 10 2, ReqMax 20 2]
      [(GMulti 2 101 0 10, f1'), (GMulti 2 201 0 20, f2')] c2 \<and>
    (finish_index f1 < finish_index f2 \<longleftrightarrow> finish_index f1' < finish_index f2')"
proof -
  obtain c1 :: "nat chain" and f1 f2 where x: "chain_run 1 [ReqMulti 10 100 False 0, ReqMulti 20 200 False 0, ReqMax 20 2, ReqMax 10 2]
      [(GMulti 2 100 0 10, f1), (GMulti 2 200 0 20, f2)] c1" "placed f2"
    using two_chains(1) [of 1 100 200] by blast
  obtain c2 :: "nat chain" and f1' f2' where y: "chain_run 2 [ReqMulti 20 201 False 0, ReqMulti 10 101 False 0, ReqMax 10 2, ReqMax 20 2]
      [(GMulti 2 101 0 10, f1'), (GMulti 2 201 0 20, f2')] c2" "placed f2'"
    using two_chains(2) [of 2 201 101] by blast
  have "finish_index f1 < finish_index f2 \<longleftrightarrow> finish_index f1' < finish_index f2'"
    using indices_agree [OF x(1) y(1), of 0 1 0 1] x(2) y(2) by simp
  then show ?thesis using x(1) y(1) by blast
qed

theorem deliveries_get_increasing_indices_witness:
  "\<exists>(c :: nat chain) f1 f2. chain_run 1 [ReqMulti 10 100 False 0, ReqMulti 20 200 False 0, ReqMax 20 2, ReqMax 10 2]
      [(GMulti 2 100 0 10, f1), (GMulti 2 200 0 20, f2)] c \<and>
    finish_index f1 < finish_index f2 \<and> finish_index f2 < trie_len (c_trie c)"
proof -
  obtain c :: "nat chain" and f1 f2 where x: "chain_run 1 [ReqMulti 10 100 False 0, ReqMulti 20 200 False 0, ReqMax 20 2, ReqMax 10 2]
      [(GMulti 2 100 0 10, f1), (GMulti 2 200 0 20, f2)] c" "placed f2"
    using two_chains(1) [of 1 100 200] by blast
  then show ?thesis using deliveries_get_increasing_indices [OF x(1)] by (auto simp: index_order_def)
qed

end
