(* ===== verification/Client_Ranges.thy ===== *)
theory Client_Ranges
  imports Prelude
begin

text \<open>
  The read status of one chain in the client (\<^verbatim>\<open>fuzzy_log_client/src/fuzzy_log/range_tree.rs\<close>): a
  \<open>BTreeMap\<close> from disjoint ranges of indices to what is known of them. The tree is its list of bindings in
  ascending order; a search compares the key with the bindings as \<open>Ord for Range\<close> does, under which ranges
  that overlap are equal.
\<close>

section \<open>Ranges\<close>

type_synonym range = "entry \<times> entry"

datatype rkind = KNone | KSent | KGotten | KReturned | KSkip

fun is_prior :: "rkind \<Rightarrow> rkind \<Rightarrow> bool" where
  "is_prior KNone _ = True"
| "is_prior KSent _ = True"
| "is_prior KGotten KNone = True"
| "is_prior KGotten KReturned = True"
| "is_prior KGotten KSkip = True"
| "is_prior KSkip KReturned = True"
| "is_prior _ _ = False"

definition range_new :: "entry \<Rightarrow> entry \<Rightarrow> range option" where
  "range_new first last' = do { rust_assert (first \<le> last'); Some (first, last') }"

definition range_point :: "entry \<Rightarrow> range" where
  "range_point p = (p, p)"

definition range_cmp :: "range \<Rightarrow> range \<Rightarrow> ordering" where
  "range_cmp a b =
     (case (cmp_u64 (fst a) (snd b), cmp_u64 (snd a) (fst b)) of
        (_, Less) \<Rightarrow> Less
      | (Greater, _) \<Rightarrow> Greater
      | (_, _) \<Rightarrow> Equal)"

definition merge_with_next :: "range \<Rightarrow> range \<Rightarrow> range option" where
  "merge_with_next self next = do { rust_assert (snd self + 1 = fst next); Some (fst self, snd next) }"

definition merge_with_prior :: "range \<Rightarrow> range \<Rightarrow> range option" where
  "merge_with_prior self prior = do { rust_assert (snd prior + 1 = fst self); Some (fst prior, snd self) }"

definition split_at :: "range \<Rightarrow> entry \<Rightarrow> range option \<times> range option" where
  "split_at r p =
     (case (cmp_u64 (fst r) p, cmp_u64 (snd r) p) of
        (Equal, Equal) \<Rightarrow> (None, None)
      | (Less, Equal) \<Rightarrow> (Some (fst r, p - 1), None)
      | (Equal, Greater) \<Rightarrow> (None, Some (p + 1, snd r))
      | (Less, Greater) \<Rightarrow> (Some (fst r, p - 1), Some (p + 1, snd r))
      | (_, Less) \<Rightarrow> (Some r, None)
      | (Greater, _) \<Rightarrow> (None, Some r))"

definition range_remove :: "range \<Rightarrow> range \<Rightarrow> (range option \<times> range option) option" where
  "range_remove r other =
     (case (cmp_u64 (fst r) (fst other), cmp_u64 (snd r) (snd other)) of
        (Equal, Equal) \<Rightarrow> Some (None, None)
      | (Less, Equal) \<Rightarrow> Some (Some (fst r, fst other - 1), None)
      | (Equal, Greater) \<Rightarrow> Some (None, Some (snd other + 1, snd r))
      | (Less, Greater) \<Rightarrow> Some (Some (fst r, fst other - 1), Some (snd other + 1, snd r))
      | _ \<Rightarrow> None)"

definition spans :: "range \<Rightarrow> range \<Rightarrow> bool" where
  "spans r other \<longleftrightarrow> fst r \<le> fst other \<and> snd other \<le> snd r"

definition range_len :: "range \<Rightarrow> u64 option" where
  "range_len r = do { d \<leftarrow> u64_sub (snd r) (fst r); u64_add d 1 }"

section \<open>The map from ranges\<close>

type_synonym range_map = "(range \<times> rkind) list"

fun map_get :: "range_map \<Rightarrow> range \<Rightarrow> (range \<times> rkind) option" where
  "map_get [] key = None"
| "map_get ((r, k) # m) key =
     (case range_cmp key r of Less \<Rightarrow> None | Equal \<Rightarrow> Some (r, k) | Greater \<Rightarrow> map_get m key)"

fun map_remove :: "range_map \<Rightarrow> range \<Rightarrow> range_map" where
  "map_remove [] key = []"
| "map_remove ((r, k) # m) key =
     (case range_cmp key r of Less \<Rightarrow> (r, k) # m | Equal \<Rightarrow> m | Greater \<Rightarrow> (r, k) # map_remove m key)"

text \<open>\<open>BTreeMap::insert\<close> keeps the key that is there when it replaces a value.\<close>

fun map_insert :: "range_map \<Rightarrow> range \<Rightarrow> rkind \<Rightarrow> range_map" where
  "map_insert [] key v = [(key, v)]"
| "map_insert ((r, k) # m) key v =
     (case range_cmp key r of
        Less \<Rightarrow> (key, v) # (r, k) # m
      | Equal \<Rightarrow> (r, v) # m
      | Greater \<Rightarrow> (r, k) # map_insert m key v)"

definition remove_from_map :: "range_map \<Rightarrow> range \<Rightarrow> ((range \<times> rkind) \<times> range_map) option" where
  "remove_from_map m key = do { rk \<leftarrow> map_get m key; Some (rk, map_remove m key) }"

text \<open>Returned entries and the entries to skip next to them become one range of returned entries.\<close>

definition merge_kind :: "rkind \<Rightarrow> rkind \<Rightarrow> rkind option" where
  "merge_kind ours other =
     (if other = ours then Some ours
      else if (ours = KSkip \<and> other = KReturned) \<or> (ours = KReturned \<and> other = KSkip) then Some KReturned
      else None)"

definition try_merge_with_next :: "range_map \<Rightarrow> range \<Rightarrow> rkind \<Rightarrow> (range \<times> rkind \<times> range_map) option" where
  "try_merge_with_next inner current our_kind =
     (if u64_max \<le> snd current then Some (current, our_kind, inner)
      else case map_get inner (range_point (snd current + 1)) of
        None \<Rightarrow> Some (current, our_kind, inner)
      | Some (merge, other_kind) \<Rightarrow>
          (case merge_kind our_kind other_kind of
             None \<Rightarrow> Some (current, our_kind, inner)
           | Some k \<Rightarrow> do {
               r \<leftarrow> merge_with_next current merge;
               Some (r, k, map_remove inner (range_point (snd current + 1)))
             }))"

definition try_merge_with_prior :: "range_map \<Rightarrow> range \<Rightarrow> rkind \<Rightarrow> (range \<times> rkind \<times> range_map) option" where
  "try_merge_with_prior inner current our_kind =
     (if fst current \<le> 0 then Some (current, our_kind, inner)
      else case map_get inner (range_point (fst current - 1)) of
        None \<Rightarrow> Some (current, our_kind, inner)
      | Some (merge, other_kind) \<Rightarrow>
          (case merge_kind our_kind other_kind of
             None \<Rightarrow> Some (current, our_kind, inner)
           | Some k \<Rightarrow> do {
               r \<leftarrow> merge_with_prior current merge;
               Some (r, k, map_remove inner (range_point (fst current - 1)))
             }))"

section \<open>The tree\<close>

record range_tree =
  inner :: range_map
  num_outstanding :: u64
  num_buffered :: u64

definition range_tree_new :: range_tree where
  "range_tree_new =
     \<lparr>inner = map_insert (map_insert [] (0, 0) KReturned) (1, u64_max) KNone, num_outstanding = 0, num_buffered = 0\<rparr>"

text \<open>One step of the fold of \<open>tree_invariant\<close>.\<close>

fun invariant_step ::
  "entry \<times> rkind option \<times> bool \<times> u64 \<times> u64 \<Rightarrow> range \<times> rkind \<Rightarrow> entry \<times> rkind option \<times> bool \<times> u64 \<times> u64" where
  "invariant_step (prev, Some prev_kind, valid, out, buf) (r, k) =
     (snd r, Some k, valid \<and> fst r = prev + 1 \<and> k \<noteq> prev_kind,
      if k = KSent then out + (snd r - fst r + 1) else out,
      if k = KGotten then buf + (snd r - fst r + 1) else buf)"
| "invariant_step (prev, None, valid, out, buf) (r, k) =
     (snd r, Some k, valid \<and> fst r = 0 \<and> k = KReturned, out, buf)"

definition tree_invariant :: "range_tree \<Rightarrow> bool" where
  "tree_invariant t =
     (let (_, _, valid, out, buf) = foldl invariant_step (0, None, True, 0, 0) (inner t)
      in valid \<and> num_buffered t = buf \<and> num_outstanding t = out)"

text \<open>How a range in the place of which a new one is put is put back around it.\<close>

definition put_around ::
  "range_map \<Rightarrow> range option \<times> range option \<Rightarrow> rkind \<Rightarrow> range \<Rightarrow> rkind \<Rightarrow> range_map option" where
  "put_around m parts old_kind new_range new_kind =
     (case parts of
        (Some pre, Some post) \<Rightarrow>
          Some (map_insert (map_insert (map_insert m new_range new_kind) pre old_kind) post old_kind)
      | (Some pre, None) \<Rightarrow> do {
          (r, k, m) \<leftarrow> try_merge_with_next (map_insert m pre old_kind) new_range new_kind;
          Some (map_insert m r k)
        }
      | (None, Some post) \<Rightarrow> do {
          (r, k, m) \<leftarrow> try_merge_with_prior (map_insert m post old_kind) new_range new_kind;
          Some (map_insert m r k)
        }
      | (None, None) \<Rightarrow> do {
          (r, k, m) \<leftarrow> try_merge_with_next m new_range new_kind;
          (r, k, m) \<leftarrow> try_merge_with_prior m r k;
          Some (map_insert m r k)
        })"

definition set_point_as :: "range_tree \<Rightarrow> entry \<Rightarrow> rkind \<Rightarrow> (bool \<times> range_tree) option" where
  "set_point_as t point new_kind = do {
     ((old_range, old_kind), m) \<leftarrow> remove_from_map (inner t) (range_point point);
     if \<not> is_prior old_kind new_kind then Some (False, t\<lparr>inner := map_insert m old_range old_kind\<rparr>)
     else do {
       out \<leftarrow> if old_kind = KSent then u64_sub (num_outstanding t) 1 else Some (num_outstanding t);
       buf \<leftarrow> if old_kind = KGotten then u64_sub (num_buffered t) 1 else Some (num_buffered t);
       out \<leftarrow> if new_kind = KSent then u64_add out 1 else Some out;
       buf \<leftarrow> if new_kind = KGotten then u64_add buf 1 else Some buf;
       m \<leftarrow> put_around m (split_at old_range point) old_kind (range_point point) new_kind;
       Some (True, \<lparr>inner = m, num_outstanding = out, num_buffered = buf\<rparr>)
     }
   }"

definition set_point_as_none :: "range_tree \<Rightarrow> entry \<Rightarrow> range_tree option" where
  "set_point_as_none t point = do {
     rust_assert (tree_invariant t);
     (_, t) \<leftarrow> set_point_as t point KNone;
     rust_assert (tree_invariant t);
     Some t
   }"

definition set_point_as_skip :: "range_tree \<Rightarrow> entry \<Rightarrow> range_tree option" where
  "set_point_as_skip t point = do {
     rust_assert (tree_invariant t);
     (_, t) \<leftarrow> set_point_as t point KSkip;
     rust_assert (tree_invariant t);
     Some t
   }"

definition set_point_as_recvd :: "range_tree \<Rightarrow> entry \<Rightarrow> (bool \<times> range_tree) option" where
  "set_point_as_recvd t point = do {
     rust_assert (tree_invariant t);
     (r, t) \<leftarrow> set_point_as t point KGotten;
     rust_assert (tree_invariant t);
     Some (r, t)
   }"

definition set_point_as_returned :: "range_tree \<Rightarrow> entry \<Rightarrow> range_tree option" where
  "set_point_as_returned t point = do {
     rust_assert (tree_invariant t);
     (worked, t) \<leftarrow> set_point_as t point KReturned;
     rust_assert worked;
     rust_assert (tree_invariant t);
     Some t
   }"

definition set_range_as_sent :: "range_tree \<Rightarrow> entry \<Rightarrow> entry \<Rightarrow> range_tree option" where
  "set_range_as_sent t low high = do {
     rust_assert (tree_invariant t);
     new_range \<leftarrow> range_new low high;
     ((old_range, old_kind), m) \<leftarrow> remove_from_map (inner t) (range_point low);
     rust_assert (old_kind = KNone);
     rust_assert (spans old_range new_range);
     n \<leftarrow> range_len new_range;
     out \<leftarrow> u64_add (num_outstanding t) n;
     parts \<leftarrow> range_remove old_range new_range;
     m \<leftarrow> put_around m parts old_kind new_range KSent;
     rust_assert (tree_invariant (t\<lparr>inner := m, num_outstanding := out\<rparr>));
     Some (t\<lparr>inner := m, num_outstanding := out\<rparr>)
   }"

lemma map_remove_length: "map_get m key = Some rk \<Longrightarrow> length (map_remove m key) < length m"
  by (induction m key rule: map_remove.induct) (auto split: ordering.splits)

text \<open>The loop of \<open>set_above_as_none\<close>, which ends because every turn removes a binding.\<close>

function remove_above :: "range_map \<Rightarrow> entry \<Rightarrow> range_map option" where
  "remove_above m lowish =
     (if u64_max \<le> lowish then Some m
      else case map_get m (range_point (lowish + 1)) of
        None \<Rightarrow> None
      | Some (r, k) \<Rightarrow> remove_above (map_remove m (range_point (lowish + 1))) (snd r))"
  by pat_completeness auto

termination remove_above
  by (relation "measure (length \<circ> fst)") (auto dest: map_remove_length)

declare remove_above.simps [simp del]

definition set_above_as_none :: "range_tree \<Rightarrow> entry \<Rightarrow> range_tree option" where
  "set_above_as_none t low = do {
     rust_assert (tree_invariant t);
     new_range \<leftarrow> range_new low u64_max;
     ((old_range, old_kind), m) \<leftarrow> remove_from_map (inner t) (range_point low);
     m \<leftarrow> remove_above m (snd old_range);
     let m = (case fst (split_at old_range low) of Some r \<Rightarrow> map_insert m r old_kind | None \<Rightarrow> m);
     let t = t\<lparr>inner := map_insert m new_range KNone\<rparr>;
     rust_assert (tree_invariant t);
     Some t
   }"

definition is_returned :: "range_tree \<Rightarrow> entry \<Rightarrow> bool" where
  "is_returned t point = (case map_get (inner t) (range_point point) of Some (_, KReturned) \<Rightarrow> True | _ \<Rightarrow> False)"

definition next_return_is :: "range_tree \<Rightarrow> entry \<Rightarrow> bool option" where
  "next_return_is t point = do {
     prior \<leftarrow> u64_sub point 1;
     Some (case (map_get (inner t) (range_point prior), map_get (inner t) (range_point point)) of
         (_, Some (_, KReturned)) \<Rightarrow> False
       | (Some (_, KReturned), _) \<Rightarrow> True
       | _ \<Rightarrow> False)
   }"

definition first_outstanding :: "range_tree \<Rightarrow> entry option" where
  "first_outstanding t = (case filter (\<lambda>(_, k). k = KSent) (inner t) of [] \<Rightarrow> None | (r, _) # _ \<Rightarrow> Some (fst r))"

definition last_outstanding :: "range_tree \<Rightarrow> entry option" where
  "last_outstanding t = (case filter (\<lambda>(_, k). k = KSent) (rev (inner t)) of [] \<Rightarrow> None | (r, _) # _ \<Rightarrow> Some (snd r))"

definition min_range_to_fetch :: "range_tree \<Rightarrow> u64 \<times> u64" where
  "min_range_to_fetch t = (case filter (\<lambda>(_, k). k = KNone) (inner t) of [] \<Rightarrow> (0, 0) | (r, _) # _ \<Rightarrow> r)"


section \<open>Searching a tree\<close>

definition below :: "range_map \<Rightarrow> entry \<Rightarrow> bool" where
  "below xs f \<longleftrightarrow> list_all (\<lambda>((f', l'), k). f' \<le> l' \<and> l' < f) xs"

definition beyond :: "entry \<Rightarrow> range_map \<Rightarrow> bool" where
  "beyond l ys \<longleftrightarrow> list_all (\<lambda>((f', l'), k). l < f') ys"

fun covers :: "entry \<Rightarrow> range_map \<Rightarrow> entry \<Rightarrow> bool" where
  "covers a [] e \<longleftrightarrow> a = e"
| "covers a (((f, l), k) # m) e \<longleftrightarrow> f = a \<and> f \<le> l \<and> covers (Suc l) m e"

lemma range_cmp_if: "range_cmp a b = (if snd a < fst b then Less else if snd b < fst a then Greater else Equal)"
  by (auto simp: range_cmp_def cmp_u64_def)

lemma below_simps [simp]:
  "below [] f" "below (((f', l'), k) # xs) f \<longleftrightarrow> f' \<le> l' \<and> l' < f \<and> below xs f"
  "below (xs @ ys) f \<longleftrightarrow> below xs f \<and> below ys f"
  by (auto simp: below_def)

lemma beyond_simps [simp]:
  "beyond l []" "beyond l (((f', l'), k) # ys) \<longleftrightarrow> l < f' \<and> beyond l ys"
  "beyond l (xs @ ys) \<longleftrightarrow> beyond l xs \<and> beyond l ys"
  by (auto simp: beyond_def)

lemma below_mono: "below xs f \<Longrightarrow> f \<le> g \<Longrightarrow> below xs g"
  by (induction xs) auto

lemma beyond_mono: "beyond l ys \<Longrightarrow> l' \<le> l \<Longrightarrow> beyond l' ys"
  by (induction ys) auto

lemma map_get_at:
  "below xs f \<Longrightarrow> f \<le> p \<Longrightarrow> p \<le> l \<Longrightarrow> map_get (xs @ ((f, l), k) # ys) (range_point p) = Some ((f, l), k)"
  by (induction xs) (auto simp: range_cmp_if range_point_def)

lemma map_remove_at:
  "below xs f \<Longrightarrow> f \<le> p \<Longrightarrow> p \<le> l \<Longrightarrow> map_remove (xs @ ((f, l), k) # ys) (range_point p) = xs @ ys"
  by (induction xs) (auto simp: range_cmp_if range_point_def)

lemma map_insert_at:
  assumes "below xs f" "f \<le> l" "beyond l ys"
  shows "map_insert (xs @ ys) (f, l) k = xs @ ((f, l), k) # ys"
  using assms(1)
proof (induction xs)
  case Nil
  then show ?case using assms(2,3) by (cases ys) (auto simp: range_cmp_if)
qed (use assms(2) in \<open>auto simp: range_cmp_if\<close>)

lemma covers_append: "covers a (xs @ ys) e \<longleftrightarrow> (\<exists>c. covers a xs c \<and> covers c ys e)"
  by (induction xs arbitrary: a) auto

lemma covers_le: "covers a m e \<Longrightarrow> a \<le> e"
  by (induction m arbitrary: a) fastforce+

lemma covers_beyond: "covers a ys e \<Longrightarrow> l < a \<Longrightarrow> beyond l ys"
  by (induction ys arbitrary: a) fastforce+

lemma covers_below: "covers a xs f \<Longrightarrow> below xs f"
  by (induction xs arbitrary: a) (fastforce dest: covers_le)+

lemma covers_split:
  "covers a m e \<Longrightarrow> a \<le> p \<Longrightarrow> p < e \<Longrightarrow>
   \<exists>xs f l k ys. m = xs @ ((f, l), k) # ys \<and> f \<le> p \<and> p \<le> l \<and> covers a xs f \<and> covers (Suc l) ys e"
proof (induction a m e rule: covers.induct)
  case (2 a f l k m e)
  show ?case
  proof (cases "p \<le> l")
    case True
    then show ?thesis using 2 by (intro exI [of _ "[]"]) auto
  next
    case False
    then obtain xs f' l' k' ys where "m = xs @ ((f', l'), k') # ys" "f' \<le> p" "p \<le> l'" "covers (Suc l) xs f'" "covers (Suc l') ys e"
      using 2 by (auto simp: not_le)
    then show ?thesis using 2 by (intro exI [of _ "((f, l), k) # xs"]) auto
  qed
qed simp

section \<open>The kind of an index\<close>

definition kind_at :: "range_map \<Rightarrow> entry \<Rightarrow> rkind" where
  "kind_at m p = (case map_get m (range_point p) of Some (r, k) \<Rightarrow> k | None \<Rightarrow> KNone)"

abbreviation status :: "range_tree \<Rightarrow> entry \<Rightarrow> rkind" where
  "status t \<equiv> kind_at (inner t)"

definition cnt :: "rkind \<Rightarrow> range_map \<Rightarrow> nat" where
  "cnt K m = sum_list (map (\<lambda>((f, l), k). if k = K then Suc (l - f) else 0) m)"

lemma cnt_simps [simp]:
  "cnt K [] = 0" "cnt K (((f, l), k) # m) = (if k = K then Suc (l - f) else 0) + cnt K m"
  "cnt K (xs @ ys) = cnt K xs + cnt K ys"
  by (simp_all add: cnt_def)

lemma kind_at_Cons:
  "covers a (((f, l), k) # m) e \<Longrightarrow>
   kind_at (((f, l), k) # m) p = (if p < f then KNone else if p \<le> l then k else kind_at m p)"
  by (auto simp: kind_at_def range_cmp_if range_point_def)

lemma kind_at_outside: "covers a m e \<Longrightarrow> p < a \<or> e \<le> p \<Longrightarrow> kind_at m p = KNone"
proof (induction a m e rule: covers.induct)
  case (2 a f l k m e)
  then show ?case using kind_at_Cons [OF "2.prems"(1), of p] covers_le [of "Suc l" m e] by auto
qed (simp add: kind_at_def)

lemma covers_start: "covers a m e \<Longrightarrow> covers b m e \<Longrightarrow> a = b"
  by (cases m) auto

lemma kind_at_append:
  "covers a (xs @ ys) e \<Longrightarrow> covers c ys e \<Longrightarrow> kind_at (xs @ ys) p = (if p < c then kind_at xs p else kind_at ys p)"
proof (induction xs arbitrary: a)
  case Nil
  then show ?case using kind_at_outside [of c ys e p] by (simp add: kind_at_def)
next
  case (Cons x xs)
  obtain f l k where x: "x = ((f, l), k)" by (metis prod.exhaust)
  have c: "covers (Suc l) (xs @ ys) e" "f = a" "a \<le> l" using Cons.prems(1) x by auto
  obtain c' where c': "covers (Suc l) xs c'" "covers c' ys e" using c(1) covers_append by blast
  have x1: "covers a (((f, l), k) # xs) c'" using c' c by simp
  have "c' = c"
    using c'(2) Cons.prems(2) by (rule covers_start)
  show ?case
    using Cons.IH [OF c(1) Cons.prems(2)] kind_at_Cons [OF x1, of p] kind_at_Cons [of a f l k "xs @ ys" e p] Cons.prems(1)
      covers_le [OF c'(1)] c \<open>c' = c\<close> by (auto simp: x)
qed


section \<open>Putting a range in the place of another\<close>

text \<open>What \<open>put_around\<close> makes of a tree: the new range between its neighbours, merged with those whose
  kind allows it, first the next and then the prior.\<close>

definition join_next :: "range \<times> rkind \<Rightarrow> range_map \<Rightarrow> (range \<times> rkind) \<times> range_map" where
  "join_next c ys =
     (case ys of
        [] \<Rightarrow> (c, [])
      | (r, k) # ys' \<Rightarrow>
          (case merge_kind (snd c) k of None \<Rightarrow> (c, ys) | Some k' \<Rightarrow> (((fst (fst c), snd r), k'), ys')))"

definition join_prior :: "range_map \<Rightarrow> range \<times> rkind \<Rightarrow> range_map" where
  "join_prior xs c =
     (if xs = [] then [c]
      else case merge_kind (snd c) (snd (List.last xs)) of
        None \<Rightarrow> xs @ [c]
      | Some k \<Rightarrow> butlast xs @ [((fst (fst (List.last xs)), snd (fst c)), k)])"

definition join :: "range_map \<Rightarrow> range \<times> rkind \<Rightarrow> range_map \<Rightarrow> range_map" where
  "join xs c ys = (let (c, ys) = join_next c ys in join_prior xs c @ ys)"

definition before :: "range \<Rightarrow> entry \<Rightarrow> rkind \<Rightarrow> range_map" where
  "before r p k = (if fst r < p then [((fst r, p - 1), k)] else [])"

definition after :: "range \<Rightarrow> entry \<Rightarrow> rkind \<Rightarrow> range_map" where
  "after r q k = (if q < snd r then [((Suc q, snd r), k)] else [])"

lemma try_merge_with_next_eq:
  assumes "below xs p" "p \<le> q" "covers (Suc q) ys (Suc u64_max)"
  shows "try_merge_with_next (xs @ ys) (p, q) n = (case join_next ((p, q), n) ys of ((r, k), ys') \<Rightarrow> Some (r, k, xs @ ys'))"
proof (cases ys)
  case Nil
  then show ?thesis using assms(3) by (simp add: try_merge_with_next_def join_next_def)
next
  case (Cons y ys')
  obtain l k where y: "y = ((Suc q, l), k)" "Suc q \<le> l" using assms(3) Cons by (cases y) auto
  have l: "q < u64_max" using assms(3) Cons y covers_le by fastforce
  have b: "below xs (Suc q)" using assms(1,2) below_mono by simp
  show ?thesis
    using map_get_at [OF b order_refl y(2), of k ys'] map_remove_at [OF b order_refl y(2), of k ys'] l Cons y
    by (simp add: try_merge_with_next_def join_next_def merge_with_next_def split: option.split)
qed

lemma try_merge_with_prior_eq:
  assumes "covers a xs p" "p \<le> q" "a < p" "beyond q ys"
  shows "(do { (r, k, m) \<leftarrow> try_merge_with_prior (xs @ ys) (p, q) n; Some (map_insert m r k) }) = Some (join_prior xs ((p, q), n) @ ys)"
proof (cases xs rule: rev_cases)
  case Nil
  then show ?thesis using assms by simp
next
  case (snoc xs' x)
  obtain f l k where x: "x = ((f, l), k)" by (metis prod.exhaust)
  have c: "covers a xs' f" "f \<le> l" "p = Suc l" using assms(1) snoc x covers_append by auto
  have b: "below xs' f" using covers_below [OF c(1)] .
  have ins: "map_insert (xs' @ ys) (f, q) j = xs' @ ((f, q), j) # ys" for j
    using map_insert_at [OF b _ assms(4)] c assms(2) by simp
  have bx: "below xs p" using covers_below [OF assms(1)] .
  show ?thesis
    using map_get_at [OF b c(2) order_refl, of k ys] map_remove_at [OF b c(2) order_refl, of k ys] ins
      map_insert_at [OF bx assms(2,4), of n] snoc x c(3)
    by (simp add: try_merge_with_prior_def join_prior_def merge_with_prior_def split: option.split)
qed


lemma merge_kind_cases:
  "merge_kind n k = Some j \<Longrightarrow> (n = k \<and> j = n) \<or> (n = KSkip \<and> k = KReturned \<and> j = KReturned) \<or> (n = KReturned \<and> k = KSkip \<and> j = KReturned)"
  by (auto simp: merge_kind_def split: if_splits)

lemma join_next_props:
  assumes "join_next ((p, q), n) ys = ((r, n'), ys')" "covers (Suc q) ys e" "p \<le> q"
  shows "fst r = p \<and> q \<le> snd r \<and> covers (Suc (snd r)) ys' e \<and> (n' = n \<or> (n = KSkip \<and> n' = KReturned))"
  using assms by (auto simp: join_next_def split: list.splits option.splits dest!: merge_kind_cases)

lemma put_around_join:
  assumes xs: "covers 0 xs f" "0 < f" and pq: "f \<le> p" "p \<le> q" "q \<le> l" and ys: "covers (Suc l) ys (Suc u64_max)"
    and nk: "merge_kind n k = None \<or> (p = f \<and> q = l)"
  shows "put_around (xs @ ys) (if f < p then Some (f, p - 1) else None, if q < l then Some (q + 1, l) else None) k (p, q) n =
    Some (join (xs @ before (f, l) p k) ((p, q), n) (after (f, l) q k @ ys))"
proof -
  have b: "below xs f" "below xs p" "below xs (Suc q)" using covers_below [OF xs(1)] below_mono pq by (auto intro: below_mono)
  have a: "beyond q ys" "beyond l ys" "beyond (p - 1) ys" using covers_beyond [OF ys] pq by auto
  obtain r n' ys' where jn: "join_next ((p, q), n) ys = ((r, n'), ys')" by (metis prod.exhaust)
  consider "f < p" "q < l" | "f < p" "q = l" | "f = p" "q < l" | "f = p" "q = l" using pq by linarith
  then show ?thesis
  proof cases
    case 1
    then have "merge_kind n k = None" using nk by simp
    moreover have "map_insert (xs @ ys) (p, q) n = xs @ ((p, q), n) # ys" using map_insert_at b a pq by simp
    moreover have "map_insert (xs @ ((p, q), n) # ys) (f, p - 1) k = xs @ ((f, p - 1), k) # ((p, q), n) # ys"
      using map_insert_at [of xs f "p - 1" "((p, q), n) # ys"] b a 1 by simp
    moreover have "map_insert (xs @ ((f, p - 1), k) # ((p, q), n) # ys) (Suc q, l) k = xs @ ((f, p - 1), k) # ((p, q), n) # ((Suc q, l), k) # ys"
    proof -
      have "f \<le> p - 1 \<and> p - 1 < Suc q" using 1 pq by linarith
      then show ?thesis using map_insert_at [of "xs @ [((f, p - 1), k), ((p, q), n)]" "Suc q" l ys] b a 1 pq by simp
    qed
    ultimately show ?thesis using 1 by (simp add: put_around_def join_def join_next_def join_prior_def before_def after_def)
  next
    case 2
    then have none: "merge_kind n k = None" using nk by simp
    have j: "fst r = p" "q \<le> snd r" "covers (Suc (snd r)) ys' (Suc u64_max)" "n' = n \<or> (n = KSkip \<and> n' = KReturned)"
      using join_next_props [OF jn _ pq(2)] ys 2 by auto
    have none': "merge_kind n' k = None" using none j(4) by (auto simp: merge_kind_def split: if_splits)
    have "map_insert (xs @ ys) (f, p - 1) k = (xs @ [((f, p - 1), k)]) @ ys" using map_insert_at b a 2 by simp
    moreover have "try_merge_with_next ((xs @ [((f, p - 1), k)]) @ ys) (p, q) n = Some (r, n', (xs @ [((f, p - 1), k)]) @ ys')"
      using try_merge_with_next_eq [of "xs @ [((f, p - 1), k)]" p q ys n] b ys pq 2 jn by simp
    moreover have "map_insert ((xs @ [((f, p - 1), k)]) @ ys') r n' = (xs @ [((f, p - 1), k)]) @ (r, n') # ys'"
      using map_insert_at [of "xs @ [((f, p - 1), k)]" p "snd r" ys'] j b pq 2 covers_beyond [OF j(3)] by (cases r) simp
    ultimately show ?thesis using 2 jn none' by (simp add: put_around_def join_def join_prior_def before_def after_def)
  next
    case 3
    then have "merge_kind n k = None" using nk by simp
    moreover have "map_insert (xs @ ys) (Suc q, l) k = xs @ ((Suc q, l), k) # ys" using map_insert_at b a 3 by simp
    moreover have "(do { (r, k, m) \<leftarrow> try_merge_with_prior (xs @ ((Suc q, l), k) # ys) (p, q) n; Some (map_insert m r k) }) =
        Some (join_prior xs ((p, q), n) @ ((Suc q, l), k) # ys)"
      by (rule try_merge_with_prior_eq) (use xs pq a 3 in auto)
    ultimately show ?thesis using 3 by (simp add: put_around_def join_def join_next_def before_def after_def)
  next
    case 4
    have j: "fst r = p" "q \<le> snd r" "covers (Suc (snd r)) ys' (Suc u64_max)"
      using join_next_props [OF jn _ pq(2)] ys 4 by auto
    have "try_merge_with_next (xs @ ys) (p, q) n = Some (r, n', xs @ ys')"
      using try_merge_with_next_eq [of xs p q ys n] b ys pq 4 jn by simp
    moreover have "(do { (r, k, m) \<leftarrow> try_merge_with_prior (xs @ ys') (p, snd r) n'; Some (map_insert m r k) }) =
        Some (join_prior xs ((p, snd r), n') @ ys')"
      by (rule try_merge_with_prior_eq [of 0]) (use xs pq 4 j covers_beyond [OF j(3)] in auto)
    ultimately show ?thesis using 4 jn j(1) by (cases r) (simp add: put_around_def join_def before_def after_def)
  qed
qed

lemma covers_join:
  assumes "covers a xs p" "p \<le> q" "covers (Suc q) ys e"
  shows "covers a (join xs ((p, q), n) ys) e"
proof -
  obtain r n' ys' where jn: "join_next ((p, q), n) ys = ((r, n'), ys')" by (metis prod.exhaust)
  have j: "fst r = p" "q \<le> snd r" "covers (Suc (snd r)) ys' e" using join_next_props [OF jn assms(3,2)] by auto
  show ?thesis
  proof (cases xs rule: rev_cases)
    case Nil
    then show ?thesis using assms j jn by (cases r) (auto simp: join_def join_prior_def)
  next
    case (snoc xs' x)
    then show ?thesis using assms j jn
      by (cases r; cases x) (auto simp: join_def join_prior_def covers_append split: option.split)
  qed
qed

lemma cnt_join:
  assumes "covers a xs p" "p \<le> q" "covers (Suc q) ys e" "K \<noteq> KSkip" "K \<noteq> KReturned"
  shows "cnt K (join xs ((p, q), n) ys) = cnt K (xs @ ((p, q), n) # ys)"
proof -
  obtain r n' ys' where jn: "join_next ((p, q), n) ys = ((r, n'), ys')" by (metis prod.exhaust)
  have j: "fst r = p" "q \<le> snd r" using join_next_props [OF jn assms(3,2)] by auto
  have 1: "cnt K ((r, n') # ys') = cnt K (((p, q), n) # ys)"
  proof (cases ys)
    case (Cons y ys0)
    obtain l k where y: "y = ((Suc q, l), k)" "Suc q \<le> l" using assms(3) Cons by (cases y) auto
    show ?thesis
    proof (cases "merge_kind n k")
      case (Some k')
      then have "r = (p, l)" "n' = k'" "ys' = ys0" using jn Cons y by (simp_all add: join_next_def)
      then show ?thesis using merge_kind_cases [OF Some] assms(2,4,5) y Cons by auto
    qed (use jn Cons y in \<open>simp add: join_next_def\<close>)
  qed (use jn in \<open>simp add: join_next_def\<close>)
  have 2: "cnt K (join_prior xs (r, n')) = cnt K (xs @ [(r, n')])"
  proof (cases xs rule: rev_cases)
    case (snoc xs' x)
    then show ?thesis using assms(1,2,4,5) j
      by (cases r; cases x) (auto simp: join_prior_def covers_append split: option.split dest!: merge_kind_cases)
  qed (simp add: join_prior_def)
  show ?thesis using 1 2 jn by (cases r) (simp add: join_def)
qed


section \<open>The invariant\<close>

text \<open>Beyond \<open>tree_invariant\<close>: the returned entries are one range at the front, and the entry after it is not
  one to skip.\<close>

definition shape :: "range_map \<Rightarrow> bool" where
  "shape m = (case m of
      ((f, r), k) # rest \<Rightarrow> f = 0 \<and> k = KReturned \<and> list_all (\<lambda>x. snd x \<noteq> KReturned) rest \<and>
        (rest = [] \<or> snd (hd rest) \<noteq> KSkip)
    | [] \<Rightarrow> False)"

definition alternates :: "range_map \<Rightarrow> bool" where
  "alternates m = successively (\<lambda>x y. snd x \<noteq> snd y) m"

definition range_ok :: "range_tree \<Rightarrow> bool" where
  "range_ok t \<longleftrightarrow> covers 0 (inner t) (Suc u64_max) \<and> alternates (inner t) \<and> shape (inner t) \<and>
     num_outstanding t = cnt KSent (inner t) \<and> num_buffered t = cnt KGotten (inner t)"

definition absorb :: "(entry \<Rightarrow> rkind) \<Rightarrow> entry \<Rightarrow> rkind" where
  "absorb s x = (if \<forall>y \<le> x. s y = KReturned \<or> s y = KSkip then KReturned else s x)"

lemma absorb_stop: "s z \<noteq> KReturned \<Longrightarrow> s z \<noteq> KSkip \<Longrightarrow> z \<le> x \<Longrightarrow> absorb s x = s x"
  by (auto simp: absorb_def)

lemma absorb_all: "(\<And>y. y \<le> x \<Longrightarrow> s y = KReturned \<or> s y = KSkip) \<Longrightarrow> absorb s x = KReturned"
  by (auto simp: absorb_def)

lemma alternates_replace: "alternates (xs @ [(r, n)]) \<Longrightarrow> alternates ((r', n) # ys) \<Longrightarrow> alternates (xs @ (r'', n) # ys)"
  by (cases ys) (auto simp: alternates_def successively_append_iff)

lemma alternates_split:
  assumes "alternates (xs @ (r, k) # ys)"
  shows "alternates xs" "alternates ys" "alternates (xs @ [(r', k)])" "alternates ((r', k) # ys)"
  using assms by (cases ys; auto simp: alternates_def successively_append_iff)+

lemma invariant_fold:
  "covers (Suc prev) m e \<Longrightarrow> alternates (((a, prev), pk) # m) \<Longrightarrow>
   \<exists>prev' k'. foldl invariant_step (prev, Some pk, True, out, buf) m = (prev', k', True, out + cnt KSent m, buf + cnt KGotten m)"
proof (induction m arbitrary: prev pk out buf a)
  case (Cons x m)
  obtain f l k where x: "x = ((f, l), k)" by (metis prod.exhaust)
  have c: "covers (Suc l) m e" "alternates (((f, l), k) # m)" "f = Suc prev" "k \<noteq> pk" "f \<le> l"
    using Cons.prems x by (auto simp: alternates_def)
  have s: "invariant_step (prev, Some pk, True, out, buf) x = (l, Some k, True, out + cnt KSent [x], buf + cnt KGotten [x])"
    using c x by simp
  have "cnt K (x # m) = cnt K [x] + cnt K m" for K by (simp add: x)
  then show ?case using Cons.IH [OF c(1,2), of "out + cnt KSent [x]" "buf + cnt KGotten [x]"] s
    by (simp only: foldl_Cons add.assoc)
qed simp

lemma range_ok_tree_invariant: "range_ok t \<Longrightarrow> tree_invariant t"
proof -
  assume ok: "range_ok t"
  then obtain r rest where i: "inner t = ((0, r), KReturned) # rest"
    by (auto simp: range_ok_def shape_def split: list.splits)
  then have "covers (Suc r) rest (Suc u64_max)" "alternates (((0, r), KReturned) # rest)" using ok by (auto simp: range_ok_def)
  from invariant_fold [OF this, of 0 0] show ?thesis
    using ok i by (auto simp: tree_invariant_def range_ok_def)
qed

lemma kind_at_mid:
  assumes "covers a xs f" "f \<le> l" "covers (Suc l) ys e"
  shows "kind_at (xs @ ((f, l), k) # ys) p = (if p < f then kind_at xs p else if p \<le> l then k else kind_at ys p)"
proof -
  have c: "covers f (((f, l), k) # ys) e" "covers a (xs @ ((f, l), k) # ys) e" using assms covers_append by auto
  show ?thesis using kind_at_append [OF c(2,1)] kind_at_Cons [OF c(1)] by simp
qed

lemma join_front:
  assumes "covers (Suc q) ys e" "r < p" "p \<le> q" "n = KSkip \<or> n = KReturned"
    and "list_all (\<lambda>x. snd x \<noteq> KReturned) ys" "alternates ys" "p = Suc r"
  defines "m \<equiv> join [((0, r), KReturned)] ((p, q), n) ys"
  shows "shape m" "alternates m" "kind_at m = absorb (kind_at (((0, r), KReturned) # ((p, q), n) # ys))"
proof -
  let ?J = "((0, r), KReturned) # ((p, q), n) # ys"
  have J: "kind_at ?J x = (if x \<le> r then KReturned else if x \<le> q then n else kind_at ys x)" for x
    using kind_at_mid [of 0 "[((0, r), KReturned)]" p q ys e n x] kind_at_Cons [of 0 0 r KReturned "[]" p x] assms by auto
  obtain l ys' where m: "m = ((0, l), KReturned) # ys'" "q \<le> l" "covers (Suc l) ys' e"
    "\<forall>x. kind_at ys x = (if q < x \<and> x \<le> l then KSkip else kind_at ys' x)" "list_all (\<lambda>x. snd x \<noteq> KReturned) ys'" "alternates ys'"
    "ys' = [] \<or> snd (hd ys') \<noteq> KSkip"
  proof (cases ys)
    case Nil
    have "kind_at ys x = (if q < x \<and> x \<le> q then KSkip else kind_at [] x)" for x by (auto simp: Nil)
    then show thesis using that [of q "[]"] assms Nil by (auto simp: m_def join_def join_next_def join_prior_def merge_kind_def)
  next
    case (Cons y zs)
    obtain l k where y: "y = ((Suc q, l), k)" "Suc q \<le> l" using assms(1) Cons by (cases y) auto
    have z: "covers (Suc l) zs e" "zs = [] \<or> snd (hd zs) \<noteq> k" "list_all (\<lambda>x. snd x \<noteq> KReturned) zs" "alternates zs" "k \<noteq> KReturned"
      using assms Cons y by (cases zs; auto simp: alternates_def)+
    show thesis
    proof (cases "k = KSkip")
      case True
      then have "m = ((0, l), KReturned) # zs"
        using assms(4) y Cons by (auto simp: m_def join_def join_next_def join_prior_def merge_kind_def)
      moreover have "kind_at ys x = (if q < x \<and> x \<le> l then KSkip else kind_at zs x)" for x
        using kind_at_Cons [of "Suc q" "Suc q" l k zs e x] kind_at_outside [OF z(1), of x] assms(1) Cons y True by auto
      ultimately show thesis using that [of l zs] z y True by auto
    next
      case False
      then have "m = ((0, q), KReturned) # ys"
        using assms(4) y z(5) Cons by (auto simp: m_def join_def join_next_def join_prior_def merge_kind_def)
      moreover have "kind_at ys x = (if q < x \<and> x \<le> q then KSkip else kind_at ys x)" for x by auto
      ultimately show thesis using that [of q ys] assms Cons y False by auto
    qed
  qed
  show "shape m" using m by (auto simp: shape_def)
  show "alternates m" using m by (cases ys') (auto simp: alternates_def)
  have R: "kind_at m x = (if x \<le> l then KReturned else kind_at ys' x)" for x
    using kind_at_Cons [of 0 0 l KReturned ys' e x] m by auto
  have nxt: "kind_at ys' (Suc l) \<noteq> KSkip \<and> kind_at ys' (Suc l) \<noteq> KReturned"
    using m(3,5,7) kind_at_Cons by (cases ys') (auto simp: kind_at_def range_cmp_if range_point_def)
  show "kind_at m = absorb (kind_at ?J)"
  proof
    fix x
    show "kind_at m x = absorb (kind_at ?J) x"
    proof (cases "x \<le> l")
      case True
      then have "absorb (kind_at ?J) x = KReturned" using J m(2,4) assms(4) by (intro absorb_all) auto
      then show ?thesis using R True by simp
    next
      case False
      then have "absorb (kind_at ?J) x = kind_at ?J x"
        using nxt J [of "Suc l"] m(2,4) assms(2,3) by (intro absorb_stop [of _ "Suc l"]) auto
      then show ?thesis using False R J m(2,4) assms(2,3) by auto
    qed
  qed
qed

lemma absorb_shape:
  assumes "shape m" "covers 0 m e"
  shows "absorb (kind_at m) = kind_at m"
proof -
  obtain r rest where m: "m = ((0, r), KReturned) # rest" "list_all (\<lambda>x. snd x \<noteq> KReturned) rest" "rest = [] \<or> snd (hd rest) \<noteq> KSkip"
    using assms(1) by (auto simp: shape_def split: list.splits)
  have k: "kind_at m x = (if x \<le> r then KReturned else kind_at rest x)" for x
    using kind_at_Cons [of 0 0 r KReturned rest e x] assms(2) m(1) by simp
  have "kind_at rest (Suc r) \<noteq> KSkip \<and> kind_at rest (Suc r) \<noteq> KReturned"
    using m assms(2) by (cases rest) (auto simp: kind_at_def range_cmp_if range_point_def)
  then have "absorb (kind_at m) x = kind_at m x" if "r < x" for x
    using that k [of "Suc r"] absorb_stop [of "kind_at m" "Suc r" x] by simp
  moreover have "absorb (kind_at m) x = kind_at m x" if "x \<le> r" for x using that k absorb_all [of x "kind_at m"] by simp
  ultimately show ?thesis by (meson ext not_le)
qed

lemma join_next_same:
  assumes "covers (Suc q) ys e" "p \<le> q" "n \<noteq> KReturned" "list_all (\<lambda>x. snd x \<noteq> KReturned) ys" "alternates ys"
  obtains l ys' where "join_next ((p, q), n) ys = (((p, l), n), ys')" "q \<le> l" "covers (Suc l) ys' e"
    "alternates (((p, l), n) # ys')" "list_all (\<lambda>x. snd x \<noteq> KReturned) ys'" "kind_at (((p, q), n) # ys) = kind_at (((p, l), n) # ys')"
proof (cases ys)
  case Nil
  then show thesis using that [of q "[]"] assms by (simp add: join_next_def alternates_def)
next
  case (Cons y zs)
  obtain l k where y: "y = ((Suc q, l), k)" "Suc q \<le> l" using assms(1) Cons by (cases y) auto
  show thesis
  proof (cases "k = n")
    case True
    have c: "covers p (((p, q), n) # ys) e" "covers p (((p, l), n) # zs) e" "covers (Suc q) (((Suc q, l), k) # zs) e"
      using assms Cons y by auto
    have "kind_at (((p, q), n) # ys) x = kind_at (((p, l), n) # zs) x" for x
      using kind_at_Cons [OF c(1), of x] kind_at_Cons [OF c(2), of x] kind_at_Cons [OF c(3), of x] Cons y True by auto
    then show thesis using that [of l zs] assms Cons y True by (cases zs) (auto simp: join_next_def merge_kind_def alternates_def)
  next
    case False
    then have "merge_kind n k = None" using assms Cons y by (auto simp: merge_kind_def)
    then show thesis using that [of q ys] assms Cons y False by (auto simp: join_next_def alternates_def)
  qed
qed

lemma join_rest:
  assumes X: "X = ((0, r), KReturned) # X'" "covers 0 X p" "alternates X" "list_all (\<lambda>x. snd x \<noteq> KReturned) X'"
      "X' = [] \<or> snd (hd X') \<noteq> KSkip"
    and pq: "p \<le> q" and Y: "covers (Suc q) Y e" "alternates Y" "list_all (\<lambda>x. snd x \<noteq> KReturned) Y"
    and n: "n \<noteq> KReturned" "X' = [] \<Longrightarrow> n \<noteq> KSkip"
  defines "m \<equiv> join X ((p, q), n) Y"
  shows "shape m" "alternates m" "kind_at m = absorb (kind_at (X @ ((p, q), n) # Y))"
proof -
  obtain l Y' where j: "join_next ((p, q), n) Y = (((p, l), n), Y')" "q \<le> l" "covers (Suc l) Y' e" "alternates (((p, l), n) # Y')"
      "list_all (\<lambda>x. snd x \<noteq> KReturned) Y'" "kind_at (((p, q), n) # Y) = kind_at (((p, l), n) # Y')"
    using join_next_same [OF Y(1) pq n(1) Y(3,2)] .
  have c: "covers 0 (X @ ((p, q), n) # Y) e" "covers p (((p, q), n) # Y) e" "covers 0 (X @ ((p, l), n) # Y') e" "covers p (((p, l), n) # Y') e"
    using X(2) Y(1) j(2,3) pq by (auto simp: covers_append)
  have k: "kind_at (X @ ((p, q), n) # Y) = kind_at (X @ ((p, l), n) # Y')"
    using kind_at_append [OF c(1,2)] kind_at_append [OF c(3,4)] j(6) by (auto simp: fun_eq_iff)
  have sh: "shape (X @ ((p, q), n) # Y)" using X n Y(3) by (cases X') (auto simp: shape_def)
  have main: "shape m \<and> alternates m \<and> kind_at m = kind_at (X @ ((p, l), n) # Y')"
  proof (cases X' rule: rev_cases)
    case Nil
    then have "merge_kind n KReturned = None" using n by (auto simp: merge_kind_def)
    then have "m = X @ ((p, l), n) # Y'" using Nil j X(1) by (simp add: m_def join_def join_prior_def)
    then show ?thesis using Nil X n j by (auto simp: shape_def alternates_def)
  next
    case (snoc X0 x)
    obtain f g k where x: "x = ((f, g), k)" by (metis prod.exhaust)
    have xc: "covers 0 (((0, r), KReturned) # X0) f" "f \<le> g" "p = Suc g" "k \<noteq> KReturned"
      using X snoc x by (auto simp: covers_append)
    show ?thesis
    proof (cases "k = n")
      case True
      then have m: "m = (((0, r), KReturned) # X0) @ ((f, l), n) # Y'"
        using j X(1) snoc x by (simp add: m_def join_def join_prior_def merge_kind_def)
      have d: "covers f (((f, g), n) # ((p, l), n) # Y') e" "covers f (((f, l), n) # Y') e" using xc j pq by auto
      have e: "covers 0 (((0, r), KReturned) # X0 @ ((f, g), n) # ((p, l), n) # Y') e" "covers 0 (((0, r), KReturned) # X0 @ ((f, l), n) # Y') e"
        using xc d by (auto simp: covers_append)
      have "kind_at (((f, g), n) # ((p, l), n) # Y') z = kind_at (((f, l), n) # Y') z" for z
        using kind_at_Cons [OF d(1), of z] kind_at_Cons [OF d(2), of z] kind_at_Cons [of p p l n Y' e z] xc(2,3) j(2,3) pq by auto
      then have "kind_at m = kind_at (X @ ((p, l), n) # Y')"
        using kind_at_append [of 0 "((0, r), KReturned) # X0" "((f, g), n) # ((p, l), n) # Y'" e f, OF _ d(1)] e
          kind_at_append [of 0 "((0, r), KReturned) # X0" "((f, l), n) # Y'" e f, OF _ d(2)]
        by (auto simp: m X(1) snoc x True fun_eq_iff)
      moreover have "shape m" using X snoc x True j by (cases X0) (auto simp: m shape_def)
      moreover have "alternates m" unfolding m by (rule alternates_replace) (use X(1,3) snoc x True j(4) in auto)
      ultimately show ?thesis by simp
    next
      case False
      then have "merge_kind n k = None" using n xc(4) by (auto simp: merge_kind_def)
      then have m: "m = X @ ((p, l), n) # Y'" using j X(1) snoc x by (simp add: m_def join_def join_prior_def)
      have "shape m" using X snoc x n j by (cases X0) (auto simp: m shape_def)
      moreover have "alternates m"
        using alternates_replace [of "((0, r), KReturned) # X0" "(f, g)" k "(f, g)" "((p, l), n) # Y'" "(f, g)"] X(1,3) snoc x False j(4)
        by (simp add: m alternates_def)
      ultimately show ?thesis by (simp add: m)
    qed
  qed
  then show "shape m" "alternates m" by simp_all
  show "kind_at m = absorb (kind_at (X @ ((p, q), n) # Y))" using main k absorb_shape [OF sh c(1)] by simp
qed


lemma replace_range:
  assumes m: "m = xs @ ((f, l), k) # ys" "covers 0 xs f" "covers (Suc l) ys (Suc u64_max)" "alternates m" "shape m"
    and pq: "f \<le> p" "p \<le> q" "q \<le> l" and k: "k \<noteq> KReturned" "n \<noteq> k"
    and ret: "n = KReturned \<Longrightarrow> 0 < p \<and> kind_at m (p - 1) = KReturned"
  obtains m' where "put_around (xs @ ys) (if f < p then Some (f, p - 1) else None, if q < l then Some (q + 1, l) else None) k (p, q) n = Some m'"
    "covers 0 m' (Suc u64_max)" "alternates m'" "shape m'" "kind_at m' = absorb (\<lambda>x. if p \<le> x \<and> x \<le> q then n else kind_at m x)"
    "\<And>K. K = KSent \<or> K = KGotten \<Longrightarrow>
      cnt K m' + (if k = K then Suc (q - p) else 0) = cnt K m + (if n = K then Suc (q - p) else 0)"
proof -
  obtain r xs' where xs: "xs = ((0, r), KReturned) # xs'" using m(1,5) k(1) by (cases xs) (auto simp: shape_def)
  let ?X' = "xs' @ before (f, l) p k" and ?Y = "after (f, l) q k @ ys"
  let ?X = "((0, r), KReturned) # ?X'"
  have fl: "f \<le> l" "0 < f" using pq m(2) xs covers_le by fastforce+
  have X: "covers 0 ?X p" using m(2) xs pq fl by (auto simp: covers_append before_def)
  have Y: "covers (Suc q) ?Y (Suc u64_max)" using m(3) pq by (auto simp: after_def)
  have aX: "alternates ?X" "alternates ?Y"
    using alternates_split [OF m(4) [unfolded m(1)]] by (simp_all add: xs before_def after_def)
  have nr: "list_all (\<lambda>x. snd x \<noteq> KReturned) ?X'" "list_all (\<lambda>x. snd x \<noteq> KReturned) ?Y"
    using m(5) k(1) by (auto simp: m(1) xs shape_def before_def after_def)
  have hX: "?X' = [] \<or> snd (hd ?X') \<noteq> KSkip" using m(5) by (cases xs') (auto simp: m(1) xs shape_def before_def)
  have km: "kind_at m x = (if x < f then kind_at xs x else if x \<le> l then k else kind_at ys x)" for x
    using kind_at_mid [OF m(2) fl(1) m(3)] m(1) by simp
  have front: "?X' = [] \<and> k \<noteq> KSkip" if "n = KReturned"
  proof -
    have "p = f" using ret [OF that] km [of "p - 1"] k(1) pq by (auto split: if_splits)
    moreover have "xs' = []"
    proof (rule ccontr)
      assume "xs' \<noteq> []"
      then obtain zs y where z: "xs' = zs @ [y]" by (metis rev_exhaust)
      obtain a b j where y: "y = ((a, b), j)" by (metis prod.exhaust)
      have "covers 0 (((0, r), KReturned) # zs) a" "a \<le> b" "f = Suc b" using m(2) xs z y by (auto simp: covers_append)
      then have "kind_at xs (f - 1) = j" using kind_at_mid [of 0 "((0, r), KReturned) # zs" a b "[]" "Suc b" j b] xs z y by simp
      then show False using ret [OF that] km [of "f - 1"] \<open>p = f\<close> fl(2) nr(1) z y by simp
    qed
    ultimately show ?thesis using m(5) by (auto simp: m(1) xs shape_def before_def)
  qed
  have none: "merge_kind n k = None" using k front by (auto simp: merge_kind_def)
  let ?m = "join ?X ((p, q), n) ?Y"
  have J: "kind_at (?X @ ((p, q), n) # ?Y) x = (if p \<le> x \<and> x \<le> q then n else kind_at m x)" for x
  proof -
    have kX: "kind_at ?X x = kind_at m x" if "x < p"
      using that km kind_at_mid [of 0 xs f "p - 1" "[]" p k x] m(2) pq xs by (cases "f < p") (auto simp: before_def)
    have kY: "kind_at ?Y x = kind_at m x" if "q < x"
      using that km kind_at_Cons [of "Suc q" "Suc q" l k ys "Suc u64_max" x] m(3) pq by (cases "q < l") (auto simp: after_def)
    show ?thesis using kind_at_mid [OF X pq(2) Y, of n x] kX kY by auto
  qed
  have put: "put_around (xs @ ys) (if f < p then Some (f, p - 1) else None, if q < l then Some (q + 1, l) else None) k (p, q) n = Some ?m"
    using put_around_join [OF m(2) fl(2) pq m(3), of n k] none xs by simp
  have main: "shape ?m \<and> alternates ?m \<and> kind_at ?m = absorb (kind_at (?X @ ((p, q), n) # ?Y))"
  proof (cases "?X' = [] \<and> (n = KSkip \<or> n = KReturned)")
    case True
    then show ?thesis using join_front [OF Y _ pq(2) _ nr(2) aX(2), of r n] X by auto
  next
    case False
    then show ?thesis using join_rest [OF refl X aX(1) nr(1) hX pq(2) Y aX(2) nr(2)] front by blast
  qed
  have cn: "cnt K ?m + (if k = K then Suc (q - p) else 0) = cnt K m + (if n = K then Suc (q - p) else 0)" if "K = KSent \<or> K = KGotten" for K
    using cnt_join [OF X pq(2) Y, of K n] that pq by (auto simp: m(1) xs before_def after_def)
  have J': "kind_at (?X @ ((p, q), n) # ?Y) = (\<lambda>x. if p \<le> x \<and> x \<le> q then n else kind_at m x)" using J by (rule ext)
  show thesis by (rule that [OF put covers_join [OF X pq(2) Y]]) (use main J' cn in auto)
qed


section \<open>The operations on a good tree\<close>

lemma range_okE:
  assumes "range_ok t" "p \<le> u64_max"
  obtains xs f l k ys where "inner t = xs @ ((f, l), k) # ys" "f \<le> p" "p \<le> l" "covers 0 xs f" "covers (Suc l) ys (Suc u64_max)"
    "status t p = k" "map_get (inner t) (range_point p) = Some ((f, l), k)"
    "remove_from_map (inner t) (range_point p) = Some (((f, l), k), xs @ ys)" "map_insert (xs @ ys) (f, l) k = inner t"
    "l \<le> u64_max"
proof -
  obtain xs f l k ys where s: "inner t = xs @ ((f, l), k) # ys" "f \<le> p" "p \<le> l" "covers 0 xs f" "covers (Suc l) ys (Suc u64_max)"
    using covers_split [of 0 "inner t" "Suc u64_max" p] assms by (auto simp: range_ok_def)
  note b = covers_below [OF s(4)]
  have "map_get (inner t) (range_point p) = Some ((f, l), k)" using map_get_at [OF b s(2,3)] s(1) by simp
  moreover have "map_remove (inner t) (range_point p) = xs @ ys" using map_remove_at [OF b s(2,3)] s(1) by simp
  moreover have "map_insert (xs @ ys) (f, l) k = inner t" using map_insert_at [OF b _ covers_beyond [OF s(5)]] s(1-3) by simp
  moreover have "l \<le> u64_max" using covers_le [OF s(5)] by simp
  ultimately show thesis using that [OF s] by (simp add: kind_at_def remove_from_map_def)
qed

lemma returned_prefix:
  assumes "range_ok t"
  obtains r where "\<And>p. status t p = KReturned \<longleftrightarrow> p \<le> r" "r \<le> u64_max" "status t (Suc r) \<noteq> KSkip"
proof -
  obtain r rest where m: "inner t = ((0, r), KReturned) # rest" "list_all (\<lambda>x. snd x \<noteq> KReturned) rest"
      "rest = [] \<or> snd (hd rest) \<noteq> KSkip" "covers 0 (inner t) (Suc u64_max)"
    using assms by (auto simp: range_ok_def shape_def split: list.splits)
  have c: "covers (Suc r) rest (Suc u64_max)" using m(1,4) by simp
  have k: "status t x = (if x \<le> r then KReturned else kind_at rest x)" for x
    using kind_at_Cons [of 0 0 r KReturned rest "Suc u64_max" x] m(1,4) by simp
  have "kind_at rest x \<noteq> KReturned" for x
    using m(2) by (induction rest) (auto simp: kind_at_def split: option.splits ordering.splits)
  moreover have "kind_at rest (Suc r) \<noteq> KSkip"
    using m(3) c by (cases rest) (auto simp: kind_at_def range_cmp_if range_point_def)
  ultimately show thesis using that [of r] k covers_le [OF c] by auto
qed

lemma is_returned_iff: "is_returned t p \<longleftrightarrow> status t p = KReturned"
  by (auto simp: is_returned_def kind_at_def split: option.splits prod.splits rkind.splits)

lemma next_return_is_iff:
  "next_return_is t p = Some b \<longleftrightarrow> 0 < p \<and> b = (status t p \<noteq> KReturned \<and> status t (p - 1) = KReturned)"
  by (auto simp: next_return_is_def kind_at_def rust_simps split: option.splits prod.splits rkind.splits)

lemma set_point_as_kept:
  assumes "range_ok t" "p \<le> u64_max" "\<not> is_prior (status t p) n"
  shows "set_point_as t p n = Some (False, t)"
proof -
  obtain xs f l k ys where "status t p = k" "remove_from_map (inner t) (range_point p) = Some (((f, l), k), xs @ ys)"
    "map_insert (xs @ ys) (f, l) k = inner t" using assms(1,2) by (rule range_okE)
  then show ?thesis using assms(3) by (simp add: set_point_as_def)
qed

lemma cnt_le: "covers a m (Suc u64_max) \<Longrightarrow> cnt K m + a \<le> Suc u64_max"
  by (induction m arbitrary: a) fastforce+

lemma shape_cnt: "shape m \<Longrightarrow> covers 0 m (Suc u64_max) \<Longrightarrow> K \<noteq> KReturned \<Longrightarrow> cnt K m \<le> u64_max"
  using cnt_le [of _ "tl m" K] by (fastforce simp: shape_def split: list.splits)

lemma split_at_parts:
  "f \<le> p \<Longrightarrow> p \<le> l \<Longrightarrow> split_at (f, l) p = (if f < p then Some (f, p - 1) else None, if p < l then Some (p + 1, l) else None)"
  by (auto simp: split_at_def cmp_u64_def)

lemma set_point_as_spec:
  assumes ok: "range_ok t" "p \<le> u64_max" and n: "is_prior (status t p) n" "n \<noteq> status t p"
    and ret: "n = KReturned \<Longrightarrow> next_return_is t p = Some True"
  obtains t' where "set_point_as t p n = Some (True, t')" "range_ok t'" "status t' = absorb ((status t)(p := n))"
proof -
  obtain xs f l k ys where s: "inner t = xs @ ((f, l), k) # ys" "f \<le> p" "p \<le> l" "covers 0 xs f" "covers (Suc l) ys (Suc u64_max)"
    "status t p = k" "remove_from_map (inner t) (range_point p) = Some (((f, l), k), xs @ ys)" using ok by (rule range_okE)
  have i: "alternates (inner t)" "shape (inner t)" "covers 0 (inner t) (Suc u64_max)" "num_outstanding t = cnt KSent (inner t)"
    "num_buffered t = cnt KGotten (inner t)" using ok(1) by (simp_all add: range_ok_def)
  have k: "k \<noteq> KReturned" "n \<noteq> k" using n s(6) by auto
  have r: "0 < p \<and> kind_at (inner t) (p - 1) = KReturned" if "n = KReturned" using ret [OF that] by (simp add: next_return_is_iff)
  obtain m' where m': "put_around (xs @ ys) (if f < p then Some (f, p - 1) else None, if p < l then Some (p + 1, l) else None) k (p, p) n = Some m'"
    "covers 0 m' (Suc u64_max)" "alternates m'" "shape m'" "kind_at m' = absorb (\<lambda>x. if p \<le> x \<and> x \<le> p then n else kind_at (inner t) x)"
    "\<And>K. K = KSent \<or> K = KGotten \<Longrightarrow> cnt K m' + (if k = K then Suc (p - p) else 0) = cnt K (inner t) + (if n = K then Suc (p - p) else 0)"
    using replace_range [OF s(1,4,5) i(1,2) s(2) order_refl s(3) k r] by blast
  have up: "(\<lambda>x. if p \<le> x \<and> x \<le> p then n else kind_at (inner t) x) = (status t)(p := n)" by auto
  let ?t = "\<lparr>inner = m', num_outstanding = cnt KSent m', num_buffered = cnt KGotten m'\<rparr>"
  have le: "cnt KSent m' \<le> u64_max" "cnt KGotten m' \<le> u64_max"
    using shape_cnt [OF m'(4,2)] by simp_all
  have "set_point_as t p n = Some (True, ?t)"
    using s(6,7) n m'(1) m'(6) [of KSent] m'(6) [of KGotten] i(4,5) le split_at_parts [OF s(2,3)]
    by (cases k; cases n) (simp_all add: set_point_as_def range_point_def u64_sub_def u64_add_def)
  moreover have "range_ok ?t" using m' by (simp add: range_ok_def)
  moreover have "status ?t = absorb ((status t)(p := n))" using m'(5) up by simp
  ultimately show thesis using that by blast
qed

lemma absorb_same:
  assumes "range_ok t" "n \<noteq> KReturned" "n \<noteq> KSkip" "\<And>x. low \<le> x \<Longrightarrow> x \<le> high \<Longrightarrow> status t x \<noteq> KReturned"
  shows "absorb (\<lambda>x. if low \<le> x \<and> x \<le> high then n else status t x) = (\<lambda>x. if low \<le> x \<and> x \<le> high then n else status t x)"
    (is "absorb ?g = ?g")
proof
  fix x
  obtain r where r: "\<And>p. status t p = KReturned \<longleftrightarrow> p \<le> r" "status t (Suc r) \<noteq> KSkip" using returned_prefix [OF assms(1)] by metis
  show "absorb ?g x = ?g x"
  proof (cases "x \<le> r")
    case True
    then have "?g y = KReturned" if "y \<le> x" for y using that r(1) [of y] assms(4) [of y] by auto
    then show ?thesis using absorb_all [of x ?g] by auto
  next
    case False
    then show ?thesis using r(1) [of "Suc r"] r(2) assms(2,3) by (intro absorb_stop [of _ "Suc r"]) auto
  qed
qed

lemma range_remove_parts:
  "f \<le> p \<Longrightarrow> q \<le> l \<Longrightarrow> range_remove (f, l) (p, q) = Some (if f < p then Some (f, p - 1) else None, if q < l then Some (q + 1, l) else None)"
  by (auto simp: range_remove_def cmp_u64_def)

lemma one_range:
  assumes "range_ok t" "inner t = xs @ ((f, l), k) # ys" "covers 0 xs f" "covers (Suc l) ys (Suc u64_max)" "f \<le> low" "low \<le> l" "high \<le> u64_max"
    "\<And>x. low \<le> x \<Longrightarrow> x \<le> high \<Longrightarrow> status t x = k"
  shows "high \<le> l"
proof (rule ccontr)
  assume h: "\<not> high \<le> l"
  then obtain y zs where y: "ys = y # zs" using assms(4,7) by (cases ys) auto
  obtain l' k' where k': "y = ((Suc l, l'), k')" "Suc l \<le> l'" using assms(4) y by (cases y) auto
  have "alternates (inner t)" using assms(1) by (simp add: range_ok_def)
  then have "k' \<noteq> k" using alternates_split(4) [of xs "(f, l)" k ys "(f, l)"] assms(2) y k' by (auto simp: alternates_def)
  moreover have "covers 0 (xs @ [((f, l), k)]) (Suc l)" using assms(3,5,6) by (auto simp: covers_append)
  then have "status t (Suc l) = k'"
    using kind_at_mid [of 0 "xs @ [((f, l), k)]" "Suc l" l' zs "Suc u64_max" k' "Suc l"] assms(2,4) y k' by simp
  ultimately show False using assms(8) [of "Suc l"] h assms(6) by simp
qed

lemma set_range_as_sent_spec:
  assumes ok: "range_ok t" and lh: "low \<le> high" "high \<le> u64_max" and none: "\<And>x. low \<le> x \<Longrightarrow> x \<le> high \<Longrightarrow> status t x = KNone"
  obtains t' where "set_range_as_sent t low high = Some t'" "range_ok t'"
    "status t' = (\<lambda>x. if low \<le> x \<and> x \<le> high then KSent else status t x)"
proof -
  have l: "low \<le> u64_max" using lh by simp
  obtain xs f l k ys where s: "inner t = xs @ ((f, l), k) # ys" "f \<le> low" "low \<le> l" "covers 0 xs f" "covers (Suc l) ys (Suc u64_max)"
    "status t low = k" "remove_from_map (inner t) (range_point low) = Some (((f, l), k), xs @ ys)" using ok l by (rule range_okE)
  have k: "k = KNone" using none [of low] s(6) lh by simp
  have hl: "high \<le> l" using one_range [OF ok s(1,4,5,2,3) lh(2)] none k by simp
  have i: "alternates (inner t)" "shape (inner t)" "num_outstanding t = cnt KSent (inner t)" "num_buffered t = cnt KGotten (inner t)"
    using ok by (simp_all add: range_ok_def)
  obtain m' where m': "put_around (xs @ ys) (if f < low then Some (f, low - 1) else None, if high < l then Some (high + 1, l) else None) k (low, high) KSent = Some m'"
    "covers 0 m' (Suc u64_max)" "alternates m'" "shape m'" "kind_at m' = absorb (\<lambda>x. if low \<le> x \<and> x \<le> high then KSent else kind_at (inner t) x)"
    "\<And>K. K = KSent \<or> K = KGotten \<Longrightarrow> cnt K m' + (if k = K then Suc (high - low) else 0) = cnt K (inner t) + (if KSent = K then Suc (high - low) else 0)"
    using replace_range [OF s(1,4,5) i(1,2) s(2) lh(1) hl, of KSent] k by auto
  let ?t = "t\<lparr>inner := m', num_outstanding := cnt KSent m'\<rparr>"
  have c: "cnt KSent m' = num_outstanding t + Suc (high - low)" "cnt KGotten m' = num_buffered t"
    using m'(6) [of KSent] m'(6) [of KGotten] i(3,4) k by simp_all
  have ok': "range_ok ?t" using m' c by (simp add: range_ok_def)
  have le: "cnt KSent m' \<le> u64_max" using shape_cnt [OF m'(4,2)] by simp
  have "set_range_as_sent t low high = Some ?t"
    using range_ok_tree_invariant [OF ok] range_ok_tree_invariant [OF ok'] s(7) k m'(1) lh hl s(2,3) c le range_remove_parts [OF s(2) hl]
    by (simp add: set_range_as_sent_def range_new_def spans_def range_len_def u64_sub_def u64_add_def)
  moreover have "status ?t = (\<lambda>x. if low \<le> x \<and> x \<le> high then KSent else status t x)"
    using m'(5) absorb_same [OF ok, of KSent low high] none by simp
  ultimately show thesis using that ok' by blast
qed

end
