(* ===== verification/Client_Color.thy ===== *)
theory Client_Color
  imports Client_Ranges Packets
begin

text \<open>
  What the client knows of one chain (\<^verbatim>\<open>fuzzy_log_client/src/fuzzy_log/per_color.rs\<close>). A vector of bytes that
  holds an entry is the packet it decodes to. A \<open>ReadState\<close> holds a clone of the reference-counted
  \<open>ReadHandle\<close> of the log; the handle has no content, so the model keeps only whether there is a state.
\<close>

section \<open>State\<close>

record read_state =
  outstanding_snapshots :: nat
  num_multiappends_searching_for :: nat

record per_color =
  pc_chain :: order
  last_snapshot :: entry
  read_status :: range_tree
  blocked_on_new_snapshot :: "packet option"
  found_but_unused_multiappends :: "uuid \<rightharpoonup> entry"
  required_no_remotes :: "uuid list"
  is_being_read :: "read_state option"
  is_interesting :: bool

datatype next_to_fetch = NFNone | BelowHorizon u64 u64 | AboveHorizon u64 u64

definition u32_add :: "nat \<Rightarrow> nat \<Rightarrow> nat option" where
  "u32_add a b = (if a + b < 2 ^ 32 then Some (a + b) else None)"

definition read_state_new :: read_state where
  "read_state_new = \<lparr>outstanding_snapshots = 0, num_multiappends_searching_for = 0\<rparr>"

definition read_state_is_finished :: "read_state \<Rightarrow> bool" where
  "read_state_is_finished r \<longleftrightarrow> outstanding_snapshots r = 0 \<and> num_multiappends_searching_for r = 0"

definition per_color_new :: "order \<Rightarrow> per_color" where
  "per_color_new chain =
     \<lparr>pc_chain = chain, last_snapshot = 0, read_status = range_tree_new, blocked_on_new_snapshot = None,
      found_but_unused_multiappends = Map.empty, required_no_remotes = [], is_being_read = None, is_interesting = False\<rparr>"

definition interesting :: "order \<Rightarrow> per_color" where
  "interesting chain = (per_color_new chain)\<lparr>is_interesting := True\<rparr>"

section \<open>What has been returned\<close>

definition pc_next_return_is :: "per_color \<Rightarrow> entry \<Rightarrow> bool option" where
  "pc_next_return_is pc index = next_return_is (read_status pc) index"

definition has_returned :: "per_color \<Rightarrow> entry \<Rightarrow> bool" where
  "has_returned pc index = is_returned (read_status pc) index"

definition is_within_snapshot :: "per_color \<Rightarrow> entry \<Rightarrow> bool" where
  "is_within_snapshot pc index \<longleftrightarrow> index \<le> last_snapshot pc"

definition can_return :: "per_color \<Rightarrow> entry \<Rightarrow> bool option" where
  "can_return pc index = do { n \<leftarrow> pc_next_return_is pc index; Some (n \<and> is_within_snapshot pc index) }"

definition is_searching_for_multi :: "per_color \<Rightarrow> bool" where
  "is_searching_for_multi pc = (case is_being_read pc of Some r \<Rightarrow> 0 < num_multiappends_searching_for r | None \<Rightarrow> False)"

definition has_outstanding_snapshots :: "per_color \<Rightarrow> bool" where
  "has_outstanding_snapshots pc = (case is_being_read pc of Some r \<Rightarrow> 0 < outstanding_snapshots r | None \<Rightarrow> False)"

definition has_read_state :: "per_color \<Rightarrow> bool" where
  "has_read_state pc \<longleftrightarrow> is_being_read pc \<noteq> None"

definition has_outstanding :: "per_color \<Rightarrow> bool" where
  "has_outstanding pc = has_read_state pc"

definition has_outstanding_reads :: "per_color \<Rightarrow> bool" where
  "has_outstanding_reads pc \<longleftrightarrow> 0 < num_outstanding (read_status pc)"

definition has_pending_reads_reqs :: "per_color \<Rightarrow> bool" where
  "has_pending_reads_reqs pc = (case first_outstanding (read_status pc) of Some p \<Rightarrow> p < last_snapshot pc | None \<Rightarrow> False)"

definition finished_until_snapshot :: "per_color \<Rightarrow> bool" where
  "finished_until_snapshot pc \<longleftrightarrow> is_returned (read_status pc) (last_snapshot pc) \<and> \<not> has_outstanding_snapshots pc"

definition is_finished :: "per_color \<Rightarrow> bool" where
  "is_finished pc \<longleftrightarrow> finished_until_snapshot pc \<and> \<not> (is_searching_for_multi pc \<or> has_outstanding_snapshots pc)"

definition no_reads_below :: "per_color \<Rightarrow> bool" where
  "no_reads_below pc = (case first_outstanding (read_status pc) of Some o' \<Rightarrow> last_snapshot pc < o' | None \<Rightarrow> True)"

definition set_finished_reading :: "per_color \<Rightarrow> per_color option" where
  "set_finished_reading pc = do {
     rust_assert (case is_being_read pc of Some r \<Rightarrow> read_state_is_finished r | None \<Rightarrow> True);
     rust_assert (no_reads_below pc);
     Some (pc\<lparr>is_being_read := None\<rparr>)
   }"

definition drop_if_finished :: "per_color \<Rightarrow> per_color" where
  "drop_if_finished pc = (if is_finished pc then pc\<lparr>is_being_read := None\<rparr> else pc)"

definition set_returned :: "per_color \<Rightarrow> entry \<Rightarrow> per_color option" where
  "set_returned pc index = do {
     next \<leftarrow> pc_next_return_is pc index;
     rust_assert next;
     rust_assert (index \<le> last_snapshot pc);
     rs \<leftarrow> set_point_as_returned (read_status pc) index;
     Some (drop_if_finished (pc\<lparr>read_status := rs\<rparr>))
   }"

section \<open>Reads\<close>

definition overread_at :: "per_color \<Rightarrow> entry \<Rightarrow> per_color option" where
  "overread_at pc index = do { rs \<leftarrow> set_point_as_none (read_status pc) index; Some (pc\<lparr>read_status := rs\<rparr>) }"

definition got_read :: "per_color \<Rightarrow> entry \<Rightarrow> (bool \<times> per_color) option" where
  "got_read pc index = do { (b, rs) \<leftarrow> set_point_as_recvd (read_status pc) index; Some (b, pc\<lparr>read_status := rs\<rparr>) }"

definition mark_as_already_fetched :: "per_color \<Rightarrow> entry \<Rightarrow> per_color option" where
  "mark_as_already_fetched pc index =
     do { (b, rs) \<leftarrow> set_point_as_recvd (read_status pc) index; Some (pc\<lparr>read_status := rs\<rparr>) }"

definition mark_as_skippable :: "per_color \<Rightarrow> entry \<Rightarrow> per_color option" where
  "mark_as_skippable pc index = do { rs \<leftarrow> set_point_as_skip (read_status pc) index; Some (pc\<lparr>read_status := rs\<rparr>) }"

definition rewind_to :: "per_color \<Rightarrow> entry \<Rightarrow> per_color option" where
  "rewind_to pc index = do { rs \<leftarrow> set_above_as_none (read_status pc) index; Some (pc\<lparr>read_status := rs\<rparr>) }"

definition increment_outstanding_snapshots :: "per_color \<Rightarrow> per_color option" where
  "increment_outstanding_snapshots pc = do {
     let r = (case is_being_read pc of Some r \<Rightarrow> r | None \<Rightarrow> read_state_new);
     n \<leftarrow> u32_add (outstanding_snapshots r) 1;
     Some (pc\<lparr>is_being_read := Some (r\<lparr>outstanding_snapshots := n\<rparr>)\<rparr>)
   }"

definition decrement_outstanding_snapshots :: "per_color \<Rightarrow> per_color option" where
  "decrement_outstanding_snapshots pc = do {
     r \<leftarrow> is_being_read pc;
     n \<leftarrow> u64_sub (outstanding_snapshots r) 1;
     Some (pc\<lparr>is_being_read := Some (r\<lparr>outstanding_snapshots := n\<rparr>)\<rparr>)
   }"

definition increment_multi_search :: "per_color \<Rightarrow> per_color option" where
  "increment_multi_search pc = do {
     let r = (case is_being_read pc of Some r \<Rightarrow> r | None \<Rightarrow> read_state_new);
     n \<leftarrow> u32_add (num_multiappends_searching_for r) 1;
     Some (pc\<lparr>is_being_read := Some (r\<lparr>num_multiappends_searching_for := n\<rparr>)\<rparr>)
   }"

definition decrement_multi_search :: "per_color \<Rightarrow> per_color option" where
  "decrement_multi_search pc = do {
     r \<leftarrow> is_being_read pc;
     n \<leftarrow> u64_sub (num_multiappends_searching_for r) 1;
     Some (drop_if_finished (pc\<lparr>is_being_read := Some (r\<lparr>num_multiappends_searching_for := n\<rparr>)\<rparr>))
   }"

definition got_no_remote :: "per_color \<Rightarrow> uuid \<Rightarrow> bool \<times> per_color" where
  "got_no_remote pc i =
     (i \<notin> set (required_no_remotes pc), pc\<lparr>required_no_remotes := filter (\<lambda>j. j \<noteq> i) (required_no_remotes pc)\<rparr>)"

definition add_no_remote :: "per_color \<Rightarrow> uuid \<Rightarrow> per_color" where
  "add_no_remote pc i = pc\<lparr>required_no_remotes := List.insert i (required_no_remotes pc)\<rparr>"

section \<open>The horizon\<close>

definition entry_is_unblocked :: "packet option \<Rightarrow> order \<Rightarrow> entry \<Rightarrow> bool option" where
  "entry_is_unblocked val chain new_horizon =
     (case val of
        None \<Rightarrow> Some False
      | Some v \<Rightarrow> do { locs \<leftarrow> pkt_locs v; Some (list_ex (\<lambda>(o', i). o' = chain \<and> i \<le> new_horizon) locs) })"

definition update_horizon :: "per_color \<Rightarrow> entry \<Rightarrow> (packet option \<times> per_color) option" where
  "update_horizon pc new_horizon =
     (if last_snapshot pc < new_horizon then do {
        let pc = pc\<lparr>last_snapshot := new_horizon\<rparr>;
        unblocked \<leftarrow> entry_is_unblocked (blocked_on_new_snapshot pc) (pc_chain pc) new_horizon;
        if unblocked then Some (blocked_on_new_snapshot pc, pc\<lparr>blocked_on_new_snapshot := None\<rparr>)
        else Some (None, pc)
      }
      else Some (None, pc))"

definition increment_horizon :: "per_color \<Rightarrow> (packet option \<times> per_color) option" where
  "increment_horizon pc = do { h \<leftarrow> u64_add (last_snapshot pc) 1; update_horizon pc h }"

definition give_new_snapshot :: "per_color \<Rightarrow> entry \<Rightarrow> (packet option \<times> per_color) option" where
  "give_new_snapshot pc new_horizon = do {
     pc \<leftarrow> decrement_outstanding_snapshots pc;
     if new_horizon \<le> last_snapshot pc then
       Some (None,
         if (case is_being_read pc of Some r \<Rightarrow> read_state_is_finished r | None \<Rightarrow> False) \<and> no_reads_below pc
         then pc\<lparr>is_being_read := None\<rparr> else pc)
     else update_horizon pc new_horizon
   }"

definition block_on_snapshot :: "per_color \<Rightarrow> packet \<Rightarrow> per_color option" where
  "block_on_snapshot pc val = do {
     locs \<leftarrow> pkt_locs val;
     (_, i) \<leftarrow> List.find (\<lambda>(o', _). o' = pc_chain pc) locs;
     s \<leftarrow> u64_add (last_snapshot pc) 1;
     rust_assert (i = s);
     rust_assert (case blocked_on_new_snapshot pc of Some b \<Rightarrow> pkt_id b = pkt_id val | None \<Rightarrow> True);
     Some (pc\<lparr>blocked_on_new_snapshot := Some val\<rparr>)
   }"

definition current_snap :: "per_color \<Rightarrow> entry" where
  "current_snap pc = last_snapshot pc"

section \<open>What to fetch\<close>

definition max_pipelined :: u64 where
  "max_pipelined = 20000"

definition next_range_to_fetch :: "per_color \<Rightarrow> next_to_fetch option" where
  "next_range_to_fetch pc =
     (let outstanding_reads = num_outstanding (read_status pc) in
      if max_pipelined \<le> outstanding_reads then Some NFNone
      else let (first_needed, last_needed) = min_range_to_fetch (read_status pc) in
        if last_snapshot pc < first_needed then Some (AboveHorizon first_needed last_needed)
        else do {
          let last_needed = min last_needed (last_snapshot pc);
          bound \<leftarrow> u64_add first_needed (max_pipelined - outstanding_reads);
          Some (BelowHorizon first_needed (min last_needed bound))
        })"

definition fetching_range :: "per_color \<Rightarrow> entry \<Rightarrow> entry \<Rightarrow> per_color option" where
  "fetching_range pc low high = do {
     rust_assert (low \<le> high);
     let pc = (if is_being_read pc = None then pc\<lparr>is_being_read := Some read_state_new\<rparr> else pc);
     rs \<leftarrow> set_range_as_sent (read_status pc) low high;
     Some (pc\<lparr>read_status := rs\<rparr>)
   }"

definition has_more_multi_search_than_outstanding_reads :: "per_color \<Rightarrow> bool option" where
  "has_more_multi_search_than_outstanding_reads pc =
     (let outstanding_reads = num_outstanding (read_status pc);
          num_required_no_remotes = length (required_no_remotes pc) in
      case is_being_read pc of
        None \<Rightarrow> Some (0 < num_required_no_remotes)
      | Some r \<Rightarrow> do {
          o1 \<leftarrow> u64_add outstanding_reads 1;
          rust_assert (num_multiappends_searching_for r \<le> o1 mod 2 ^ 32);
          n \<leftarrow> u64_add (num_multiappends_searching_for r) num_required_no_remotes;
          Some (outstanding_reads < n)
        })"

definition currently_buffering :: "per_color \<Rightarrow> u64" where
  "currently_buffering pc = num_buffered (read_status pc)"

definition add_early_sentinel :: "per_color \<Rightarrow> uuid \<Rightarrow> entry \<Rightarrow> per_color option" where
  "add_early_sentinel pc i index = do {
     rust_assert (index \<noteq> 0);
     mark_as_skippable (pc\<lparr>found_but_unused_multiappends := (found_but_unused_multiappends pc)(i \<mapsto> index)\<rparr>) index
   }"

definition take_early_sentinel :: "per_color \<Rightarrow> uuid \<Rightarrow> entry option \<times> per_color" where
  "take_early_sentinel pc i =
     (found_but_unused_multiappends pc i,
      pc\<lparr>found_but_unused_multiappends := (found_but_unused_multiappends pc)(i := None)\<rparr>)"

end
