(* ===== verification/Client_Log.thy ===== *)
theory Client_Log
  imports Client_Color Server_Types "HOL-Library.AList"
begin

text \<open>
  The client's log thread (\<^verbatim>\<open>fuzzy_log_client/src/fuzzy_log/mod.rs\<close>): it turns snapshots into reads, holds
  back what is read until everything it depends on has been handed to the application, and hands it over.
  Channels are the lists of what was sent and whether the receiver is still there. \<open>Rc\<close> is explicit: an
  address, the entry behind it and its strong count, so that \<open>Rc::try_unwrap\<close> is a test of the count. The
  chains are listed in the order in which the hash map iterates over them. Counters that are only printed are
  left out, and a cached buffer, which is always empty, is counted.
\<close>

section \<open>State\<close>

datatype no_remote_style = NoConnection | EnsureRead | Atomic

type_synonym io_error_kind = nat

record log_error =
  error_num :: u64
  error_server :: nat
  error_kind :: io_error_kind

datatype read_result = ReadOk packet | ReadDone | ReadErr log_error

datatype write_result = WriteOk uuid "order_index list" | WriteErr log_error

type_synonym chain_entry = nat

record thread_log =
  to_store :: "packet list"
  store_up :: bool
  blockers :: "order_index \<rightharpoonup> chain_entry list"
  rc_val :: "chain_entry \<Rightarrow> packet"
  rc_count :: "chain_entry \<Rightarrow> nat"
  rc_next :: chain_entry
  blocked_multiappends :: "uuid \<rightharpoonup> packet"
  per_chains :: "(order \<times> per_color) list"
  ready_reads :: "read_result list"
  reads_up :: bool
  finished_writes :: "write_result list"
  writes_up :: bool
  no_longer_blocked :: "order_index list"
  log_cache :: nat
  num_snapshots :: nat
  num_errors :: u64
  fetch_boring_multis :: bool
  ack_writes :: bool
  return_snapshots :: bool
  remote_style :: no_remote_style
  log_finished :: bool
  log_prefetch :: nat
  last_seen_entries :: "(order \<times> entry) list"
  my_colors_chains :: "order list"

datatype from_store =
    WriteComplete uuid "order_index list"
  | ReadComplete order_index packet
  | IoError io_error_kind nat

datatype from_client =
    SnapshotAndPrefetch order
  | MultiSnapshotAndPrefetch "order list"
  | StrongSnapshotAndPrefetch "order_index list"
  | PerformAppend packet
  | ReturnBuffer packet
  | ReadUntil order_index
  | Fastforward order_index
  | Rewind order_index
  | StopAckingWrites
  | Shutdown

datatype message = FromStore from_store | FromClient from_client

datatype multi_search =
    SearchFinished packet
  | InProgress
  | EarlySentinel
  | BeyondHorizon packet
  | WaitForDeps packet

text \<open>What \<open>ThreadLogBuilder\<close> builds for the chains of interest and the options chosen.\<close>

definition log_build :: "order list \<Rightarrow> bool \<Rightarrow> bool \<Rightarrow> bool \<Rightarrow> no_remote_style \<Rightarrow> order list option \<Rightarrow> thread_log" where
  "log_build cs ack snapshots boring style colors =
     \<lparr>to_store = [], store_up = True, blockers = Map.empty, rc_val = (\<lambda>_. read_packet 0 (0, 0)), rc_count = (\<lambda>_. 0), rc_next = 0,
      blocked_multiappends = Map.empty,
      per_chains = map (\<lambda>c. (c, interesting c)) (remdups (case colors of Some ms \<Rightarrow> ms | None \<Rightarrow> cs)),
      ready_reads = [], reads_up = True, finished_writes = [], writes_up = True, no_longer_blocked = [], log_cache = 0,
      num_snapshots = 0, num_errors = 0, fetch_boring_multis = boring, ack_writes = ack, return_snapshots = snapshots,
      remote_style = style, log_finished = False, log_prefetch = 1, last_seen_entries = [],
      my_colors_chains = (case colors of Some ms \<Rightarrow> remdups ms | None \<Rightarrow> [])\<rparr>"

section \<open>Channels, buffers, chains and shared entries\<close>

definition send_store :: "thread_log \<Rightarrow> packet \<Rightarrow> thread_log option" where
  "send_store s p = do { rust_assert (store_up s); Some (s\<lparr>to_store := to_store s @ [p]\<rparr>) }"

definition send_read :: "thread_log \<Rightarrow> read_result \<Rightarrow> bool \<times> thread_log" where
  "send_read s r = (if reads_up s then (True, s\<lparr>ready_reads := ready_reads s @ [r]\<rparr>) else (False, s))"

text \<open>The result of a send that ends the thread when the receiver is gone.\<close>

definition send_read_or_finish :: "thread_log \<Rightarrow> read_result \<Rightarrow> thread_log" where
  "send_read_or_finish s r = (case send_read s r of (True, s) \<Rightarrow> s | (False, s) \<Rightarrow> s\<lparr>log_finished := True\<rparr>)"

definition send_write :: "thread_log \<Rightarrow> write_result \<Rightarrow> bool \<times> thread_log" where
  "send_write s r = (if writes_up s then (True, s\<lparr>finished_writes := finished_writes s @ [r]\<rparr>) else (False, s))"

definition cache_alloc :: "thread_log \<Rightarrow> thread_log" where
  "cache_alloc s = s\<lparr>log_cache := log_cache s - 1\<rparr>"

definition cache_buffer :: "thread_log \<Rightarrow> thread_log" where
  "cache_buffer s = s\<lparr>log_cache := log_cache s + 1\<rparr>"

definition cache_flush :: "thread_log \<Rightarrow> thread_log" where
  "cache_flush s = s\<lparr>log_cache := min 100 (log_cache s)\<rparr>"

definition get_pc :: "thread_log \<Rightarrow> order \<Rightarrow> per_color option" where
  "get_pc s c = map_of (per_chains s) c"

definition set_pc :: "thread_log \<Rightarrow> order \<Rightarrow> per_color \<Rightarrow> thread_log" where
  "set_pc s c pc = s\<lparr>per_chains := AList.update c pc (per_chains s)\<rparr>"

text \<open>\<open>per_chains.entry(c).or_insert_with(|| PerColor::new(c))\<close>\<close>

definition entry_pc :: "thread_log \<Rightarrow> order \<Rightarrow> per_color" where
  "entry_pc s c = (case get_pc s c of Some pc \<Rightarrow> pc | None \<Rightarrow> per_color_new c)"

definition rc_new :: "thread_log \<Rightarrow> packet \<Rightarrow> chain_entry \<times> thread_log" where
  "rc_new s p =
     (let a = rc_next s in (a, s\<lparr>rc_val := (rc_val s)(a := p), rc_count := (rc_count s)(a := 1), rc_next := Suc a\<rparr>))"

definition rc_clone :: "thread_log \<Rightarrow> chain_entry \<Rightarrow> thread_log" where
  "rc_clone s a = s\<lparr>rc_count := (rc_count s)(a := rc_count s a + 1)\<rparr>"

definition rc_drop :: "thread_log \<Rightarrow> chain_entry \<Rightarrow> thread_log" where
  "rc_drop s a = s\<lparr>rc_count := (rc_count s)(a := rc_count s a - 1)\<rparr>"

definition rc_unique :: "thread_log \<Rightarrow> chain_entry \<Rightarrow> bool" where
  "rc_unique s a \<longleftrightarrow> rc_count s a = 1"

definition push_blocked :: "thread_log \<Rightarrow> order_index \<Rightarrow> chain_entry \<Rightarrow> thread_log" where
  "push_blocked s loc a =
     s\<lparr>blockers := (blockers s)(loc \<mapsto> (case blockers s loc of Some as \<Rightarrow> as | None \<Rightarrow> []) @ [a])\<rparr>"

definition see_entry :: "thread_log \<Rightarrow> order_index \<Rightarrow> thread_log" where
  "see_entry s loc =
     (let e = (case map_of (last_seen_entries s) (fst loc) of Some e \<Rightarrow> e | None \<Rightarrow> 0) in
      s\<lparr>last_seen_entries := AList.update (fst loc) (max e (snd loc)) (last_seen_entries s)\<rparr>)"

section \<open>Fetching\<close>

definition make_read_packet :: "thread_log \<Rightarrow> order \<Rightarrow> entry \<Rightarrow> packet \<times> thread_log" where
  "make_read_packet s chain index = (PRead 0 fNothing 0 0 (chain, index) (0, 0) (0, 0), cache_alloc s)"

fun fetch_loop :: "thread_log \<Rightarrow> order \<Rightarrow> u64 list \<Rightarrow> thread_log" where
  "fetch_loop s chain [] = s"
| "fetch_loop s chain (next # ns) =
     (let (p, s) = make_read_packet s chain next in
      fetch_loop (if store_up s then s\<lparr>to_store := to_store s @ [p]\<rparr> else s\<lparr>log_finished := True\<rparr>) chain ns)"

definition fetch_next :: "thread_log \<Rightarrow> order \<Rightarrow> u64 \<Rightarrow> u64 \<Rightarrow> thread_log option" where
  "fetch_next s chain low high = do {
     pc \<leftarrow> get_pc s chain;
     pc \<leftarrow> fetching_range pc low high;
     _ \<leftarrow> u64_add high 1;
     Some (fetch_loop (set_pc s chain pc) chain [low..<high + 1])
   }"

definition fetch_snapshot :: "thread_log \<Rightarrow> order \<Rightarrow> thread_log option" where
  "fetch_snapshot s chain = (let (p, s) = make_read_packet s chain u64_max in send_store s p)"

definition fetch_strong_snapshot :: "thread_log \<Rightarrow> uuid \<Rightarrow> order_index list \<Rightarrow> thread_log option" where
  "fetch_strong_snapshot s new_v4 locs = send_store (cache_alloc s) (PSnapshot new_v4 fNothing 0 0 0 locs)"

definition prefetch_range :: "thread_log \<Rightarrow> per_color \<Rightarrow> (u64 \<times> u64) option option" where
  "prefetch_range s pc = do {
     next \<leftarrow> next_range_to_fetch pc;
     (case next of
        NFNone \<Rightarrow> Some None
      | AboveHorizon low high \<Rightarrow> do {
          d \<leftarrow> u64_sub high low;
          n \<leftarrow> u64_add d 1;
          let n = min n (log_prefetch s);
          if n = 0 then Some None
          else if currently_buffering pc < n then do {
            h \<leftarrow> u64_add low (n - currently_buffering pc);
            Some (Some (low, min high (h - 1)))
          } else Some None
        }
      | BelowHorizon low high \<Rightarrow> do {
          d \<leftarrow> u64_sub high low;
          n \<leftarrow> u64_add d 1;
          let n = max n (log_prefetch s);
          if n = 0 then Some None
          else if currently_buffering pc < n then do {
            h \<leftarrow> u64_add high (n - currently_buffering pc);
            Some (Some (low, min high (h - 1)))
          } else Some None
        })
   }"

definition prefetch :: "thread_log \<Rightarrow> order \<Rightarrow> thread_log option" where
  "prefetch s chain = do {
     pc \<leftarrow> get_pc s chain;
     pc \<leftarrow> increment_outstanding_snapshots pc;
     to_fetch \<leftarrow> prefetch_range s pc;
     let s = set_pc s chain pc;
     (case to_fetch of Some (low, high) \<Rightarrow> fetch_next s chain low high | None \<Rightarrow> Some s)
   }"

section \<open>Returning entries to the application\<close>

text \<open>\<open>enqueue_packet\<close> takes over the reference it is given.\<close>

definition enqueue_packet :: "thread_log \<Rightarrow> order_index \<Rightarrow> chain_entry \<Rightarrow> thread_log option" where
  "enqueue_packet s loc a = do {
     rust_assert (1 < snd loc);
     pc \<leftarrow> get_pc s (fst loc);
     next \<leftarrow> pc_next_return_is pc (snd loc);
     rust_assert (\<not> next \<and> \<not> has_returned pc (snd loc));
     Some (push_blocked s (fst loc, snd loc - 1) a)
   }"

definition return_entry_at :: "thread_log \<Rightarrow> order_index \<Rightarrow> packet \<Rightarrow> (bool \<times> thread_log) option" where
  "return_entry_at s loc val =
     (case get_pc s (fst loc) of
        None \<Rightarrow> Some (False, s)
      | Some pc \<Rightarrow>
          if has_returned pc (snd loc) then Some (False, s)
          else if \<not> is_within_snapshot pc (snd loc) then do {
            pc \<leftarrow> block_on_snapshot pc val;
            Some (False, set_pc s (fst loc) pc)
          }
          else do {
            rust_assert (0 < snd loc);
            pc \<leftarrow> set_returned pc (snd loc);
            let s = set_pc s (fst loc) pc;
            let s = (if is_interesting pc \<and> my_colors_chains s \<noteq> [] \<and> fst loc \<in> set (my_colors_chains s)
                     then see_entry s loc else s);
            Some (True, if is_interesting pc then send_read_or_finish s (ReadOk val) else s)
          })"

text \<open>The first loop of \<open>return_entry\<close>: \<open>Inl\<close> when it returns because of a double return, otherwise the
  location to wait for a snapshot of, if any.\<close>

fun check_locs ::
  "thread_log \<Rightarrow> bool \<Rightarrow> order_index option \<Rightarrow> order_index list \<Rightarrow> (unit + order_index option) option" where
  "check_locs s checking_sentinels should_block_on [] = Some (Inr should_block_on)"
| "check_locs s checking_sentinels should_block_on ((o', i) # locs) =
     (if o' = 0 then check_locs s True should_block_on locs
      else case get_pc s o' of
        None \<Rightarrow> check_locs s checking_sentinels should_block_on locs
      | Some pc \<Rightarrow>
          if has_returned pc i \<and> \<not> checking_sentinels then Some (Inl ())
          else if \<not> has_returned pc i \<and> checking_sentinels then None
          else check_locs s checking_sentinels (if is_within_snapshot pc i then should_block_on else Some (o', i)) locs)"

fun set_all_returned :: "thread_log \<Rightarrow> bool \<Rightarrow> order_index list \<Rightarrow> (bool \<times> thread_log) option" where
  "set_all_returned s intr [] = Some (intr, s)"
| "set_all_returned s intr ((o', i) # locs) =
     (if o' = 0 then Some (intr, s)
      else case get_pc s o' of
        None \<Rightarrow> set_all_returned s intr locs
      | Some pc \<Rightarrow> do {
          rust_assert (is_within_snapshot pc i);
          pc \<leftarrow> set_returned pc i;
          set_all_returned (set_pc s o' pc) (intr \<or> is_interesting pc) locs
        })"

definition see_all :: "thread_log \<Rightarrow> order_index list \<Rightarrow> thread_log" where
  "see_all s locs = foldl (\<lambda>s loc. if fst loc \<in> set (my_colors_chains s) then see_entry s loc else s) s locs"

definition return_entry :: "thread_log \<Rightarrow> packet \<Rightarrow> (order_index list option \<times> thread_log) option" where
  "return_entry s val = do {
     _ \<leftarrow> pkt_flag val;
     locs \<leftarrow> pkt_locs val;
     r \<leftarrow> check_locs s False None locs;
     (case r of
        Inl _ \<Rightarrow> Some (None, s)
      | Inr (Some (o', i)) \<Rightarrow> do {
          pc \<leftarrow> get_pc s o';
          is_next \<leftarrow> pc_next_return_is pc i;
          if is_next then do {
            pc \<leftarrow> block_on_snapshot pc val;
            Some (None, set_pc s o' pc)
          } else do {
            let (a, s) = rc_new s val;
            s \<leftarrow> enqueue_packet s (o', i) a;
            Some (None, s)
          }
        }
      | Inr None \<Rightarrow> do {
          (intr, s) \<leftarrow> set_all_returned s False locs;
          let s = (if intr \<and> my_colors_chains s \<noteq> [] then see_all s locs else s);
          Some (Some locs, if intr then send_read_or_finish s (ReadOk val) else s)
        })
   }"

fun unblock_all :: "thread_log \<Rightarrow> chain_entry list \<Rightarrow> thread_log option" where
  "unblock_all s [] = Some s"
| "unblock_all s (a # as) =
     (if rc_unique s a then do {
        let val = rc_val s a;
        locs \<leftarrow> pkt_locs val;
        let s = rc_drop s a;
        (_, s) \<leftarrow> return_entry (s\<lparr>no_longer_blocked := no_longer_blocked s @ locs\<rparr>) val;
        unblock_all s as
      }
      else unblock_all (rc_drop s a) as)"

definition try_return_blocked_by :: "thread_log \<Rightarrow> order_index \<Rightarrow> thread_log option" where
  "try_return_blocked_by s loc =
     (case blockers s loc of
        None \<Rightarrow> Some s
      | Some blocked \<Rightarrow> unblock_all (s\<lparr>blockers := (blockers s)(loc := None)\<rparr>) blocked)"

fun unblock_locs :: "thread_log \<Rightarrow> order_index list \<Rightarrow> thread_log option" where
  "unblock_locs s [] = Some s"
| "unblock_locs s (loc # locs) =
     (if fst loc = 0 then unblock_locs s locs
      else do { s \<leftarrow> try_return_blocked_by s loc; unblock_locs s locs })"

text \<open>The loop over the stack of locations that no longer block. It need not end: two entries that two chains
  order differently can release each other for ever.\<close>

partial_function (option) unblock_rest :: "thread_log \<Rightarrow> thread_log option" where
  "unblock_rest s =
     (if no_longer_blocked s = [] then Some s
      else Option.bind (try_return_blocked_by (s\<lparr>no_longer_blocked := butlast (no_longer_blocked s)\<rparr>) (List.last (no_longer_blocked s)))
        unblock_rest)"

definition stop_blocking_on :: "thread_log \<Rightarrow> order_index list \<Rightarrow> thread_log option" where
  "stop_blocking_on s locs = do { s \<leftarrow> unblock_locs s locs; unblock_rest s }"

text \<open>An entry that a new horizon unblocked is returned, and what it blocked after it.\<close>

definition return_unblocked :: "thread_log \<Rightarrow> packet option \<Rightarrow> thread_log option" where
  "return_unblocked s unblocked =
     (case unblocked of
        None \<Rightarrow> Some s
      | Some val \<Rightarrow> do {
          (locs, s) \<leftarrow> return_entry s val;
          (case locs of Some locs \<Rightarrow> stop_blocking_on s locs | None \<Rightarrow> Some s)
        })"

definition fetch_blocker_at :: "thread_log \<Rightarrow> order \<Rightarrow> entry \<Rightarrow> thread_log option" where
  "fetch_blocker_at s chain index = do {
     (unblocked, to_fetch, s) \<leftarrow>
       (case get_pc s chain of
          None \<Rightarrow> Some (None, NFNone, s)
        | Some pc \<Rightarrow> do {
            (ub, pc) \<leftarrow> update_horizon pc index;
            tf \<leftarrow> next_range_to_fetch pc;
            Some (ub, tf, set_pc s chain pc)
          });
     s \<leftarrow> (case to_fetch of BelowHorizon low high \<Rightarrow> fetch_next s chain low high | _ \<Rightarrow> Some s);
     return_unblocked s unblocked
   }"

fun fetch_blockers :: "thread_log \<Rightarrow> order_index list \<Rightarrow> thread_log option" where
  "fetch_blockers s [] = Some s"
| "fetch_blockers s ((chain, index) # deps) = do { s \<leftarrow> fetch_blocker_at s chain index; fetch_blockers s deps }"

definition fetch_blockers_if_needed :: "thread_log \<Rightarrow> chain_entry \<Rightarrow> thread_log option" where
  "fetch_blockers_if_needed s a = do { deps \<leftarrow> dependencies (rc_val s a); fetch_blockers s deps }"

definition try_returning_at :: "thread_log \<Rightarrow> order_index \<Rightarrow> chain_entry \<Rightarrow> thread_log option" where
  "try_returning_at s loc a =
     (if rc_unique s a then do {
        (b, s) \<leftarrow> return_entry_at (rc_drop s a) loc (rc_val s a);
        if b then stop_blocking_on s [loc] else Some s
      }
      else do { s \<leftarrow> fetch_blockers_if_needed s a; Some (rc_drop s a) })"

definition try_returning :: "thread_log \<Rightarrow> chain_entry \<Rightarrow> thread_log option" where
  "try_returning s a =
     (if rc_unique s a then return_unblocked (rc_drop s a) (Some (rc_val s a))
      else do { s \<leftarrow> fetch_blockers_if_needed s a; Some (rc_drop s a) })"


section \<open>Blocking on dependencies\<close>

text \<open>The first loop of \<open>add_blockers\<close>: whether a location still has to be returned and whether one is next.\<close>

fun block_on_prior :: "thread_log \<Rightarrow> chain_entry \<Rightarrow> bool \<Rightarrow> bool \<Rightarrow> order_index list \<Rightarrow> (bool \<times> bool \<times> thread_log) option" where
  "block_on_prior s a needed try_ret [] = Some (needed, try_ret, s)"
| "block_on_prior s a needed try_ret (loc # locs) =
     (if fst loc = 0 then block_on_prior s a needed try_ret locs
      else do {
        (is_next, to_return) \<leftarrow>
          (case get_pc s (fst loc) of
             None \<Rightarrow> Some (True, False)
           | Some pc \<Rightarrow> do { n \<leftarrow> pc_next_return_is pc (snd loc); Some (n, \<not> has_returned pc (snd loc)) });
        if \<not> to_return then block_on_prior s a needed try_ret locs
        else do {
          s \<leftarrow> if \<not> is_next then enqueue_packet (rc_clone s a) loc a else Some s;
          block_on_prior s a True (try_ret \<or> is_next) locs
        }
      })"

fun block_on_deps :: "thread_log \<Rightarrow> chain_entry \<Rightarrow> order_index list \<Rightarrow> thread_log option" where
  "block_on_deps s a [] = Some s"
| "block_on_deps s a ((chain, index) # deps) =
     (if (case get_pc s chain of Some pc \<Rightarrow> has_returned pc index | None \<Rightarrow> True) then block_on_deps s a deps
      else do {
        s \<leftarrow> fetch_blocker_at (push_blocked (rc_clone s a) (chain, index) a) chain index;
        block_on_deps s a deps
      })"

definition add_blockers :: "thread_log \<Rightarrow> chain_entry \<Rightarrow> (bool \<times> thread_log) option" where
  "add_blockers s a = do {
     deps \<leftarrow> dependencies (rc_val s a);
     locs \<leftarrow> pkt_locs (rc_val s a);
     (needed, try_ret, s) \<leftarrow> block_on_prior s a False False locs;
     if \<not> needed then Some (False, s)
     else do { s \<leftarrow> block_on_deps s a deps; Some (try_ret, s) }
   }"

definition add_blockers_at :: "thread_log \<Rightarrow> order_index \<Rightarrow> chain_entry \<Rightarrow> (bool \<times> thread_log) option" where
  "add_blockers_at s loc a = do {
     deps \<leftarrow> dependencies (rc_val s a);
     pc \<leftarrow> get_pc s (fst loc);
     try_ret \<leftarrow> pc_next_return_is pc (snd loc);
     if has_returned pc (snd loc) then Some (False, s)
     else do {
       s \<leftarrow> if \<not> try_ret then enqueue_packet (rc_clone s a) loc a else Some s;
       s \<leftarrow> block_on_deps s a deps;
       Some (try_ret, s)
     }
   }"

fun wait_for_locs :: "thread_log \<Rightarrow> chain_entry \<Rightarrow> bool \<Rightarrow> order_index list \<Rightarrow> bool \<times> thread_log" where
  "wait_for_locs s a blocked [] = (blocked, s)"
| "wait_for_locs s a blocked (loc # locs) =
     (if (case get_pc s (fst loc) of Some pc \<Rightarrow> \<not> has_returned pc (snd loc) | None \<Rightarrow> False)
      then wait_for_locs (push_blocked (rc_clone s a) loc a) a True locs
      else wait_for_locs s a blocked locs)"

definition wait_for_deps :: "thread_log \<Rightarrow> chain_entry \<Rightarrow> (bool \<times> thread_log) option" where
  "wait_for_deps s a = do {
     locs \<leftarrow> pkt_locs (rc_val s a);
     let (blocked, s) = wait_for_locs s a False (drop 1 (dropWhile (\<lambda>(o', _). o' \<noteq> 0) locs));
     Some (\<not> blocked, s)
   }"

section \<open>Continuing to fetch\<close>

definition server_is_finished :: "thread_log \<Rightarrow> order \<Rightarrow> bool option" where
  "server_is_finished s chain = do {
     pc \<leftarrow> get_pc s chain;
     rust_assert (\<not> (\<not> has_outstanding_reads pc \<and> has_pending_reads_reqs pc));
     rust_assert (\<not> (is_searching_for_multi pc \<and> \<not> has_outstanding_reads pc));
     Some (is_finished pc)
   }"

definition continue_fetch_if_needed :: "thread_log \<Rightarrow> order \<Rightarrow> (bool \<times> thread_log) option" where
  "continue_fetch_if_needed s chain =
     (case get_pc s chain of
        None \<Rightarrow> Some (True, s)
      | Some pc \<Rightarrow> do {
          to_fetch \<leftarrow> next_range_to_fetch pc;
          (num_to_fetch, unblocked, s) \<leftarrow>
            (case to_fetch of
               BelowHorizon low high \<Rightarrow> Some (Some (low, high), None, s)
             | AboveHorizon low _ \<Rightarrow> do {
                 more_multi \<leftarrow> has_more_multi_search_than_outstanding_reads pc;
                 if more_multi then do {
                   (ub, pc) \<leftarrow> increment_horizon pc;
                   Some (Some (low, low), ub, set_pc s chain pc)
                 } else Some (None, None, s)
               }
             | NFNone \<Rightarrow> Some (None, None, s));
          s \<leftarrow> (case num_to_fetch of Some (low, high) \<Rightarrow> fetch_next s chain low high | None \<Rightarrow> Some s);
          s \<leftarrow> return_unblocked s unblocked;
          b \<leftarrow> server_is_finished s chain;
          Some (b, s)
        })"

text \<open>The handle of the log has no other holder exactly when no chain has a \<open>ReadState\<close>.\<close>

definition finshed_reading :: "thread_log \<Rightarrow> bool" where
  "finshed_reading s = list_all (\<lambda>(_, pc). \<not> has_read_state pc) (per_chains s)"

fun send_dones :: "thread_log \<Rightarrow> nat \<Rightarrow> thread_log" where
  "send_dones s 0 = s"
| "send_dones s (Suc n) = send_dones (send_read_or_finish s ReadDone) n"

definition continue_fetch :: "thread_log \<Rightarrow> order \<Rightarrow> thread_log option" where
  "continue_fetch s chain = do {
     (finished_server, s) \<leftarrow> continue_fetch_if_needed s chain;
     if finished_server then do {
       s \<leftarrow> (case get_pc s chain of
               None \<Rightarrow> Some s
             | Some pc \<Rightarrow> do {
                 rust_assert (is_finished pc);
                 pc \<leftarrow> set_finished_reading pc;
                 Some (set_pc s chain pc)
               });
       if finshed_reading s then Some (cache_flush (send_dones (s\<lparr>num_snapshots := 0\<rparr>) (num_snapshots s)))
       else Some s
     }
     else Some s
   }"

section \<open>Entries on several chains\<close>

fun add_no_remotes :: "thread_log \<Rightarrow> order \<Rightarrow> uuid \<Rightarrow> order_index list \<Rightarrow> thread_log option" where
  "add_no_remotes s read_chain i [] = Some s"
| "add_no_remotes s read_chain i ((o', _) # locs) =
     (if o' = read_chain then add_no_remotes s read_chain i locs
      else do {
        rust_assert (\<not> fetch_boring_multis s);
        add_no_remotes (case get_pc s o' of Some pc \<Rightarrow> set_pc s o' (add_no_remote pc i) | None \<Rightarrow> s) read_chain i locs
      })"

definition ensure_read :: "thread_log \<Rightarrow> order_index \<Rightarrow> chain_entry \<Rightarrow> thread_log option" where
  "ensure_read s read_loc a =
     (let e = rc_val s a in
      case get_pc s (fst read_loc) of
        None \<Rightarrow> Some s
      | Some pc \<Rightarrow>
          (let (first, pc) = got_no_remote pc (pkt_id e); s = set_pc s (fst read_loc) pc in
           if first then do { locs \<leftarrow> pkt_locs e; add_no_remotes s (fst read_loc) (pkt_id e) locs } else Some s))"

definition fetch_multi_parts :: "thread_log \<Rightarrow> uuid \<Rightarrow> order \<Rightarrow> entry \<Rightarrow> bool \<Rightarrow> (entry option \<times> thread_log) option" where
  "fetch_multi_parts s i chain index multi_server = do {
     rust_assert (get_pc s chain \<noteq> None \<or> fetch_boring_multis s);
     let (early_sentinel, pc) = take_early_sentinel (entry_pc s chain) i;
     (unblocked, early_sentinel, pc) \<leftarrow>
       (if index \<noteq> 0 then do {
          (unblocked, pc) \<leftarrow> update_horizon pc (case early_sentinel of Some loc \<Rightarrow> loc | None \<Rightarrow> index);
          pc \<leftarrow> if multi_server then mark_as_already_fetched pc index else Some pc;
          Some (unblocked, early_sentinel, pc)
        }
        else if early_sentinel \<noteq> None then Some (None, early_sentinel, pc)
        else do { pc \<leftarrow> increment_multi_search pc; Some (None, None, pc) });
     (_, s) \<leftarrow> continue_fetch_if_needed (set_pc s chain pc) chain;
     s \<leftarrow> return_unblocked s unblocked;
     Some (early_sentinel, s)
   }"

text \<open>The loop over the locations of the first part that is read of an entry on several chains: the new
  locations, whether all of them are known, and whether to wait for the sentinels.\<close>

fun first_part_loop ::
  "thread_log \<Rightarrow> uuid \<Rightarrow> bool \<Rightarrow> bool \<Rightarrow> bool \<Rightarrow> bool \<Rightarrow> bool \<Rightarrow> order_index list \<Rightarrow>
   (order_index list \<times> bool \<times> bool \<times> thread_log) option" where
  "first_part_loop s i multi_server fastpath finished is_sentinel wait [] = Some ([], finished, wait, s)"
| "first_part_loop s i multi_server fastpath finished is_sentinel wait ((o', ix) # locs) =
     (if o' = 0 then do {
        (ls, r) \<leftarrow> first_part_loop s i multi_server fastpath finished True wait locs;
        Some ((o', ix) # ls, r)
      }
      else if get_pc s o' = None \<and> \<not> fetch_boring_multis s then do {
        (ls, r) \<leftarrow> first_part_loop s i multi_server fastpath finished is_sentinel wait locs;
        Some ((o', ix) # ls, r)
      }
      else do {
        (early_sentinel, s) \<leftarrow> fetch_multi_parts s i o' ix multi_server;
        (case early_sentinel of
           Some loc \<Rightarrow> do {
             rust_assert (loc \<noteq> 0);
             (ls, r) \<leftarrow> first_part_loop s i multi_server fastpath finished is_sentinel wait locs;
             Some ((o', loc) # ls, r)
           }
         | None \<Rightarrow>
             if ix \<noteq> 0 then do {
               (w, s) \<leftarrow>
                 (if \<not> is_sentinel then Some (False, s)
                  else case get_pc s o' of
                    None \<Rightarrow> Some (False, s)
                  | Some pc \<Rightarrow>
                      if fastpath then do { w \<leftarrow> can_return pc ix; Some (w, s) }
                      else do { pc \<leftarrow> mark_as_skippable pc ix; Some (False, set_pc s o' pc) });
               (ls, r) \<leftarrow> first_part_loop s i multi_server fastpath finished is_sentinel (wait \<or> w) locs;
               Some ((o', ix) # ls, r)
             }
             else do {
               (ls, r) \<leftarrow> first_part_loop s i multi_server fastpath False is_sentinel wait locs;
               Some ((o', ix) # ls, r)
             })
      })"

fun later_part_loop ::
  "thread_log \<Rightarrow> bool \<Rightarrow> bool \<Rightarrow> (order_index \<times> order_index) list \<Rightarrow> (order_index list \<times> bool \<times> thread_log) option" where
  "later_part_loop s finished is_sentinel [] = Some ([], finished, s)"
| "later_part_loop s finished is_sentinel ((my_loc, new_loc) # locs) = do {
     rust_assert (fst my_loc = fst new_loc);
     if fst my_loc = 0 then do {
       (ls, r) \<leftarrow> later_part_loop s finished True locs;
       Some (my_loc # ls, r)
     }
     else do {
       (my_loc, s) \<leftarrow>
         (if snd my_loc = 0 \<and> snd new_loc \<noteq> 0 then do {
            pc \<leftarrow> decrement_multi_search (entry_pc s (fst new_loc));
            pc \<leftarrow> if \<not> is_sentinel then mark_as_already_fetched pc (snd new_loc) else mark_as_skippable pc (snd new_loc);
            Some (new_loc, set_pc s (fst new_loc) pc)
          }
          else if snd my_loc \<noteq> 0 \<and> snd new_loc \<noteq> 0 then do {
            rust_assert (my_loc = new_loc);
            (case (is_sentinel, get_pc s (fst new_loc)) of
               (True, Some pc) \<Rightarrow> do {
                 pc \<leftarrow> mark_as_skippable pc (snd new_loc);
                 Some (my_loc, set_pc s (fst new_loc) pc)
               }
             | _ \<Rightarrow> Some (my_loc, s))
          }
          else Some (my_loc, s));
       (ls, r) \<leftarrow> later_part_loop s (finished \<and> snd my_loc \<noteq> 0) is_sentinel locs;
       Some (my_loc # ls, r)
     }
   }"

definition update_multi_part_read :: "thread_log \<Rightarrow> order_index \<Rightarrow> packet \<Rightarrow> bool \<Rightarrow> (multi_search \<times> thread_log) option" where
  "update_multi_part_read s read_loc msg is_sentinel = do {
     flag \<leftarrow> pkt_flag msg;
     locs \<leftarrow> pkt_locs msg;
     let i = pkt_id msg;
     let is_multi_server = bits_contains flag fTakeLock;
     (case blocked_multiappends s i of
        None \<Rightarrow>
          if \<not> is_sentinel then do {
            pc \<leftarrow> get_pc s (fst read_loc);
            if \<not> is_within_snapshot pc (snd read_loc) then
              Some (if list_all (\<lambda>(o', ix). o' = 0 \<or> ix \<noteq> 0) locs then SearchFinished msg else BeyondHorizon msg, s)
            else if has_returned pc (snd read_loc) then Some (BeyondHorizon msg, s)
            else do {
              (locs, finished, wait, s) \<leftarrow>
                first_part_loop s i is_multi_server (\<not> is_multi_server) True False False locs;
              msg \<leftarrow> locs_mut msg locs;
              if finished then Some (if wait then WaitForDeps msg else SearchFinished msg, s)
              else Some (InProgress, s\<lparr>blocked_multiappends := (blocked_multiappends s)(i \<mapsto> msg)\<rparr>)
            }
          }
          else do {
            pc \<leftarrow> get_pc s (fst read_loc);
            pc \<leftarrow> add_early_sentinel pc i (snd read_loc);
            Some (EarlySentinel, set_pc s (fst read_loc) pc)
          }
      | Some val \<Rightarrow> do {
          pc \<leftarrow> get_pc s (fst read_loc);
          rust_assert (is_within_snapshot pc (snd read_loc));
          _ \<leftarrow> (if is_sentinel then Some () else do {
                  d \<leftarrow> pkt_data val;
                  d' \<leftarrow> pkt_data msg;
                  rust_assert (d = d')
                });
          my_locs \<leftarrow> pkt_locs val;
          (ls, finished, s) \<leftarrow> later_part_loop s True False (zip my_locs locs);
          val \<leftarrow> locs_mut val (ls @ drop (length ls) my_locs);
          if finished then Some (SearchFinished val, s\<lparr>blocked_multiappends := (blocked_multiappends s)(i := None)\<rparr>)
          else Some (InProgress, s\<lparr>blocked_multiappends := (blocked_multiappends s)(i \<mapsto> val)\<rparr>)
        })
   }"


section \<open>Messages from the store\<close>

definition completed_snapshot :: "thread_log \<Rightarrow> order_index \<Rightarrow> packet \<Rightarrow> thread_log option" where
  "completed_snapshot s read_loc msg = do {
     flag \<leftarrow> pkt_flag msg;
     rust_assert (bits_contains flag fReadSuccess);
     (unblocked, s) \<leftarrow>
       (case get_pc s (fst read_loc) of
          None \<Rightarrow> Some (None, s)
        | Some pc \<Rightarrow> do {
            (ub, pc) \<leftarrow> give_new_snapshot pc (snd read_loc);
            Some (ub, set_pc s (fst read_loc) pc)
          });
     s \<leftarrow> return_unblocked s unblocked;
     if return_snapshots s then do {
       let (sent, s) = send_read s (ReadOk msg);
       rust_assert sent;
       Some s
     } else Some s
   }"

definition completed_empty_read :: "thread_log \<Rightarrow> order_index \<Rightarrow> packet \<Rightarrow> thread_log option" where
  "completed_empty_read s read_loc msg = do {
     flag \<leftarrow> pkt_flag msg;
     locs \<leftarrow> pkt_locs msg;
     rust_assert (\<not> bits_contains flag fReadSuccess);
     rust_assert (locs \<noteq> [] \<and> hd locs = read_loc);
     if snd read_loc < u64_max then
       (case get_pc s (fst read_loc) of
          None \<Rightarrow> Some s
        | Some pc \<Rightarrow> do { pc \<leftarrow> overread_at pc (snd read_loc); Some (set_pc s (fst read_loc) pc) })
     else do {
       (unblocked, s) \<leftarrow>
         (case get_pc s (fst read_loc) of
            None \<Rightarrow> Some (None, s)
          | Some pc \<Rightarrow> do {
              rust_assert (snd (hd locs) = u64_max);
              (_, new_horizon) \<leftarrow> pkt_horizon msg;
              let needs_fetch = new_horizon - current_snap pc;
              (ub, pc) \<leftarrow> give_new_snapshot pc new_horizon;
              Some (ub, set_pc (s\<lparr>log_prefetch := (needs_fetch div 3 + (2 * log_prefetch s) div 3) mod 2 ^ 32\<rparr>) (fst read_loc) pc)
            });
       s \<leftarrow> return_unblocked s unblocked;
       if return_snapshots s then do {
         let (sent, s) = send_read s (ReadOk msg);
         rust_assert sent;
         Some s
       } else Some s
     }
   }"

text \<open>\<open>per_chains.get_mut(..).map(|s| s.got_read(..)).unwrap_or(false)\<close>\<close>

definition read_needed :: "thread_log \<Rightarrow> order_index \<Rightarrow> (bool \<times> thread_log) option" where
  "read_needed s read_loc =
     (case get_pc s (fst read_loc) of
        None \<Rightarrow> Some (False, s)
      | Some pc \<Rightarrow> do { (b, pc) \<leftarrow> got_read pc (snd read_loc); Some (b, set_pc s (fst read_loc) pc) })"

definition completed_single :: "thread_log \<Rightarrow> order_index \<Rightarrow> packet \<Rightarrow> thread_log option" where
  "completed_single s read_loc msg = do {
     flag \<leftarrow> pkt_flag msg;
     rust_assert (bits_contains flag fReadSuccess);
     (needed, s) \<leftarrow> read_needed s read_loc;
     if needed then do {
       let (a, s) = rc_new s msg;
       (try_ret, s) \<leftarrow> add_blockers_at s read_loc a;
       if try_ret then try_returning_at s read_loc a else Some (rc_drop s a)
     } else Some s
   }"

definition completed_no_remote :: "thread_log \<Rightarrow> order_index \<Rightarrow> packet \<Rightarrow> thread_log option" where
  "completed_no_remote s read_loc msg = do {
     (needed, s) \<leftarrow> (if snd read_loc = 0 then Some (False, s) else read_needed s read_loc);
     if needed then do {
       let (a, s) = rc_new s msg;
       s \<leftarrow> (if remote_style s = EnsureRead then ensure_read s read_loc a else Some s);
       (_, s) \<leftarrow> add_blockers_at s read_loc a;
       try_returning_at s read_loc a
     } else Some s
   }"

definition completed_multi :: "thread_log \<Rightarrow> order_index \<Rightarrow> packet \<Rightarrow> bool \<Rightarrow> thread_log option" where
  "completed_multi s read_loc msg is_sentinel = do {
     flag \<leftarrow> pkt_flag msg;
     rust_assert (bits_contains flag fReadSuccess);
     (needed, s) \<leftarrow> read_needed s read_loc;
     if \<not> needed then Some s
     else do {
       (search_status, s) \<leftarrow> update_multi_part_read s read_loc msg is_sentinel;
       (case search_status of
          InProgress \<Rightarrow> Some s
        | EarlySentinel \<Rightarrow> Some s
        | BeyondHorizon _ \<Rightarrow> do {
            pc \<leftarrow> overread_at (entry_pc s (fst read_loc)) (snd read_loc);
            Some (set_pc s (fst read_loc) pc)
          }
        | WaitForDeps msg \<Rightarrow> do {
            let (a, s) = rc_new s msg;
            (r1, s) \<leftarrow> wait_for_deps s a;
            (r2, s) \<leftarrow> add_blockers s a;
            if r1 \<and> r2 then try_returning s a else Some (rc_drop s a)
          }
        | SearchFinished msg \<Rightarrow> do {
            let (a, s) = rc_new s msg;
            (try_ret, s) \<leftarrow> add_blockers s a;
            if try_ret then try_returning s a else Some (rc_drop s a)
          })
     }
   }"

definition handle_completed_read :: "thread_log \<Rightarrow> order_index \<Rightarrow> packet \<Rightarrow> thread_log option" where
  "handle_completed_read s read_loc msg = do {
     flag \<leftarrow> pkt_flag msg;
     layout \<leftarrow> pkt_layout msg;
     s \<leftarrow> (case layout of
             LSnapshot \<Rightarrow> completed_snapshot s read_loc msg
           | LRead \<Rightarrow> completed_empty_read s read_loc msg
           | LData \<Rightarrow> completed_single s read_loc msg
           | LMultiput \<Rightarrow>
               if remote_style s \<noteq> Atomic \<and> bits_contains flag fNoRemote then completed_no_remote s read_loc msg
               else completed_multi s read_loc msg False
           | LSentinel \<Rightarrow> completed_multi s read_loc msg True
           | LLock \<Rightarrow> None
           | LGC \<Rightarrow> None);
     continue_fetch s (fst read_loc)
   }"

definition make_error :: "thread_log \<Rightarrow> io_error_kind \<Rightarrow> nat \<Rightarrow> (log_error \<times> thread_log) option" where
  "make_error s error server = do {
     n \<leftarrow> u64_add (num_errors s) 1;
     Some (\<lparr>error_num = num_errors s, error_server = server, error_kind = error\<rparr>, s\<lparr>num_errors := n\<rparr>)
   }"

fun handle_from_store :: "thread_log \<Rightarrow> from_store \<Rightarrow> thread_log option" where
  "handle_from_store s (WriteComplete i locs) =
     (let s = (if my_colors_chains s \<noteq> [] then see_all s locs else s) in
      if ack_writes s then
        (case send_write s (WriteOk i locs) of (True, s) \<Rightarrow> Some s | (False, s) \<Rightarrow> Some (s\<lparr>log_finished := True\<rparr>))
      else Some s)"
| "handle_from_store s (ReadComplete loc msg) = handle_completed_read s loc msg"
| "handle_from_store s (IoError kind server) = do {
     (err, s) \<leftarrow> make_error s kind server;
     let (e1, s) = (if ack_writes s then send_write s (WriteErr err) else (True, s));
     let (e2, s) = send_read s (ReadErr err);
     Some (if \<not> e1 \<or> \<not> e2 then s\<lparr>log_finished := True\<rparr> else s)
   }"

section \<open>Messages from the application\<close>

fun snapshot_chains :: "thread_log \<Rightarrow> order list \<Rightarrow> thread_log option" where
  "snapshot_chains s [] = Some s"
| "snapshot_chains s (c # cs) = do { s \<leftarrow> fetch_snapshot s c; s \<leftarrow> prefetch s c; snapshot_chains s cs }"

fun prefetch_chains :: "thread_log \<Rightarrow> order list \<Rightarrow> thread_log option" where
  "prefetch_chains s [] = Some s"
| "prefetch_chains s (c # cs) = do { s \<leftarrow> prefetch s c; prefetch_chains s cs }"

definition usize_saturating_add :: "nat \<Rightarrow> nat \<Rightarrow> nat" where
  "usize_saturating_add a b = min u64_max (a + b)"

text \<open>\<open>slice::binary_search\<close> of the standard library, whose answer only means membership on a sorted slice.\<close>

function binary_search_base :: "order_index list \<Rightarrow> order_index \<Rightarrow> nat \<Rightarrow> nat \<Rightarrow> nat" where
  "binary_search_base xs x base size' =
     (if size' \<le> 1 then base
      else let half = size' div 2; mid = base + half in
        binary_search_base xs x (if cmp_u64 (xs ! mid) x = Greater then base else mid) (size' - half))"
  by pat_completeness auto

termination binary_search_base
  by (relation "measure (\<lambda>(_, _, _, n). n)") auto

definition binary_search_is_err :: "order_index list \<Rightarrow> order_index \<Rightarrow> bool" where
  "binary_search_is_err xs x \<longleftrightarrow> xs = [] \<or> xs ! binary_search_base xs x 0 (length xs) \<noteq> x"

definition perform_append :: "thread_log \<Rightarrow> packet \<Rightarrow> thread_log option" where
  "perform_append s msg =
     (if my_colors_chains s \<noteq> [] then do {
        locs \<leftarrow> pkt_locs msg;
        let deps = sort_key fst (filter (\<lambda>(o', _). binary_search_is_err locs (o', 0)) (last_seen_entries s));
        msg \<leftarrow> with_deps msg deps;
        send_store (s\<lparr>last_seen_entries := []\<rparr>) msg
      }
      else do {
        layout \<leftarrow> pkt_layout msg;
        rust_assert (layout = LData \<or> layout = LMultiput);
        send_store s msg
      })"

definition count_snapshot :: "thread_log \<Rightarrow> thread_log" where
  "count_snapshot s = s\<lparr>num_snapshots := usize_saturating_add (num_snapshots s) 1\<rparr>"

text \<open>\<open>new_v4\<close> is the identifier drawn for a strong snapshot. The boolean is whether the thread goes on.\<close>

fun handle_from_client :: "thread_log \<Rightarrow> uuid \<Rightarrow> from_client \<Rightarrow> (bool \<times> thread_log) option" where
  "handle_from_client s new_v4 (SnapshotAndPrefetch chain) = do {
     let s = count_snapshot s;
     s \<leftarrow> snapshot_chains s (if chain \<noteq> 0 then [chain] else map fst (filter (\<lambda>(_, pc). is_interesting pc) (per_chains s)));
     Some (True, s)
   }"
| "handle_from_client s new_v4 (MultiSnapshotAndPrefetch cs) = do {
     s \<leftarrow> snapshot_chains (count_snapshot s) cs;
     Some (True, s)
   }"
| "handle_from_client s new_v4 (StrongSnapshotAndPrefetch locs) = do {
     s \<leftarrow> fetch_strong_snapshot (count_snapshot s) new_v4 locs;
     s \<leftarrow> prefetch_chains s (map fst locs);
     Some (True, s)
   }"
| "handle_from_client s new_v4 (PerformAppend msg) = do { s \<leftarrow> perform_append s msg; Some (True, s) }"
| "handle_from_client s new_v4 (ReturnBuffer buffer) = Some (True, cache_buffer s)"
| "handle_from_client s new_v4 (ReadUntil loc) = do {
     let s = count_snapshot s;
     pc \<leftarrow> increment_outstanding_snapshots (entry_pc s (fst loc));
     (unblocked, pc) \<leftarrow> give_new_snapshot pc (snd loc);
     s \<leftarrow> return_unblocked (set_pc s (fst loc) pc) unblocked;
     s \<leftarrow> continue_fetch s (fst loc);
     Some (True, s)
   }"
| "handle_from_client s new_v4 (Fastforward loc) = do {
     (_, pc) \<leftarrow> give_new_snapshot (entry_pc s (fst loc)) (snd loc);
     Some (True, set_pc s (fst loc) pc)
   }"
| "handle_from_client s new_v4 (Rewind loc) = do {
     pc \<leftarrow> rewind_to (entry_pc s (fst loc)) (snd loc);
     Some (True, set_pc s (fst loc) pc)
   }"
| "handle_from_client s new_v4 StopAckingWrites = Some (True, s\<lparr>ack_writes := False\<rparr>)"
| "handle_from_client s new_v4 Shutdown = Some (False, s\<lparr>log_finished := True\<rparr>)"

fun handle_message :: "thread_log \<Rightarrow> uuid \<Rightarrow> message \<Rightarrow> (bool \<times> thread_log) option" where
  "handle_message s new_v4 (FromClient msg) = handle_from_client s new_v4 msg"
| "handle_message s new_v4 (FromStore msg) = do { s \<leftarrow> handle_from_store s msg; Some (True, s) }"

text \<open>The thread's loop over the messages it receives, with the identifiers it draws; time-outs do nothing.\<close>

fun log_run :: "thread_log \<Rightarrow> (uuid \<times> message) list \<Rightarrow> thread_log option" where
  "log_run s [] = Some s"
| "log_run s ((i, msg) # msgs) =
     (if log_finished s then Some s
      else do { (b, s) \<leftarrow> handle_message s i msg; if b then log_run s msgs else Some s })"

end
