(* ===== verification/Client_Ranges_Inv.thy ===== *)
theory Client_Ranges_Inv
  imports Client_Ranges
begin

text \<open>
  What an operation of the client's range tree that returns has done, whatever it was called with: the good
  shape of the tree is kept and no returned entry is forgotten, unless the tree is rewound.
\<close>

definition tree_step :: "range_tree \<Rightarrow> range_tree \<Rightarrow> bool" where
  "tree_step t t' \<longleftrightarrow> range_ok t' \<and> (\<forall>i. is_returned t i \<longrightarrow> is_returned t' i)"

lemma tree_step_refl: "range_ok t \<Longrightarrow> tree_step t t"
  by (simp add: tree_step_def)

lemma fold_valid:
  "foldl invariant_step (prev, Some pk, v, out, buf) m = (p', k', True, out', buf') \<Longrightarrow> v \<and> alternates (((a, prev), pk) # m)"
proof (induction m arbitrary: prev pk v out buf a)
  case (Cons x m)
  obtain f l k where x: "x = ((f, l), k)" by (metis prod.exhaust)
  have "(v \<and> f = prev + 1 \<and> k \<noteq> pk) \<and> alternates (((f, l), k) # m)"
    by (rule Cons.IH) (use Cons.prems in \<open>simp add: x\<close>)
  then show ?case by (auto simp: x alternates_def)
qed (simp add: alternates_def)

lemma tree_invariant_alternates: "tree_invariant t \<Longrightarrow> alternates (inner t)"
proof (cases "inner t")
  case (Cons x m)
  assume "tree_invariant t"
  then obtain p' k' out' buf' where "foldl invariant_step (snd (fst x), Some (snd x), fst (fst x) = 0 \<and> snd x = KReturned, 0, 0) m = (p', k', True, out', buf')"
    by (cases x) (auto simp: tree_invariant_def Cons split: prod.splits)
  from conjunct2 [OF fold_valid [OF this, of "fst (fst x)"]] show ?thesis by (simp add: Cons)
qed (simp add: alternates_def)

lemma range_known:
  assumes "range_ok t" "map_get (inner t) (range_point p) = Some rk"
  shows "p \<le> u64_max"
proof (rule ccontr)
  assume p: "\<not> p \<le> u64_max"
  have "covers a m (Suc u64_max) \<Longrightarrow> map_get m (range_point p) = None" for a m
  proof (induction m arbitrary: a)
    case (Cons x m)
    then show ?case using p by (cases x) (fastforce simp: range_cmp_if range_point_def dest: covers_le)
  qed simp
  then have "map_get (inner t) (range_point p) = None" using assms(1) unfolding range_ok_def by blast
  then show False using assms(2) by simp
qed

lemma alternates_ends:
  assumes "alternates (xs @ (r, k) # ys)"
  shows "xs \<noteq> [] \<Longrightarrow> snd (List.last xs) \<noteq> k" "ys \<noteq> [] \<Longrightarrow> snd (hd ys) \<noteq> k"
  using assms by (cases ys; auto simp: alternates_def successively_append_iff)+

text \<open>Setting an unknown entry to unknown again: only a range of one entry survives the check of the tree.\<close>

lemma set_none_again:
  assumes ok: "range_ok t" "p \<le> u64_max" "status t p = KNone" and r: "set_point_as t p KNone = Some (b, t')" "tree_invariant t'"
  shows "t' = t"
proof -
  obtain xs f l k ys where s: "inner t = xs @ ((f, l), k) # ys" "f \<le> p" "p \<le> l" "covers 0 xs f" "covers (Suc l) ys (Suc u64_max)"
    "status t p = k" "remove_from_map (inner t) (range_point p) = Some (((f, l), k), xs @ ys)" "map_insert (xs @ ys) (f, l) k = inner t"
    using ok(1,2) by (rule range_okE)
  have k: "k = KNone" using ok(3) s(6) by simp
  have b: "below xs f" "below xs p" "below xs (Suc p)" using covers_below [OF s(4)] s(2) by (auto intro: below_mono)
  have a: "beyond p ys" "beyond l ys" using covers_beyond [OF s(5)] s(3) by auto
  have alt: "alternates (inner t)" "shape (inner t)" using ok(1) by (simp_all add: range_ok_def)
  obtain x0 xs' where xs: "xs = x0 # xs'" using alt(2) s(1) k by (cases xs) (auto simp: shape_def)
  have ends: "snd (List.last xs) \<noteq> KNone" "ys \<noteq> [] \<Longrightarrow> snd (hd ys) \<noteq> KNone"
    using alternates_ends [OF alt(1) [unfolded s(1)]] k xs by auto
  have f0: "0 < f" using s(4) xs covers_le by (cases x0) fastforce
  obtain m' where m': "put_around (xs @ ys) (split_at (f, l) p) KNone (range_point p) KNone = Some m'" "inner t' = m'"
    "num_outstanding t' = num_outstanding t" "num_buffered t' = num_buffered t"
    using r(1) s(6,7) ok(3) by (auto simp: set_point_as_def rust_simps)
  have alt': "alternates m'" using tree_invariant_alternates [OF r(2)] m'(2) by simp
  have one: "f = p \<and> p = l"
  proof (rule ccontr)
    assume "\<not> (f = p \<and> p = l)"
    then consider "f < p" "p < l" | "f < p" "p = l" | "f = p" "p < l" using s(2,3) by linarith
    then show False
    proof cases
      case 1
      have "f \<le> p - 1 \<and> p - 1 < Suc p" using 1 by linarith
      then have "m' = xs @ ((f, p - 1), KNone) # ((p, p), KNone) # ((Suc p, l), KNone) # ys"
        using m'(1) 1 split_at_parts [OF s(2,3)] map_insert_at [OF b(2) order_refl a(1)]
          map_insert_at [of xs f "p - 1" "((p, p), KNone) # ys"] map_insert_at [of "xs @ [((f, p - 1), KNone), ((p, p), KNone)]" "Suc p" l ys] a b
          beyond_mono [OF a(1), of "p - 1"]
        by (simp add: put_around_def range_point_def)
      then show False using alt' by (auto simp: alternates_def successively_append_iff)
    next
      case 2
      have i: "map_insert (xs @ ys) (f, p - 1) KNone = (xs @ [((f, p - 1), KNone)]) @ ys"
        using map_insert_at [OF b(1) _ beyond_mono [OF a(1)], of "p - 1"] 2 by simp
      have nk: "join_next ((p, p), KNone) ys = (((p, p), KNone), ys)"
        using ends(2) by (cases ys) (auto simp: join_next_def merge_kind_def)
      have "m' = (xs @ [((f, p - 1), KNone)]) @ ((p, p), KNone) # ys"
        using m'(1) 2 split_at_parts [OF s(2,3)] i try_merge_with_next_eq [of "xs @ [((f, p - 1), KNone)]" p p ys KNone] nk s(5) b a
          map_insert_at [of "xs @ [((f, p - 1), KNone)]" p p ys KNone]
        by (simp add: put_around_def range_point_def)
      then show False using alt' by (auto simp: alternates_def successively_append_iff)
    next
      case 3
      have nk: "merge_kind KNone (snd (List.last xs)) = None"
        using ends(1) by (auto simp: merge_kind_def)
      have i: "map_insert (xs @ ys) (Suc p, l) KNone = xs @ ((Suc p, l), KNone) # ys" using map_insert_at b a 3 by simp
      have "(do { (r, k, m) \<leftarrow> try_merge_with_prior (xs @ ((Suc p, l), KNone) # ys) (p, p) KNone; Some (map_insert m r k) }) =
          Some (join_prior xs ((p, p), KNone) @ ((Suc p, l), KNone) # ys)"
        by (rule try_merge_with_prior_eq [of 0]) (use s(4) f0 a 3 in auto)
      then have "m' = xs @ ((p, p), KNone) # ((Suc p, l), KNone) # ys"
        using m'(1) 3 split_at_parts [OF s(2,3)] i nk xs by (simp add: put_around_def range_point_def join_prior_def)
      then show False using alt' by (auto simp: alternates_def successively_append_iff)
    qed
  qed
  have "m' = join xs ((p, p), KNone) ys"
    using m'(1) put_around_join [OF s(4) f0 s(2) order_refl s(3,5), of KNone KNone] one split_at_parts [OF s(2,3)]
    by (simp add: range_point_def before_def after_def)
  moreover have "merge_kind KNone (snd (List.last xs)) = None" "join_next ((p, p), KNone) ys = (((p, p), KNone), ys)"
    using ends by (cases ys; auto simp: merge_kind_def join_next_def)+
  ultimately have "m' = inner t" using s(1) k one xs by (simp add: join_def join_prior_def)
  then show ?thesis using m'(2-) by (cases t; cases t') simp
qed


lemma absorb_keeps:
  assumes "range_ok t" "is_returned t i" "\<not> is_returned t p"
  shows "absorb ((status t)(p := n)) i = KReturned"
proof -
  obtain r where r: "\<And>p. status t p = KReturned \<longleftrightarrow> p \<le> r" using returned_prefix [OF assms(1)] by metis
  show ?thesis using assms(2,3) r by (intro absorb_all) (auto simp: is_returned_iff)
qed

lemma set_point_step:
  assumes ok: "range_ok t" and r: "set_point_as t p n = Some (b, t')" "tree_invariant t'" and n: "n \<noteq> KSent"
    and ret: "n = KReturned \<Longrightarrow> next_return_is t p = Some True"
  shows "tree_step t t'"
proof -
  have p: "p \<le> u64_max" using r(1) range_known [OF ok, of p] by (auto simp: set_point_as_def remove_from_map_def rust_simps)
  show ?thesis
  proof (cases "is_prior (status t p) n")
    case False
    then show ?thesis using set_point_as_kept [OF ok p] r(1) tree_step_refl [OF ok] by simp
  next
    case pr: True
    show ?thesis
    proof (cases "n = status t p")
      case True
      then have "n = KNone" using pr n by (cases n) auto
      then show ?thesis using set_none_again [OF ok p, of b t'] True r tree_step_refl [OF ok] by simp
    next
      case False
      obtain t1 where t1: "set_point_as t p n = Some (True, t1)" "range_ok t1" "status t1 = absorb ((status t)(p := n))"
        using set_point_as_spec [OF ok p pr False ret] .
      have "\<not> is_returned t p" using pr by (auto simp: is_returned_iff)
      then show ?thesis using t1 r(1) absorb_keeps [OF ok, of _ p n] by (auto simp: tree_step_def is_returned_iff)
    qed
  qed
qed

lemma set_point_as_none_step: "range_ok t \<Longrightarrow> set_point_as_none t p = Some t' \<Longrightarrow> tree_step t t'"
  by (auto simp: set_point_as_none_def rust_simps intro: set_point_step)

lemma set_point_as_skip_step: "range_ok t \<Longrightarrow> set_point_as_skip t p = Some t' \<Longrightarrow> tree_step t t'"
  by (auto simp: set_point_as_skip_def rust_simps intro: set_point_step)

lemma set_point_as_recvd_step: "range_ok t \<Longrightarrow> set_point_as_recvd t p = Some (b, t') \<Longrightarrow> tree_step t t'"
  by (auto simp: set_point_as_recvd_def rust_simps intro: set_point_step)

lemma set_point_as_returned_step:
  assumes "range_ok t" "set_point_as_returned t p = Some t'" "next_return_is t p = Some True"
  shows "tree_step t t' \<and> is_returned t' p \<and> (\<forall>i. is_returned t i \<longrightarrow> i < p)"
proof -
  have s: "set_point_as t p KReturned = Some (True, t')" "tree_invariant t'"
    using assms(2) by (auto simp: set_point_as_returned_def rust_simps)
  have p: "p \<le> u64_max" using s(1) range_known [OF assms(1), of p] by (auto simp: set_point_as_def remove_from_map_def rust_simps)
  obtain r where r: "\<And>p. status t p = KReturned \<longleftrightarrow> p \<le> r" using returned_prefix [OF assms(1)] by metis
  have nx: "0 < p" "status t p \<noteq> KReturned" "status t (p - 1) = KReturned" using assms(3) by (simp_all add: next_return_is_iff)
  have n: "\<not> p \<le> r" "p - 1 \<le> r" using nx r [of p] r [of "p - 1"] by simp_all
  have pr: "is_prior (status t p) KReturned"
    using set_point_as_kept [OF assms(1) p, of KReturned] s(1) by auto
  obtain t1 where t1: "set_point_as t p KReturned = Some (True, t1)" "range_ok t1" "status t1 = absorb ((status t)(p := KReturned))"
    using set_point_as_spec [OF assms(1) p pr nx(2) [symmetric] assms(3)] .
  have "absorb ((status t)(p := KReturned)) p = KReturned"
  proof (rule absorb_all)
    fix y
    assume "y \<le> p"
    then show "((status t)(p := KReturned)) y = KReturned \<or> ((status t)(p := KReturned)) y = KSkip"
      using r [of y] n(2) by (cases "y = p") (simp_all, linarith)
  qed
  then have "is_returned t' p" using t1 s(1) by (simp add: is_returned_iff)
  moreover have "tree_step t t'" using set_point_step [OF assms(1) s] assms(3) by simp
  moreover have "\<forall>i. is_returned t i \<longrightarrow> i < p" using r n(1) unfolding is_returned_iff by (meson le_trans not_le)
  ultimately show ?thesis by simp
qed

lemma set_range_as_sent_step:
  assumes ok: "range_ok t" and r: "set_range_as_sent t low high = Some t'"
  shows "tree_step t t'"
proof -
  have lh: "low \<le> high" using r by (auto simp: set_range_as_sent_def range_new_def rust_simps)
  have l: "low \<le> u64_max" using r range_known [OF ok, of low] by (auto simp: set_range_as_sent_def remove_from_map_def rust_simps)
  obtain xs f g k ys where s: "inner t = xs @ ((f, g), k) # ys" "f \<le> low" "low \<le> g" "covers 0 xs f" "covers (Suc g) ys (Suc u64_max)"
    "remove_from_map (inner t) (range_point low) = Some (((f, g), k), xs @ ys)" "g \<le> u64_max" using ok l by (rule range_okE)
  have a: "k = KNone" "high \<le> g"
    using r s(6) lh by (auto simp: set_range_as_sent_def range_new_def spans_def rust_simps)
  have none: "status t x = KNone" if "low \<le> x" "x \<le> high" for x
    using kind_at_mid [OF s(4) _ s(5), of k x] s(1-3) a that by auto
  obtain t1 where "set_range_as_sent t low high = Some t1" "range_ok t1" "status t1 = (\<lambda>x. if low \<le> x \<and> x \<le> high then KSent else status t x)"
    using set_range_as_sent_spec [OF ok lh _ none] a(2) s(7) by (metis le_trans)
  then show ?thesis using r none by (auto simp: tree_step_def is_returned_iff)
qed

lemma range_tree_new_ok: "range_ok range_tree_new"
proof -
  have "(0 :: nat) < u64_max" by (simp add: u64_max_def)
  then show ?thesis by (simp add: range_ok_def range_tree_new_def range_cmp_if alternates_def shape_def)
qed

lemma no_returned: "list_all (\<lambda>x. snd x \<noteq> KReturned) m \<Longrightarrow> kind_at m x \<noteq> KReturned"
  by (induction m) (auto simp: kind_at_def split: option.splits ordering.splits)

lemma remove_above_all: "covers (Suc l) ys (Suc u64_max) \<Longrightarrow> below xs (Suc l) \<Longrightarrow> remove_above (xs @ ys) l = Some xs"
proof (induction ys arbitrary: l)
  case (Cons y ys)
  obtain g k where y: "y = ((Suc l, g), k)" "Suc l \<le> g" using Cons.prems(1) by (cases y) auto
  have "l < u64_max" using Cons.prems(1) y covers_le by fastforce
  then show ?case
    using Cons.IH [of g] Cons.prems y map_get_at [OF Cons.prems(2) order_refl y(2), of k ys] map_remove_at [OF Cons.prems(2) order_refl y(2), of k ys]
      below_mono [OF Cons.prems(2), of "Suc g"] remove_above.simps [of "xs @ y # ys" l] by simp
qed (simp add: remove_above.simps)

lemma cnt_zero: "covers a m e \<Longrightarrow> (\<And>x. a \<le> x \<Longrightarrow> x < e \<Longrightarrow> kind_at m x \<noteq> K) \<Longrightarrow> cnt K m = 0"
proof (induction a m e rule: covers.induct)
  case (2 a f l k m e)
  note c = "2.prems"(1)
  have e: "Suc l \<le> e" using c covers_le by auto
  have "k \<noteq> K" using "2.prems"(2) [of f] kind_at_Cons [OF c, of f] c e by auto
  moreover have "kind_at m x \<noteq> K" if "Suc l \<le> x" "x < e" for x using "2.prems"(2) [of x] kind_at_Cons [OF c, of x] c that by auto
  ultimately show ?case using "2.IH" c by simp
qed simp

lemma set_above_as_none_spec:
  assumes ok: "range_ok t" and low: "0 < low" "low \<le> u64_max" "status t (low - 1) = KReturned"
    and idle: "\<And>x. low \<le> x \<Longrightarrow> status t x \<noteq> KSent \<and> status t x \<noteq> KGotten"
  shows "\<exists>t'. set_above_as_none t low = Some t' \<and> range_ok t' \<and> status t' = (\<lambda>x. if low \<le> x then KNone else status t x)"
proof -
  obtain r rest where m: "inner t = ((0, r), KReturned) # rest" "covers (Suc r) rest (Suc u64_max)"
    using ok by (auto simp: range_ok_def shape_def split: list.splits)
  have st: "status t x = (if x \<le> r then KReturned else kind_at rest x)" for x
    using kind_at_Cons [of 0 0 r KReturned rest "Suc u64_max" x] m by simp
  have "kind_at rest (low - 1) \<noteq> KReturned" using no_returned m(1) ok by (simp add: range_ok_def shape_def)
  then have lr: "low - 1 \<le> r" using low(3) st [of "low - 1"] by (simp split: if_splits)
  let ?m = "[((0, low - 1), KReturned), ((low, u64_max), KNone)]"
  have ns: "status t x \<noteq> KSent \<and> status t x \<noteq> KGotten" for x
  proof (cases "low \<le> x")
    case False
    then have "x \<le> r" using lr by simp
    then show ?thesis using st [of x] by simp
  qed (rule idle)
  have none: "cnt KSent (inner t) = 0" "cnt KGotten (inner t) = 0"
    by (rule cnt_zero [of 0 _ "Suc u64_max"], use ok ns in \<open>simp_all add: range_ok_def\<close>)+
  let ?t = "t\<lparr>inner := ?m\<rparr>"
  have ok': "range_ok ?t" using ok none low by (auto simp: range_ok_def alternates_def shape_def)
  have s: "kind_at ?m x = (if low \<le> x then KNone else status t x)" for x
    using st lr low by (auto simp: kind_at_def range_cmp_if range_point_def)
  have "set_above_as_none t low = Some ?t"
  proof (cases "low \<le> r")
    case True
    have "remove_from_map (inner t) (range_point low) = Some (((0, r), KReturned), rest)"
      using True m(1) by (simp add: remove_from_map_def range_cmp_if range_point_def)
    then show ?thesis
      using True low range_ok_tree_invariant [OF ok] range_ok_tree_invariant [OF ok'] remove_above_all [OF m(2), of "[]"] split_at_parts [of 0 low r]
      by (simp add: set_above_as_none_def range_new_def range_cmp_if)
  next
    case False
    then have lr': "low = Suc r" using lr by simp
    then obtain y rest' where y: "rest = y # rest'" using m(2) low(2) by (cases rest) auto
    obtain g k where g: "y = ((low, g), k)" "low \<le> g" using m(2) y lr' by (cases y) auto
    have c: "covers (Suc g) rest' (Suc u64_max)" using m(2) y g by simp
    have "remove_from_map (inner t) (range_point low) = Some (((low, g), k), [((0, r), KReturned)] @ rest')"
      using lr' g y m(1) by (simp add: remove_from_map_def range_cmp_if range_point_def)
    then show ?thesis
      using lr' g low range_ok_tree_invariant [OF ok] range_ok_tree_invariant [OF ok'] remove_above_all [OF c, of "[((0, r), KReturned)]"] split_at_parts [of low low g]
      by (simp add: set_above_as_none_def range_new_def range_cmp_if)
  qed
  then show ?thesis using ok' s by auto
qed


section \<open>Properties\<close>

text \<open>C24: on a good tree, setting an entry to another kind succeeds if its present kind comes before that one: the
  kind of that entry changes and no other, except that returned entries absorb the entries to skip that follow
  them, and the counters and the shape of the tree stay right. If the present kind does not come before, the
  change is refused and the tree stays as it is. An entry is set to returned only right after the returned ones.\<close>

theorem set_point_as_refines:
  assumes "range_ok t" "p \<le> u64_max" and other: "is_prior (status t p) n \<longrightarrow> n \<noteq> status t p"
    and ret: "is_prior (status t p) n \<and> n = KReturned \<longrightarrow> next_return_is t p = Some True"
  shows "if is_prior (status t p) n
    then \<exists>t'. set_point_as t p n = Some (True, t') \<and> range_ok t' \<and> tree_invariant t' \<and> status t' = absorb ((status t)(p := n))
    else set_point_as t p n = Some (False, t)"
proof (cases "is_prior (status t p) n")
  case True
  then obtain t' where "set_point_as t p n = Some (True, t')" "range_ok t'" "status t' = absorb ((status t)(p := n))"
    using set_point_as_spec [OF assms(1,2) True] other ret by blast
  then show ?thesis using True range_ok_tree_invariant by auto
next
  case False
  then show ?thesis using set_point_as_kept [OF assms(1,2)] by simp
qed

lemma new_status: "1 \<le> x \<Longrightarrow> status range_tree_new x = KNone"
  by (auto simp: range_tree_new_def kind_at_def range_cmp_if range_point_def)

theorem set_point_as_refines_witness:
  "\<exists>t'. set_point_as range_tree_new 7 KGotten = Some (True, t') \<and> range_ok t' \<and> status t' 7 = KGotten \<and> status t' 8 = KNone \<and>
    set_point_as t' 7 KSent = Some (False, t')"
proof -
  have s: "status range_tree_new 7 = KNone" "status range_tree_new 8 = KNone" by (simp_all add: new_status)
  obtain t' where t': "set_point_as range_tree_new 7 KGotten = Some (True, t')" "range_ok t'" "status t' = absorb ((status range_tree_new)(7 := KGotten))"
    using set_point_as_refines [OF range_tree_new_ok, of 7 KGotten] s by (auto simp: u64_max_def)
  have "status t' 7 = KGotten" "status t' 8 = KNone" using t'(3) s absorb_stop [of _ 7] by simp_all
  moreover have "set_point_as t' 7 KSent = Some (False, t')"
    using set_point_as_refines [OF t'(2), of 7 KSent] calculation by (simp add: u64_max_def)
  ultimately show ?thesis using t' by blast
qed

text \<open>C25: marking a range of unknown entries as requested succeeds, counts them as outstanding and changes nothing
  else.\<close>

theorem set_range_as_sent_refines:
  assumes "range_ok t" "low \<le> high" "high \<le> u64_max" "\<forall>x. low \<le> x \<and> x \<le> high \<longrightarrow> status t x = KNone"
  shows "\<exists>t'. set_range_as_sent t low high = Some t' \<and> range_ok t' \<and>
    status t' = (\<lambda>x. if low \<le> x \<and> x \<le> high then KSent else status t x)"
proof -
  obtain t' where "set_range_as_sent t low high = Some t'" "range_ok t'" "status t' = (\<lambda>x. if low \<le> x \<and> x \<le> high then KSent else status t x)"
    using set_range_as_sent_spec [OF assms(1-3)] assms(4) by blast
  then show ?thesis by blast
qed

theorem set_range_as_sent_refines_witness:
  "\<exists>t'. set_range_as_sent range_tree_new 1 5 = Some t' \<and> range_ok t' \<and> status t' 5 = KSent \<and> status t' 6 = KNone"
proof -
  obtain t' where t': "set_range_as_sent range_tree_new 1 5 = Some t'" "range_ok t'"
    "status t' = (\<lambda>x. if 1 \<le> x \<and> x \<le> 5 then KSent else status range_tree_new x)"
    using set_range_as_sent_refines [OF range_tree_new_ok, of 1 5] new_status by (auto simp: u64_max_def)
  have "status t' 5 = KSent" "status t' 6 = KNone" using t'(3) new_status [of 6] by simp_all
  then show ?thesis using t' by blast
qed

text \<open>C26: rewinding a chain to an entry all of whose predecessors are returned forgets everything from that
  entry on, provided nothing from there on is requested or buffered.\<close>

theorem set_above_as_none_refines:
  assumes "range_ok t" "0 < low" "low \<le> u64_max" "status t (low - 1) = KReturned"
    and "\<forall>x. low \<le> x \<longrightarrow> status t x \<noteq> KSent \<and> status t x \<noteq> KGotten"
  shows "\<exists>t'. set_above_as_none t low = Some t' \<and> range_ok t' \<and> status t' = (\<lambda>x. if low \<le> x then KNone else status t x)"
  using set_above_as_none_spec [OF assms(1-4)] assms(5) by blast

theorem set_above_as_none_refines_witness:
  "\<exists>t'. set_above_as_none range_tree_new 1 = Some t' \<and> range_ok t' \<and> status t' 0 = KReturned \<and> status t' 1 = KNone"
proof -
  have s: "status range_tree_new 0 = KReturned" by (simp add: range_tree_new_def kind_at_def range_cmp_if range_point_def)
  obtain t' where t': "set_above_as_none range_tree_new 1 = Some t'" "range_ok t'" "status t' = (\<lambda>x. if 1 \<le> x then KNone else status range_tree_new x)"
    using set_above_as_none_refines [OF range_tree_new_ok, of 1] s new_status by (auto simp: u64_max_def)
  have "status t' 0 = KReturned" "status t' 1 = KNone" using t'(3) s by simp_all
  then show ?thesis using t' by blast
qed

end
