(* ===== verification/Client_Order.thy ===== *)
theory Client_Order
  imports Client_Log Client_Ranges_Inv
begin

text \<open>
  The order in which the client hands entries to the application: along every run of the log thread, the
  entries of a chain are handed over with increasing indices, each of them once.
\<close>

section \<open>Returning the entries of one chain\<close>

text \<open>What the log relies on of the state of a chain: marking an entry as returned keeps the state good, and
  succeeds only above everything returned before.\<close>

locale returning =
  fixes ok :: "'s \<Rightarrow> bool" and returned :: "'s \<Rightarrow> entry \<Rightarrow> bool" and give :: "'s \<Rightarrow> entry \<Rightarrow> 's option"
  assumes give_ok: "ok s \<Longrightarrow> give s i = Some s' \<Longrightarrow> ok s'"
    and give_returned: "ok s \<Longrightarrow> give s i = Some s' \<Longrightarrow> returned s' i"
    and give_keeps: "ok s \<Longrightarrow> give s i = Some s' \<Longrightarrow> returned s j \<Longrightarrow> returned s' j"
    and give_above: "ok s \<Longrightarrow> give s i = Some s' \<Longrightarrow> returned s j \<Longrightarrow> j < i"
begin

definition hands :: "entry list \<Rightarrow> 's \<Rightarrow> bool" where
  "hands is s \<longleftrightarrow> sorted_wrt (<) is \<and> (\<forall>i \<in> set is. returned s i)"

lemma hands_give: "ok s \<Longrightarrow> hands is s \<Longrightarrow> give s i = Some s' \<Longrightarrow> hands (is @ [i]) s'"
  using give_above give_keeps give_returned by (fastforce simp: hands_def sorted_wrt_append)

lemma hands_mono: "hands is s \<Longrightarrow> (\<And>i. returned s i \<Longrightarrow> returned s' i) \<Longrightarrow> hands is s'"
  by (auto simp: hands_def)

end

definition pc_ok :: "per_color \<Rightarrow> bool" where
  "pc_ok pc = range_ok (read_status pc)"

definition pc_step :: "per_color \<Rightarrow> per_color \<Rightarrow> bool" where
  "pc_step pc pc' = tree_step (read_status pc) (read_status pc')"

lemma drop_if_finished_status [simp]: "read_status (drop_if_finished pc) = read_status pc"
  by (simp add: drop_if_finished_def)

lemma set_returned_step:
  assumes "pc_ok pc" "set_returned pc i = Some pc'"
  shows "pc_step pc pc' \<and> has_returned pc' i \<and> (\<forall>j. has_returned pc j \<longrightarrow> j < i)"
  using assms set_point_as_returned_step [of "read_status pc" i]
  by (auto simp: set_returned_def pc_ok_def pc_step_def has_returned_def pc_next_return_is_def rust_simps)

interpretation pc: returning pc_ok has_returned set_returned
  by unfold_locales (use set_returned_step in \<open>auto simp: pc_ok_def pc_step_def tree_step_def has_returned_def\<close>)

section \<open>The operations on one chain\<close>

lemma pc_step_same: "pc_ok pc \<Longrightarrow> read_status pc' = read_status pc \<Longrightarrow> pc_step pc pc'"
  by (simp add: pc_step_def pc_ok_def tree_step_refl)

lemma pc_step_ok: "pc_step pc pc' \<Longrightarrow> pc_ok pc'"
  by (simp add: pc_step_def pc_ok_def tree_step_def)

lemma pc_step_trans: "pc_step a b \<Longrightarrow> pc_step b c \<Longrightarrow> pc_step a c"
  by (simp add: pc_step_def tree_step_def)

lemma pc_step_returned: "pc_step pc pc' \<Longrightarrow> has_returned pc i \<Longrightarrow> has_returned pc' i"
  by (simp add: pc_step_def tree_step_def has_returned_def)

lemma per_color_new_ok: "pc_ok (per_color_new c)" "pc_ok (interesting c)"
  by (simp_all add: pc_ok_def per_color_new_def interesting_def range_tree_new_ok)

lemma overread_at_step: "pc_ok pc \<Longrightarrow> overread_at pc i = Some pc' \<Longrightarrow> pc_step pc pc'"
  by (auto simp: overread_at_def pc_ok_def pc_step_def rust_simps intro: set_point_as_none_step)

lemma got_read_step: "pc_ok pc \<Longrightarrow> got_read pc i = Some (b, pc') \<Longrightarrow> pc_step pc pc'"
  by (auto simp: got_read_def pc_ok_def pc_step_def rust_simps intro: set_point_as_recvd_step)

lemma mark_as_already_fetched_step: "pc_ok pc \<Longrightarrow> mark_as_already_fetched pc i = Some pc' \<Longrightarrow> pc_step pc pc'"
  by (auto simp: mark_as_already_fetched_def pc_ok_def pc_step_def rust_simps intro: set_point_as_recvd_step)

lemma mark_as_skippable_step: "pc_ok pc \<Longrightarrow> mark_as_skippable pc i = Some pc' \<Longrightarrow> pc_step pc pc'"
  by (auto simp: mark_as_skippable_def pc_ok_def pc_step_def rust_simps intro: set_point_as_skip_step)

lemma fetching_range_step: "pc_ok pc \<Longrightarrow> fetching_range pc l h = Some pc' \<Longrightarrow> pc_step pc pc'"
  by (auto simp: fetching_range_def pc_ok_def pc_step_def rust_simps Let_def split: if_splits intro: set_range_as_sent_step)

lemma add_early_sentinel_step: "pc_ok pc \<Longrightarrow> add_early_sentinel pc u i = Some pc' \<Longrightarrow> pc_step pc pc'"
  using mark_as_skippable_step [of "pc\<lparr>found_but_unused_multiappends := (found_but_unused_multiappends pc)(u \<mapsto> i)\<rparr>" i pc']
  by (auto simp: add_early_sentinel_def pc_ok_def pc_step_def rust_simps)

lemma same_status:
  "increment_outstanding_snapshots pc = Some pc' \<Longrightarrow> read_status pc' = read_status pc"
  "decrement_outstanding_snapshots pc = Some pc' \<Longrightarrow> read_status pc' = read_status pc"
  "increment_multi_search pc = Some pc' \<Longrightarrow> read_status pc' = read_status pc"
  "decrement_multi_search pc = Some pc' \<Longrightarrow> read_status pc' = read_status pc"
  "update_horizon pc h = Some (ub, pc') \<Longrightarrow> read_status pc' = read_status pc"
  "block_on_snapshot pc val = Some pc' \<Longrightarrow> read_status pc' = read_status pc"
  "set_finished_reading pc = Some pc' \<Longrightarrow> read_status pc' = read_status pc"
  by (auto simp: increment_outstanding_snapshots_def decrement_outstanding_snapshots_def increment_multi_search_def
      decrement_multi_search_def update_horizon_def block_on_snapshot_def set_finished_reading_def Let_def rust_simps split: if_splits)

lemma more_same_status:
  "increment_horizon pc = Some (ub, pc') \<Longrightarrow> read_status pc' = read_status pc"
  "give_new_snapshot pc h = Some (ub, pc') \<Longrightarrow> read_status pc' = read_status pc"
  "take_early_sentinel pc u = (e, pc') \<Longrightarrow> read_status pc' = read_status pc"
  "got_no_remote pc u = (b, pc') \<Longrightarrow> read_status pc' = read_status pc"
  "read_status (add_no_remote pc u) = read_status pc"
  by (auto simp: increment_horizon_def give_new_snapshot_def take_early_sentinel_def got_no_remote_def add_no_remote_def
      rust_simps split: if_splits dest!: same_status)

lemmas status_kept = same_status more_same_status


section \<open>The invariant of the log\<close>

text \<open>The locations under which an entry that is handed over was appended: those before the separator. The
  answers to snapshots, which the log can hand over too, are no entries.\<close>

fun handed_locs :: "read_result \<Rightarrow> order_index list" where
  "handed_locs (ReadOk p) =
     (if pkt_layout p = Some LRead \<or> pkt_layout p = Some LSnapshot then []
      else case pkt_locs p of Some ls \<Rightarrow> takeWhile (\<lambda>(o', _). o' \<noteq> 0) ls | None \<Rightarrow> [])"
| "handed_locs _ = []"

definition indices_in :: "order \<Rightarrow> order_index list \<Rightarrow> entry list" where
  "indices_in c locs = map snd (filter (\<lambda>(o', _). o' = c) locs)"

definition handed :: "thread_log \<Rightarrow> order \<Rightarrow> entry list" where
  "handed s c = indices_in c (concat (map handed_locs (ready_reads s)))"

definition chain_hands :: "thread_log \<Rightarrow> order \<Rightarrow> entry list \<Rightarrow> bool" where
  "chain_hands s c is \<longleftrightarrow> (\<exists>pc. get_pc s c = Some pc \<and> pc.hands is pc)"

definition held :: "(chain_entry \<times> packet) set \<Rightarrow> thread_log \<Rightarrow> bool" where
  "held P s \<longleftrightarrow> (\<forall>(a, p) \<in> P. a < rc_next s \<and> rc_val s a = p)"

text \<open>For a set of chains, and entries that are behind references somebody holds: the chains are good, what was
  handed over of the given chains is in order and marked as returned, and the references are still what they
  were.\<close>

datatype scope = Scope (scope_chains: "order set") (scope_held: "(chain_entry \<times> packet) set")

definition log_inv :: "scope \<Rightarrow> thread_log \<Rightarrow> bool" where
  "log_inv D s \<longleftrightarrow> (\<forall>c pc. get_pc s c = Some pc \<longrightarrow> pc_ok pc) \<and>
     (\<forall>c \<in> scope_chains D. c \<noteq> 0 \<and> chain_hands s c (handed s c)) \<and> held (scope_held D) s"

lemma indices_in_simps [simp]:
  "indices_in c [] = []" "indices_in c ((o', i) # locs) = (if o' = c then i # indices_in c locs else indices_in c locs)"
  "indices_in c (xs @ ys) = indices_in c xs @ indices_in c ys"
  by (auto simp: indices_in_def)

lemma get_pc_set_pc [simp]: "get_pc (set_pc s c pc) c' = (if c' = c then Some pc else get_pc s c')"
  by (simp add: get_pc_def set_pc_def update_conv')

lemma ready_reads_set_pc [simp]:
  "ready_reads (set_pc s c pc) = ready_reads s" "rc_val (set_pc s c pc) = rc_val s" "rc_next (set_pc s c pc) = rc_next s"
  by (simp_all add: set_pc_def)

lemma log_inv_pc_ok: "log_inv D s \<Longrightarrow> get_pc s c = Some pc \<Longrightarrow> pc_ok pc"
  by (auto simp: log_inv_def)

lemma log_inv_entry_ok: "log_inv D s \<Longrightarrow> pc_ok (entry_pc s c)"
  using log_inv_pc_ok per_color_new_ok by (auto simp: entry_pc_def split: option.split)

lemma log_inv_same:
  assumes "log_inv D s" "per_chains s' = per_chains s" "concat (map handed_locs (ready_reads s')) = concat (map handed_locs (ready_reads s))"
    "rc_val s' = rc_val s" "rc_next s' = rc_next s"
  shows "log_inv D s'"
  using assms by (simp add: log_inv_def get_pc_def handed_def chain_hands_def held_def)

lemma log_inv_set_pc:
  assumes "log_inv D s" "pc_step (entry_pc s c) pc'"
  shows "log_inv D (set_pc s c pc')"
proof -
  have "chain_hands (set_pc s c pc') c' (handed s c')" if "chain_hands s c' (handed s c')" for c'
    using that assms(2) pc_step_returned by (auto simp: chain_hands_def entry_pc_def intro: pc.hands_mono)
  then show ?thesis using assms pc_step_ok by (auto simp: log_inv_def handed_def held_def)
qed

lemma log_inv_step: "log_inv D s \<Longrightarrow> get_pc s c = Some pc \<Longrightarrow> pc_step pc pc' \<Longrightarrow> log_inv D (set_pc s c pc')"
  by (simp add: log_inv_set_pc entry_pc_def)

lemma log_inv_kept: "log_inv D s \<Longrightarrow> get_pc s c = Some pc \<Longrightarrow> read_status pc' = read_status pc \<Longrightarrow> log_inv D (set_pc s c pc')"
  using log_inv_step log_inv_pc_ok pc_step_same by blast

lemma log_inv_kept_entry: "log_inv D s \<Longrightarrow> read_status pc' = read_status (entry_pc s c) \<Longrightarrow> log_inv D (set_pc s c pc')"
  using log_inv_set_pc log_inv_entry_ok pc_step_same by blast

lemma send_read_inv:
  "log_inv D s \<Longrightarrow> handed_locs r = [] \<Longrightarrow> log_inv D (snd (send_read s r))"
  "log_inv D s \<Longrightarrow> handed_locs r = [] \<Longrightarrow> log_inv D (send_read_or_finish s r)"
  by (auto simp: send_read_or_finish_def send_read_def intro!: log_inv_same [of D s])

section \<open>Handing over an entry\<close>

text \<open>While the locations of an entry are marked, what was handed over with the part marked so far keeps the order.\<close>

definition chains_ok :: "thread_log \<Rightarrow> bool" where
  "chains_ok s \<longleftrightarrow> (\<forall>c pc. get_pc s c = Some pc \<longrightarrow> pc_ok pc)"

lemma set_all_returned_hands:
  "set_all_returned s intr locs = Some (intr', s') \<Longrightarrow> chains_ok s \<Longrightarrow>
   chains_ok s' \<and> ready_reads s' = ready_reads s \<and> rc_val s' = rc_val s \<and> rc_next s' = rc_next s \<and>
   (\<forall>c is. c \<noteq> 0 \<longrightarrow> chain_hands s c is \<longrightarrow> chain_hands s' c is \<and> chain_hands s' c (is @ indices_in c (takeWhile (\<lambda>(o', _). o' \<noteq> 0) locs)))"
proof (induction locs arbitrary: s intr)
  case (Cons loc locs)
  obtain o' i where loc: "loc = (o', i)" by (cases loc)
  show ?case
  proof (cases "o' = 0")
    case False
    note nz = this
    show ?thesis
    proof (cases "get_pc s o'")
      case None
      then have "set_all_returned s intr locs = Some (intr', s')" using Cons.prems loc nz by simp
      moreover have "\<not> chain_hands s o' is" for "is" using None by (simp add: chain_hands_def)
      ultimately show ?thesis using Cons.IH [of s intr] Cons.prems loc nz by (auto split: if_splits)
    next
      case (Some pc)
      then obtain pc' where pc': "set_returned pc i = Some pc'"
          "set_all_returned (set_pc s o' pc') (intr \<or> is_interesting pc') locs = Some (intr', s')" "is_within_snapshot pc i"
        using Cons.prems(1) loc nz by (auto simp: rust_simps)
      have ok: "pc_ok pc" using Cons.prems(2) Some by (auto simp: chains_ok_def)
      then have step: "pc_step pc pc'" using set_returned_step [OF _ pc'(1)] by blast
      have cok: "chains_ok (set_pc s o' pc')" using Cons.prems(2) pc_step_ok [OF step] by (auto simp: chains_ok_def)
      note IH = Cons.IH [OF pc'(2) cok]
      then have IH': "c \<noteq> 0 \<Longrightarrow> chain_hands (set_pc s o' pc') c is \<Longrightarrow> chain_hands s' c is \<and>
          chain_hands s' c (is @ indices_in c (takeWhile (\<lambda>(o', _). o' \<noteq> 0) locs))" for c "is" by blast
      have h: "chain_hands (set_pc s o' pc') c is \<and> chain_hands (set_pc s o' pc') c (is @ (if c = o' then [i] else []))"
        if "chain_hands s c is" for c "is"
        using that Some pc.hands_give [OF ok _ pc'(1)] pc_step_returned [OF step] pc.hands_mono
        by (auto simp: chain_hands_def)
      have "chain_hands s' c is \<and> chain_hands s' c (is @ indices_in c (takeWhile (\<lambda>(o', _). o' \<noteq> 0) (loc # locs)))"
        if "c \<noteq> 0" "chain_hands s c is" for c "is"
        using IH' [OF that(1) conjunct1 [OF h [OF that(2)]]] IH' [OF that(1) conjunct2 [OF h [OF that(2)]]] that(1) nz loc
        by (auto split: if_splits)
      then show ?thesis using IH by simp
    qed
  qed (use Cons.prems loc in auto)
qed auto


lemma hands_over:
  assumes inv: "log_inv D s" and "set_all_returned s False locs = Some (intr, s')" "pkt_locs val = Some locs"
    "per_chains s'' = per_chains s'" "ready_reads s'' = ready_reads s'" "rc_val s'' = rc_val s'" "rc_next s'' = rc_next s'"
  shows "log_inv D (send_read_or_finish s'' (ReadOk val))" "log_inv D s''"
proof -
  have a: "chains_ok s'" "ready_reads s' = ready_reads s"
    "\<And>c is. c \<noteq> 0 \<Longrightarrow> chain_hands s c is \<Longrightarrow> chain_hands s' c is \<and> chain_hands s' c (is @ indices_in c (takeWhile (\<lambda>(o', _). o' \<noteq> 0) locs))"
    using set_all_returned_hands [OF assms(2)] inv by (auto simp: log_inv_def chains_ok_def)
  have g: "get_pc s'' = get_pc s'" using assms(4) by (auto simp: get_pc_def)
  have c: "c \<noteq> 0 \<and> chain_hands s c (handed s c)" if "c \<in> scope_chains D" for c using inv that by (simp add: log_inv_def)
  have h: "handed s'' c = handed s c" for c using assms(5) a(2) by (simp add: handed_def)
  have hl: "held (scope_held D) s''" using set_all_returned_hands [OF assms(2)] inv assms(6,7) by (auto simp: log_inv_def chains_ok_def held_def)
  show i: "log_inv D s''" using a c h g hl by (auto simp: log_inv_def chains_ok_def chain_hands_def)
  show "log_inv D (send_read_or_finish s'' (ReadOk val))"
  proof (cases "reads_up s''")
    case True
    let ?s = "s''\<lparr>ready_reads := ready_reads s'' @ [ReadOk val]\<rparr>"
    have hh: "handed ?s c = handed s c @ indices_in c (handed_locs (ReadOk val))" for c using h [of c] by (simp add: handed_def)
    have g': "get_pc ?s = get_pc s'" using g by (auto simp: get_pc_def fun_eq_iff)
    have "chain_hands ?s c (handed ?s c)" if "c \<in> scope_chains D" for c
      using a(3) [of c] c [OF that] assms(3) g' unfolding hh by (auto simp: chain_hands_def)
    then have "log_inv D ?s" using a(1) c g' hl by (auto simp: log_inv_def chains_ok_def held_def)
    then show ?thesis using True by (simp add: send_read_or_finish_def send_read_def)
  next
    case False
    then show ?thesis using log_inv_same [OF i] by (simp add: send_read_or_finish_def send_read_def)
  qed
qed


section \<open>Every operation keeps the invariant\<close>

lemma unaffected [simp]:
  "per_chains (rc_clone s a) = per_chains s" "ready_reads (rc_clone s a) = ready_reads s" "rc_val (rc_clone s a) = rc_val s" "rc_next (rc_clone s a) = rc_next s"
  "per_chains (rc_drop s a) = per_chains s" "ready_reads (rc_drop s a) = ready_reads s" "rc_val (rc_drop s a) = rc_val s" "rc_next (rc_drop s a) = rc_next s"
  "per_chains (push_blocked s loc a) = per_chains s" "ready_reads (push_blocked s loc a) = ready_reads s" "rc_val (push_blocked s loc a) = rc_val s" "rc_next (push_blocked s loc a) = rc_next s"
  "per_chains (see_entry s loc) = per_chains s" "ready_reads (see_entry s loc) = ready_reads s" "rc_val (see_entry s loc) = rc_val s" "rc_next (see_entry s loc) = rc_next s"
  "per_chains (cache_alloc s) = per_chains s" "ready_reads (cache_alloc s) = ready_reads s" "rc_val (cache_alloc s) = rc_val s" "rc_next (cache_alloc s) = rc_next s"
  "per_chains (cache_buffer s) = per_chains s" "ready_reads (cache_buffer s) = ready_reads s" "rc_val (cache_buffer s) = rc_val s" "rc_next (cache_buffer s) = rc_next s"
  "per_chains (cache_flush s) = per_chains s" "ready_reads (cache_flush s) = ready_reads s" "rc_val (cache_flush s) = rc_val s" "rc_next (cache_flush s) = rc_next s"
  "per_chains (count_snapshot s) = per_chains s" "ready_reads (count_snapshot s) = ready_reads s" "rc_val (count_snapshot s) = rc_val s" "rc_next (count_snapshot s) = rc_next s"
  by (simp_all add: rc_clone_def rc_drop_def push_blocked_def see_entry_def cache_alloc_def cache_buffer_def cache_flush_def
      count_snapshot_def Let_def)

lemma see_all_unaffected [simp]:
  "per_chains (see_all s locs) = per_chains s \<and> ready_reads (see_all s locs) = ready_reads s \<and>
   rc_val (see_all s locs) = rc_val s \<and> rc_next (see_all s locs) = rc_next s"
  unfolding see_all_def by (induction locs arbitrary: s) simp_all

lemma fetch_loop_unaffected [simp]:
  "per_chains (fetch_loop s c ns) = per_chains s \<and> ready_reads (fetch_loop s c ns) = ready_reads s \<and>
   rc_val (fetch_loop s c ns) = rc_val s \<and> rc_next (fetch_loop s c ns) = rc_next s"
  by (induction ns arbitrary: s) (simp_all add: make_read_packet_def Let_def)

lemma log_inv_cong:
  "per_chains s' = per_chains s \<Longrightarrow> ready_reads s' = ready_reads s \<Longrightarrow> rc_val s' = rc_val s \<Longrightarrow> rc_next s' = rc_next s \<Longrightarrow>
   log_inv D s' = log_inv D s"
  using log_inv_same [of D s s'] log_inv_same [of D s' s] by auto

lemma log_inv_simps [simp]:
  "log_inv D (rc_clone s a) = log_inv D s" "log_inv D (rc_drop s a) = log_inv D s" "log_inv D (push_blocked s loc a) = log_inv D s"
  "log_inv D (see_entry s loc) = log_inv D s" "log_inv D (see_all s locs) = log_inv D s" "log_inv D (cache_alloc s) = log_inv D s"
  "log_inv D (cache_buffer s) = log_inv D s" "log_inv D (cache_flush s) = log_inv D s" "log_inv D (count_snapshot s) = log_inv D s"
  "log_inv D (fetch_loop s c ns) = log_inv D s"
  "log_inv D (s\<lparr>no_longer_blocked := nb\<rparr>) = log_inv D s" "log_inv D (s\<lparr>blockers := bl\<rparr>) = log_inv D s"
  "log_inv D (s\<lparr>blocked_multiappends := bm\<rparr>) = log_inv D s" "log_inv D (s\<lparr>log_finished := lf\<rparr>) = log_inv D s"
  "log_inv D (s\<lparr>log_prefetch := lp\<rparr>) = log_inv D s" "log_inv D (s\<lparr>num_snapshots := ns'\<rparr>) = log_inv D s"
  "log_inv D (s\<lparr>num_errors := ne\<rparr>) = log_inv D s" "log_inv D (s\<lparr>ack_writes := aw\<rparr>) = log_inv D s"
  "log_inv D (s\<lparr>last_seen_entries := ls\<rparr>) = log_inv D s"
  by (rule log_inv_cong; simp)+

lemma log_inv_rc_new: "rc_new s p = (a, s') \<Longrightarrow> log_inv D s \<Longrightarrow> log_inv D s'"
  by (auto simp: rc_new_def Let_def log_inv_def get_pc_def handed_def chain_hands_def held_def)

lemma send_store_inv: "send_store s p = Some s' \<Longrightarrow> log_inv D s \<Longrightarrow> log_inv D s'"
  by (auto simp: send_store_def rust_simps elim!: log_inv_same)

lemma enqueue_packet_inv: "enqueue_packet s loc a = Some s' \<Longrightarrow> log_inv D s \<Longrightarrow> log_inv D s'"
  by (auto simp: enqueue_packet_def rust_simps)

lemma fetch_next_inv: "fetch_next s c l h = Some s' \<Longrightarrow> log_inv D s \<Longrightarrow> log_inv D s'"
  by (auto simp: fetch_next_def rust_simps intro!: log_inv_step fetching_range_step dest: log_inv_pc_ok)

lemma return_entry_at_inv:
  assumes r: "return_entry_at s loc val = Some (b, s')" and inv: "log_inv D s" and l: "pkt_locs val = Some [loc]"
  shows "log_inv D s'"
proof (cases "get_pc s (fst loc)")
  case None
  then show ?thesis using assms by (simp add: return_entry_at_def)
next
  case (Some pc)
  consider "has_returned pc (snd loc)" | "\<not> has_returned pc (snd loc)" "\<not> is_within_snapshot pc (snd loc)"
    | "\<not> has_returned pc (snd loc)" "is_within_snapshot pc (snd loc)" by blast
  then show ?thesis
  proof cases
    case 1
    then show ?thesis using assms Some by (simp add: return_entry_at_def)
  next
    case 2
    then show ?thesis using assms Some log_inv_kept [OF inv Some status_kept(6)] by (auto simp: return_entry_at_def rust_simps)
  next
    case 3
    obtain pc' where pc': "set_returned pc (snd loc) = Some pc'" using r Some 3 by (auto simp: return_entry_at_def rust_simps)
    let ?s = "set_pc s (fst loc) pc'"
    have step: "log_inv D ?s" using log_inv_step [OF inv Some] set_returned_step [OF log_inv_pc_ok [OF inv Some] pc'] by blast
    have s': "s' = (let s = (if is_interesting pc' \<and> my_colors_chains ?s \<noteq> [] \<and> fst loc \<in> set (my_colors_chains ?s) then see_entry ?s loc else ?s)
        in if is_interesting pc' then send_read_or_finish s (ReadOk val) else s)"
      using r Some 3 pc' by (auto simp: return_entry_at_def rust_simps Let_def)
    show ?thesis
    proof (cases "fst loc = 0")
      case True
      then have "handed_locs (ReadOk val) = []" using l by (cases loc) simp
      then show ?thesis using step send_read_inv(2) by (auto simp: s' Let_def)
    next
      case False
      then have "set_all_returned s False [loc] = Some (is_interesting pc', ?s)" using Some pc' 3 by (cases loc) simp
      from hands_over [OF inv this l] show ?thesis by (auto simp: s' Let_def)
    qed
  qed
qed

lemma return_entry_inv:
  assumes r: "return_entry s val = Some (ls, s')" and inv: "log_inv D s"
  shows "log_inv D s'"
proof -
  obtain f locs c where a: "pkt_flag val = Some f" "pkt_locs val = Some locs" "check_locs s False None locs = Some c"
    using r by (auto simp: return_entry_def rust_simps)
  show ?thesis
  proof (cases c)
    case (Inl u)
    then show ?thesis using r a inv by (simp add: return_entry_def)
  next
    case (Inr blk)
    show ?thesis
    proof (cases blk)
      case None
      then obtain intr s1 where "set_all_returned s False locs = Some (intr, s1)"
          "s' = (let s = (if intr \<and> my_colors_chains s1 \<noteq> [] then see_all s1 locs else s1) in if intr then send_read_or_finish s (ReadOk val) else s)"
        using r a Inr by (auto simp: return_entry_def rust_simps Let_def)
      then show ?thesis using hands_over [OF inv _ a(2)] by (auto simp: Let_def)
    next
      case (Some oi)
      obtain o' i where oi: "oi = (o', i)" by (cases oi)
      show ?thesis using r a Inr Some oi inv
        by (auto simp: return_entry_def rust_simps Let_def split: if_splits prod.splits
            intro: log_inv_kept status_kept(6) enqueue_packet_inv log_inv_rc_new)
    qed
  qed
qed

lemma unblock_all_inv: "unblock_all s as = Some s' \<Longrightarrow> log_inv D s \<Longrightarrow> log_inv D s'"
proof (induction as arbitrary: s)
  case (Cons a as)
  show ?case
  proof (cases "rc_unique s a")
    case True
    then obtain locs ls s1 where "return_entry ((rc_drop s a)\<lparr>no_longer_blocked := no_longer_blocked (rc_drop s a) @ locs\<rparr>) (rc_val s a) = Some (ls, s1)"
        "unblock_all s1 as = Some s'"
      using Cons.prems(1) by (auto simp: rust_simps Let_def)
    then show ?thesis using Cons.IH [of s1] return_entry_inv Cons.prems(2) by simp
  qed (use Cons in simp)
qed simp

lemma try_return_blocked_by_inv: "try_return_blocked_by s loc = Some s' \<Longrightarrow> log_inv D s \<Longrightarrow> log_inv D s'"
  by (auto simp: try_return_blocked_by_def split: option.splits intro: unblock_all_inv)

lemma unblock_locs_inv: "unblock_locs s locs = Some s' \<Longrightarrow> log_inv D s \<Longrightarrow> log_inv D s'"
  by (induction locs arbitrary: s) (auto simp: rust_simps split: if_splits intro: try_return_blocked_by_inv)

lemma unblock_rest_inv: "unblock_rest s = Some s' \<Longrightarrow> log_inv D s \<Longrightarrow> log_inv D s'"
proof (induction rule: unblock_rest.raw_induct [rotated, consumes 1, case_names step])
  case (step f s s')
  show ?case
  proof (cases "no_longer_blocked s = []")
    case False
    then obtain s1 where "try_return_blocked_by (s\<lparr>no_longer_blocked := butlast (no_longer_blocked s)\<rparr>) (List.last (no_longer_blocked s)) = Some s1" "f s1 = Some s'"
      using step.hyps by (auto simp: rust_simps)
    then show ?thesis using step.IH try_return_blocked_by_inv step.prems by simp
  qed (use step in simp)
qed


lemma stop_blocking_on_inv: "stop_blocking_on s locs = Some s' \<Longrightarrow> log_inv D s \<Longrightarrow> log_inv D s'"
  by (auto simp: stop_blocking_on_def rust_simps intro: unblock_locs_inv unblock_rest_inv)

lemma return_unblocked_inv: "return_unblocked s ub = Some s' \<Longrightarrow> log_inv D s \<Longrightarrow> log_inv D s'"
  by (auto simp: return_unblocked_def rust_simps split: option.splits intro: return_entry_inv stop_blocking_on_inv)

lemma fetch_blocker_at_inv:
  assumes "fetch_blocker_at s c i = Some s'" "log_inv D s"
  shows "log_inv D s'"
proof -
  obtain ub tf s1 s2 where a: "(case get_pc s c of None \<Rightarrow> Some (None, NFNone, s)
      | Some pc \<Rightarrow> do { (ub, pc) \<leftarrow> update_horizon pc i; tf \<leftarrow> next_range_to_fetch pc; Some (ub, tf, set_pc s c pc) }) = Some (ub, tf, s1)"
    "(case tf of BelowHorizon low high \<Rightarrow> fetch_next s1 c low high | _ \<Rightarrow> Some s1) = Some s2" "return_unblocked s2 ub = Some s'"
    using assms(1) by (auto simp: fetch_blocker_at_def rust_simps)
  have "log_inv D s1" using a(1) assms(2) by (auto simp: rust_simps split: option.splits intro: log_inv_kept status_kept)
  then have "log_inv D s2" using a(2) by (auto split: next_to_fetch.splits intro: fetch_next_inv)
  then show ?thesis using a(3) return_unblocked_inv by blast
qed

lemma fetch_blockers_inv: "fetch_blockers s deps = Some s' \<Longrightarrow> log_inv D s \<Longrightarrow> log_inv D s'"
  by (induction s deps rule: fetch_blockers.induct) (auto simp: rust_simps intro: fetch_blocker_at_inv)

lemma fetch_blockers_if_needed_inv: "fetch_blockers_if_needed s a = Some s' \<Longrightarrow> log_inv D s \<Longrightarrow> log_inv D s'"
  by (auto simp: fetch_blockers_if_needed_def rust_simps intro: fetch_blockers_inv)

lemma try_returning_at_inv:
  assumes "try_returning_at s loc a = Some s'" "log_inv D s" "pkt_locs (rc_val s a) = Some [loc]"
  shows "log_inv D s'"
proof (cases "rc_unique s a")
  case True
  then obtain b s1 where "return_entry_at (rc_drop s a) loc (rc_val s a) = Some (b, s1)" "(if b then stop_blocking_on s1 [loc] else Some s1) = Some s'"
    using assms(1) by (auto simp: try_returning_at_def rust_simps)
  then show ?thesis using return_entry_at_inv [of "rc_drop s a" loc] stop_blocking_on_inv assms(2,3) by (auto split: if_splits)
next
  case False
  then show ?thesis using assms(1,2) fetch_blockers_if_needed_inv by (auto simp: try_returning_at_def rust_simps)
qed

lemma try_returning_inv: "try_returning s a = Some s' \<Longrightarrow> log_inv D s \<Longrightarrow> log_inv D s'"
  by (auto simp: try_returning_def rust_simps split: if_splits intro: return_unblocked_inv fetch_blockers_if_needed_inv)

lemma block_on_prior_inv: "block_on_prior s a nd tr locs = Some (nd', tr', s') \<Longrightarrow> log_inv D s \<Longrightarrow> log_inv D s'"
proof (induction locs arbitrary: s nd tr)
  case (Cons loc locs)
  then show ?case using enqueue_packet_inv [of "rc_clone s a" loc a]
    by (fastforce simp: rust_simps split: if_splits option.splits)
qed simp

lemma block_on_deps_inv: "block_on_deps s a deps = Some s' \<Longrightarrow> log_inv D s \<Longrightarrow> log_inv D s'"
proof (induction deps arbitrary: s)
  case (Cons dep deps)
  obtain c i where d: "dep = (c, i)" by (cases dep)
  show ?case
  proof (cases "case get_pc s c of Some pc \<Rightarrow> has_returned pc i | None \<Rightarrow> True")
    case True
    then show ?thesis using Cons d by simp
  next
    case False
    then obtain s1 where "fetch_blocker_at (push_blocked (rc_clone s a) (c, i) a) c i = Some s1" "block_on_deps s1 a deps = Some s'"
      using Cons.prems(1) d by (auto simp: rust_simps)
    then show ?thesis using Cons.IH fetch_blocker_at_inv Cons.prems(2) by simp
  qed
qed simp

lemma add_blockers_inv: "add_blockers s a = Some (b, s') \<Longrightarrow> log_inv D s \<Longrightarrow> log_inv D s'"
  by (auto simp: add_blockers_def rust_simps split: if_splits intro: block_on_prior_inv block_on_deps_inv)

lemma add_blockers_at_inv: "add_blockers_at s loc a = Some (b, s') \<Longrightarrow> log_inv D s \<Longrightarrow> log_inv D s'"
  using enqueue_packet_inv [of "rc_clone s a" loc a]
  by (fastforce simp: add_blockers_at_def rust_simps split: if_splits intro: block_on_deps_inv)

lemma wait_for_locs_inv: "wait_for_locs s a bl locs = (b, s') \<Longrightarrow> log_inv D s \<Longrightarrow> log_inv D s'"
  by (induction locs arbitrary: s bl) (auto split: if_splits)

lemma wait_for_deps_inv:
  assumes "wait_for_deps s a = Some (b, s')" "log_inv D s"
  shows "log_inv D s'"
proof -
  obtain locs where "pkt_locs (rc_val s a) = Some locs" using assms(1) by (auto simp: wait_for_deps_def rust_simps)
  then have "wait_for_locs s a False (drop 1 (dropWhile (\<lambda>(o', _). o' \<noteq> 0) locs)) = (\<not> b, s')"
    using assms(1) by (auto simp: wait_for_deps_def Let_def split: prod.splits)
  then show ?thesis using assms(2) by (rule wait_for_locs_inv)
qed

lemma continue_fetch_if_needed_inv:
  assumes "continue_fetch_if_needed s c = Some (b, s')" "log_inv D s"
  shows "log_inv D s'"
proof (cases "get_pc s c")
  case (Some pc)
  then obtain tf nf ub s1 s2 where a: "next_range_to_fetch pc = Some tf"
      "(case tf of BelowHorizon low high \<Rightarrow> Some (Some (low, high), None, s)
         | AboveHorizon low _ \<Rightarrow> do {
             more_multi \<leftarrow> has_more_multi_search_than_outstanding_reads pc;
             if more_multi then do { (ub, pc) \<leftarrow> increment_horizon pc; Some (Some (low, low), ub, set_pc s c pc) } else Some (None, None, s)
           }
         | NFNone \<Rightarrow> Some (None, None, s)) = Some (nf, ub, s1)"
      "(case nf of Some (low, high) \<Rightarrow> fetch_next s1 c low high | None \<Rightarrow> Some s1) = Some s2" "return_unblocked s2 ub = Some s'"
    using assms(1) by (auto simp: continue_fetch_if_needed_def rust_simps)
  have "log_inv D s1" using a(2) assms(2) Some
    by (auto simp: rust_simps split: next_to_fetch.splits if_splits intro: log_inv_kept status_kept)
  then have "log_inv D s2" using a(3) by (auto split: option.splits intro: fetch_next_inv)
  then show ?thesis using a(4) return_unblocked_inv by blast
qed (use assms in \<open>simp add: continue_fetch_if_needed_def\<close>)

lemma send_dones_inv: "log_inv D s \<Longrightarrow> log_inv D (send_dones s n)"
  by (induction n arbitrary: s) (simp_all add: send_read_inv)

lemma continue_fetch_inv:
  assumes "continue_fetch s c = Some s'" "log_inv D s"
  shows "log_inv D s'"
proof -
  obtain b s1 where a: "continue_fetch_if_needed s c = Some (b, s1)" using assms(1) by (auto simp: continue_fetch_def rust_simps)
  note i = continue_fetch_if_needed_inv [OF a assms(2)]
  show ?thesis
  proof (cases "get_pc s1 c")
    case None
    then show ?thesis using assms(1) a i by (auto simp: continue_fetch_def rust_simps split: if_splits intro!: send_dones_inv)
  next
    case (Some pc)
    have "log_inv D (set_pc s1 c pc')" if "set_finished_reading pc = Some pc'" for pc' using log_inv_kept [OF i Some status_kept(7) [OF that]] .
    then show ?thesis using assms(1) a i Some by (auto simp: continue_fetch_def rust_simps split: if_splits intro!: send_dones_inv)
  qed
qed

lemma add_no_remotes_inv: "add_no_remotes s c u locs = Some s' \<Longrightarrow> log_inv D s \<Longrightarrow> log_inv D s'"
proof (induction locs arbitrary: s)
  case (Cons loc locs)
  obtain o' i where loc: "loc = (o', i)" by (cases loc)
  have "log_inv D (case get_pc s o' of Some pc \<Rightarrow> set_pc s o' (add_no_remote pc u) | None \<Rightarrow> s)"
    using Cons.prems(2) by (auto split: option.split intro: log_inv_kept status_kept)
  then show ?case using Cons loc by (auto simp: rust_simps split: if_splits)
qed simp

lemma ensure_read_inv:
  assumes "ensure_read s loc a = Some s'" "log_inv D s"
  shows "log_inv D s'"
proof (cases "get_pc s (fst loc)")
  case (Some pc)
  obtain b pc' where g: "got_no_remote pc (pkt_id (rc_val s a)) = (b, pc')" by (metis prod.exhaust)
  have "log_inv D (set_pc s (fst loc) pc')" using log_inv_kept [OF assms(2) Some] status_kept(11) [OF g] .
  then show ?thesis using assms(1) Some g add_no_remotes_inv by (auto simp: ensure_read_def Let_def rust_simps split: if_splits)
qed (use assms in \<open>simp add: ensure_read_def\<close>)

lemma fetch_multi_parts_inv:
  assumes r: "fetch_multi_parts s u c i ms = Some (e, s')" and inv: "log_inv D s"
  shows "log_inv D s'"
proof -
  obtain e0 pc0 where t: "take_early_sentinel (entry_pc s c) u = (e0, pc0)" by (metis prod.exhaust)
  obtain ub e1 pc b s1 where a: "(if i \<noteq> 0 then do {
          (unblocked, pc) \<leftarrow> update_horizon pc0 (case e0 of Some loc \<Rightarrow> loc | None \<Rightarrow> i);
          pc \<leftarrow> if ms then mark_as_already_fetched pc i else Some pc;
          Some (unblocked, e0, pc)
        }
        else if e0 \<noteq> None then Some (None, e0, pc0)
        else do { pc \<leftarrow> increment_multi_search pc0; Some (None, None, pc) }) = Some (ub, e1, pc)"
      "continue_fetch_if_needed (set_pc s c pc) c = Some (b, s1)" "return_unblocked s1 ub = Some s'"
    using r t by (auto simp: fetch_multi_parts_def rust_simps)
  have s0: "pc_step (entry_pc s c) pc0" using pc_step_same [OF log_inv_entry_ok [OF inv]] status_kept(10) [OF t] .
  note ok0 = pc_step_ok [OF s0]
  have "pc_step pc0 pc"
  proof (cases "i \<noteq> 0")
    case True
    then obtain pc1 where p1: "update_horizon pc0 (case e0 of Some loc \<Rightarrow> loc | None \<Rightarrow> i) = Some (ub, pc1)"
        "(if ms then mark_as_already_fetched pc1 i else Some pc1) = Some pc" using a(1) by (auto simp: rust_simps)
    have "pc_step pc0 pc1" using pc_step_same [OF ok0] status_kept(5) [OF p1(1)] .
    moreover have "pc_step pc1 pc" using p1(2) pc_step_ok [OF calculation] mark_as_already_fetched_step pc_step_same by (auto split: if_splits)
    ultimately show ?thesis by (rule pc_step_trans)
  next
    case False
    then show ?thesis using a(1) pc_step_same [OF ok0] status_kept(3) by (auto simp: rust_simps split: if_splits)
  qed
  then have "log_inv D (set_pc s c pc)" using log_inv_set_pc [OF inv] pc_step_trans [OF s0] by blast
  then show ?thesis using continue_fetch_if_needed_inv [OF a(2)] return_unblocked_inv [OF a(3)] by blast
qed


lemma skip_inv: "mark_as_skippable pc i = Some pc' \<Longrightarrow> get_pc s c = Some pc \<Longrightarrow> log_inv D s \<Longrightarrow> log_inv D (set_pc s c pc')"
  using log_inv_step mark_as_skippable_step log_inv_pc_ok by blast

lemma found_inv:
  assumes "decrement_multi_search (entry_pc s c) = Some pc1" "log_inv D s"
  shows "mark_as_already_fetched pc1 i = Some pc2 \<Longrightarrow> log_inv D (set_pc s c pc2)"
    "mark_as_skippable pc1 i = Some pc2 \<Longrightarrow> log_inv D (set_pc s c pc2)"
proof -
  have s1: "pc_step (entry_pc s c) pc1" using pc_step_same [OF log_inv_entry_ok [OF assms(2)]] status_kept(4) [OF assms(1)] .
  show "mark_as_already_fetched pc1 i = Some pc2 \<Longrightarrow> log_inv D (set_pc s c pc2)"
    using log_inv_set_pc [OF assms(2)] pc_step_trans [OF s1] mark_as_already_fetched_step [OF pc_step_ok [OF s1]] by blast
  show "mark_as_skippable pc1 i = Some pc2 \<Longrightarrow> log_inv D (set_pc s c pc2)"
    using log_inv_set_pc [OF assms(2)] pc_step_trans [OF s1] mark_as_skippable_step [OF pc_step_ok [OF s1]] by blast
qed

lemma first_part_loop_inv:
  "first_part_loop s u ms fp fin sen wt locs = Some (ls, fin', wt', s') \<Longrightarrow> log_inv D s \<Longrightarrow> log_inv D s'"
proof (induction locs arbitrary: s fin sen wt ls)
  case (Cons loc locs)
  obtain o' i where loc: "loc = (o', i)" by (cases loc)
  show ?case
  proof (cases "o' = 0 \<or> (get_pc s o' = None \<and> \<not> fetch_boring_multis s)")
    case True
    then obtain sen' ls' where "first_part_loop s u ms fp fin sen' wt locs = Some (ls', fin', wt', s')"
      using Cons.prems(1) loc by (auto simp: rust_simps split: if_splits)
    then show ?thesis using Cons.IH Cons.prems(2) by blast
  next
    case False
    then obtain e s1 where f: "fetch_multi_parts s u o' i ms = Some (e, s1)"
      using Cons.prems(1) loc by (auto simp: rust_simps split: if_splits)
    have i1: "log_inv D s1" using fetch_multi_parts_inv [OF f Cons.prems(2)] .
    obtain s2 fin2 wt2 ls2 where "log_inv D s2" "first_part_loop s2 u ms fp fin2 sen wt2 locs = Some (ls2, fin', wt', s')"
    proof (cases e)
      case (Some ix)
      then show thesis using that i1 Cons.prems(1) loc False f by (auto simp: rust_simps split: if_splits)
    next
      case None
      show thesis
      proof (cases "get_pc s1 o'")
        case None
        then show thesis using that i1 Cons.prems(1) loc False f \<open>e = None\<close> by (auto simp: rust_simps split: if_splits)
      next
        case (Some pc)
        then show thesis using that i1 skip_inv [OF _ Some i1, of i] Cons.prems(1) loc False f None by (auto simp: rust_simps split: if_splits)
      qed
    qed
    then show ?thesis using Cons.IH by blast
  qed
qed simp

lemma later_part_loop_inv:
  "later_part_loop s fin sen locs = Some (ls, fin', s') \<Longrightarrow> log_inv D s \<Longrightarrow> log_inv D s'"
proof (induction locs arbitrary: s fin sen ls)
  case (Cons loc locs)
  obtain m n where loc: "loc = (m, n)" by (cases loc)
  obtain s2 fin2 sen2 ls2 where "log_inv D s2" "later_part_loop s2 fin2 sen2 locs = Some (ls2, fin', s')"
  proof (cases "fst m = 0")
    case True
    then show thesis using that Cons.prems loc by (auto simp: rust_simps)
  next
    case False
    then obtain m2 s2 ls2 where a: "(if snd m = 0 \<and> snd n \<noteq> 0 then do {
            pc \<leftarrow> decrement_multi_search (entry_pc s (fst n));
            pc \<leftarrow> if \<not> sen then mark_as_already_fetched pc (snd n) else mark_as_skippable pc (snd n);
            Some (n, set_pc s (fst n) pc)
          }
          else if snd m \<noteq> 0 \<and> snd n \<noteq> 0 then do {
            rust_assert (m = n);
            (case (sen, get_pc s (fst n)) of
               (True, Some pc) \<Rightarrow> do { pc \<leftarrow> mark_as_skippable pc (snd n); Some (m, set_pc s (fst n) pc) }
             | _ \<Rightarrow> Some (m, s))
          }
          else Some (m, s)) = Some (m2, s2)" "later_part_loop s2 (fin \<and> snd m2 \<noteq> 0) sen locs = Some (ls2, fin', s')"
      using Cons.prems(1) loc by (auto simp: rust_simps)
    have "log_inv D s2" using a(1) Cons.prems(2)
      by (auto simp: rust_simps split: if_splits bool.splits option.splits intro: found_inv skip_inv)
    then show thesis using that a(2) by blast
  qed
  then show ?case using Cons.IH by blast
qed simp


lemma update_multi_part_read_inv:
  assumes r: "update_multi_part_read s loc msg sen = Some (ms, s')" and inv: "log_inv D s"
  shows "log_inv D s'"
proof -
  obtain f locs pc where a: "pkt_flag msg = Some f" "pkt_locs msg = Some locs" "get_pc s (fst loc) = Some pc"
    using r by (auto simp: update_multi_part_read_def rust_simps Let_def split: option.splits if_splits)
  note ok = log_inv_pc_ok [OF inv a(3)]
  show ?thesis
  proof (cases "blocked_multiappends s (pkt_id msg)")
    case None
    show ?thesis
    proof (cases sen)
      case True
      then show ?thesis using r a None log_inv_step [OF inv a(3) add_early_sentinel_step [OF ok]]
        by (auto simp: update_multi_part_read_def rust_simps Let_def)
    next
      case False
      show ?thesis
      proof (cases "is_within_snapshot pc (snd loc) \<and> \<not> has_returned pc (snd loc)")
        case True
        then obtain ls fin wt s1 where "first_part_loop s (pkt_id msg) (bits_contains f fTakeLock) (\<not> bits_contains f fTakeLock) True False False locs = Some (ls, fin, wt, s1)"
            "s' = s1 \<or> (\<exists>bm. s' = s1\<lparr>blocked_multiappends := bm\<rparr>)"
          using r a None False by (auto simp: update_multi_part_read_def rust_simps Let_def split: if_splits)
        then show ?thesis using first_part_loop_inv inv by auto
      qed (use r a None False inv in \<open>auto simp: update_multi_part_read_def Let_def split: if_splits\<close>)
    qed
  next
    case (Some val)
    then obtain ml ls fin v s1 where l: "later_part_loop s True False (zip ml locs) = Some (ls, fin, s1)"
        "s' = (if fin then s1\<lparr>blocked_multiappends := (blocked_multiappends s1)(pkt_id msg := None)\<rparr>
               else s1\<lparr>blocked_multiappends := (blocked_multiappends s1)(pkt_id msg \<mapsto> v)\<rparr>)"
      using r a by (fastforce simp: update_multi_part_read_def rust_simps Let_def split: if_splits)
    then show ?thesis using later_part_loop_inv [OF l(1) inv] by simp
  qed
qed

section \<open>Messages\<close>

lemma return_snapshot_inv:
  assumes "(if return_snapshots s then do { let (sent, s) = send_read s (ReadOk msg); rust_assert sent; Some s } else Some s) = Some s'"
    "log_inv D s" "handed_locs (ReadOk msg) = []"
  shows "log_inv D s'"
  using assms send_read_inv(1) [OF assms(2,3)] by (auto simp: rust_simps split: if_splits prod.splits)

lemma give_snapshot_inv:
  assumes "(case get_pc s c of None \<Rightarrow> Some (None, s) | Some pc \<Rightarrow> do { (ub, pc) \<leftarrow> give_new_snapshot pc h; Some (ub, set_pc s c pc) }) = Some (ub, s')"
    "log_inv D s"
  shows "log_inv D s'"
  using assms by (auto simp: rust_simps split: option.splits intro: log_inv_kept status_kept)

lemma completed_snapshot_inv:
  assumes "completed_snapshot s loc msg = Some s'" "log_inv D s" "pkt_layout msg = Some LSnapshot"
  shows "log_inv D s'"
proof -
  obtain ub s1 s2 where a: "(case get_pc s (fst loc) of None \<Rightarrow> Some (None, s)
        | Some pc \<Rightarrow> do { (ub, pc) \<leftarrow> give_new_snapshot pc (snd loc); Some (ub, set_pc s (fst loc) pc) }) = Some (ub, s1)"
      "return_unblocked s1 ub = Some s2"
      "(if return_snapshots s2 then do { let (sent, s) = send_read s2 (ReadOk msg); rust_assert sent; Some s } else Some s2) = Some s'"
    using assms(1) by (auto simp: completed_snapshot_def rust_simps)
  show ?thesis by (rule return_snapshot_inv [OF a(3) return_unblocked_inv [OF a(2) give_snapshot_inv [OF a(1) assms(2)]]]) (simp add: assms(3))
qed

lemma completed_empty_read_inv:
  assumes "completed_empty_read s loc msg = Some s'" "log_inv D s" "pkt_layout msg = Some LRead"
  shows "log_inv D s'"
proof (cases "snd loc < u64_max")
  case True
  then show ?thesis using assms(1,2) log_inv_step overread_at_step log_inv_pc_ok
    by (fastforce simp: completed_empty_read_def rust_simps split: option.splits)
next
  case False
  show ?thesis
  proof (cases "get_pc s (fst loc)")
    case None
    then have "(if return_snapshots s then do { let (sent, s) = send_read s (ReadOk msg); rust_assert sent; Some s } else Some s) = Some s'"
      using assms(1) False by (auto simp: completed_empty_read_def return_unblocked_def rust_simps)
    then show ?thesis by (rule return_snapshot_inv [OF _ assms(2)]) (simp add: assms(3))
  next
    case (Some pc)
    then obtain h ub pc' lp s2 where a: "give_new_snapshot pc h = Some (ub, pc')" "return_unblocked (set_pc (s\<lparr>log_prefetch := lp\<rparr>) (fst loc) pc') ub = Some s2"
        "(if return_snapshots s2 then do { let (sent, s) = send_read s2 (ReadOk msg); rust_assert sent; Some s } else Some s2) = Some s'"
      using assms(1) False by (auto simp: completed_empty_read_def rust_simps Let_def)
    have "get_pc (s\<lparr>log_prefetch := lp\<rparr>) (fst loc) = Some pc" using Some by (simp add: get_pc_def)
    then have "log_inv D (set_pc (s\<lparr>log_prefetch := lp\<rparr>) (fst loc) pc')"
      using log_inv_kept status_kept(9) [OF a(1)] assms(2) by simp
    from return_snapshot_inv [OF a(3) return_unblocked_inv [OF a(2) this]] show ?thesis by (simp add: assms(3))
  qed
qed


lemma read_needed_inv: "read_needed s loc = Some (b, s') \<Longrightarrow> log_inv D s \<Longrightarrow> log_inv D s'"
  using log_inv_step got_read_step log_inv_pc_ok by (fastforce simp: read_needed_def rust_simps split: option.splits)

lemma log_inv_weaken: "log_inv (Scope C P) s \<Longrightarrow> log_inv (Scope C {}) s"
  by (simp add: log_inv_def held_def)

lemma log_inv_hold: "rc_new s p = (a, s') \<Longrightarrow> log_inv (Scope C {}) s \<Longrightarrow> log_inv (Scope C {(a, p)}) s'"
  by (auto simp: rc_new_def Let_def log_inv_def get_pc_def handed_def chain_hands_def held_def)

lemma log_inv_held: "log_inv (Scope C {(a, p)}) s \<Longrightarrow> rc_val s a = p"
  by (simp add: log_inv_def held_def)

lemma completed_single_inv:
  assumes "completed_single s loc msg = Some s'" "log_inv (Scope C {}) s" "pkt_locs msg = Some [loc]"
  shows "log_inv (Scope C {}) s'"
proof -
  obtain nd s1 where n: "read_needed s loc = Some (nd, s1)" using assms(1) by (auto simp: completed_single_def rust_simps)
  have i1: "log_inv (Scope C {}) s1" using read_needed_inv [OF n assms(2)] .
  obtain a s2 where rc: "rc_new s1 msg = (a, s2)" by (metis prod.exhaust)
  have i2: "log_inv (Scope C {(a, msg)}) s2" using log_inv_hold [OF rc i1] .
  show ?thesis
  proof (cases nd)
    case True
    then obtain tr s3 where s3: "add_blockers_at s2 loc a = Some (tr, s3)" "(if tr then try_returning_at s3 loc a else Some (rc_drop s3 a)) = Some s'"
      using assms(1) n rc by (auto simp: completed_single_def rust_simps)
    have i3: "log_inv (Scope C {(a, msg)}) s3" using add_blockers_at_inv [OF s3(1) i2] .
    show ?thesis
    proof (cases tr)
      case True
      then have r: "try_returning_at s3 loc a = Some s'" using s3(2) by simp
      show ?thesis by (rule log_inv_weaken [OF try_returning_at_inv [OF r i3]]) (simp add: log_inv_held [OF i3] assms(3))
    next
      case False
      then show ?thesis using s3(2) i3 log_inv_weaken by auto
    qed
  qed (use assms(1) n i1 in \<open>auto simp: completed_single_def rust_simps\<close>)
qed

lemma completed_multi_inv:
  assumes "completed_multi s loc msg sen = Some s'" "log_inv D s"
  shows "log_inv D s'"
proof -
  obtain nd s1 where n: "read_needed s loc = Some (nd, s1)" using assms(1) by (auto simp: completed_multi_def rust_simps)
  have i1: "log_inv D s1" using read_needed_inv [OF n assms(2)] .
  show ?thesis
  proof (cases nd)
    case True
    then obtain ms s2 where u: "update_multi_part_read s1 loc msg sen = Some (ms, s2)"
      using assms(1) n by (auto simp: completed_multi_def rust_simps)
    have i2: "log_inv D s2" using update_multi_part_read_inv [OF u i1] .
    show ?thesis
    proof (cases ms)
      case (SearchFinished m)
      obtain a s3 where rc: "rc_new s2 m = (a, s3)" by (metis prod.exhaust)
      then obtain tr s4 where "add_blockers s3 a = Some (tr, s4)" "(if tr then try_returning s4 a else Some (rc_drop s4 a)) = Some s'"
        using assms(1) n True u SearchFinished by (auto simp: completed_multi_def rust_simps)
      then show ?thesis using log_inv_rc_new [OF rc i2] add_blockers_inv try_returning_inv by (fastforce split: if_splits)
    next
      case (WaitForDeps m)
      obtain a s3 where rc: "rc_new s2 m = (a, s3)" by (metis prod.exhaust)
      then obtain r1 r2 s4 s5 where "wait_for_deps s3 a = Some (r1, s4)" "add_blockers s4 a = Some (r2, s5)"
          "(if r1 \<and> r2 then try_returning s5 a else Some (rc_drop s5 a)) = Some s'"
        using assms(1) n True u WaitForDeps by (auto simp: completed_multi_def rust_simps)
      then show ?thesis using log_inv_rc_new [OF rc i2] wait_for_deps_inv add_blockers_inv try_returning_inv by (fastforce split: if_splits)
    next
      case (BeyondHorizon m)
      then show ?thesis using assms(1) n True u log_inv_set_pc [OF i2 overread_at_step [OF log_inv_entry_ok [OF i2]]]
        by (auto simp: completed_multi_def rust_simps)
    qed (use assms(1) n True u i2 in \<open>auto simp: completed_multi_def rust_simps\<close>)
  qed (use assms(1) n i1 in \<open>auto simp: completed_multi_def rust_simps\<close>)
qed


text \<open>What the store promises of an answer: an entry on one chain comes with its own location. Entries that are
  flagged to be returned without their parts on other chains, and rewinding, are outside this theory.\<close>

fun msg_ok :: "message \<Rightarrow> bool" where
  "msg_ok (FromStore (ReadComplete loc p)) \<longleftrightarrow>
     (pkt_layout p = Some LData \<longrightarrow> pkt_locs p = Some [loc]) \<and>
     (pkt_layout p = Some LMultiput \<longrightarrow> (case pkt_flag p of Some f \<Rightarrow> \<not> bits_contains f fNoRemote | None \<Rightarrow> True))"
| "msg_ok (FromClient (Rewind loc)) \<longleftrightarrow> False"
| "msg_ok _ \<longleftrightarrow> True"

lemma handle_completed_read_inv:
  assumes "handle_completed_read s loc msg = Some s'" "log_inv (Scope C {}) s" "msg_ok (FromStore (ReadComplete loc msg))"
  shows "log_inv (Scope C {}) s'"
proof -
  obtain f l s1 where a: "pkt_flag msg = Some f" "pkt_layout msg = Some l"
    "(case l of LSnapshot \<Rightarrow> completed_snapshot s loc msg | LRead \<Rightarrow> completed_empty_read s loc msg | LData \<Rightarrow> completed_single s loc msg
       | LMultiput \<Rightarrow> if remote_style s \<noteq> Atomic \<and> bits_contains f fNoRemote then completed_no_remote s loc msg else completed_multi s loc msg False
       | LSentinel \<Rightarrow> completed_multi s loc msg True | LLock \<Rightarrow> None | LGC \<Rightarrow> None) = Some s1"
    "continue_fetch s1 (fst loc) = Some s'"
    using assms(1) by (auto simp: handle_completed_read_def rust_simps)
  have "log_inv (Scope C {}) s1"
    using a(1-3) assms(2,3) completed_snapshot_inv completed_empty_read_inv completed_single_inv completed_multi_inv
    by (cases l) auto
  then show ?thesis using continue_fetch_inv [OF a(4)] by blast
qed

lemma send_write_unaffected: "log_inv D s \<Longrightarrow> send_write s r = (b, s') \<Longrightarrow> log_inv D s'"
  by (auto simp: send_write_def split: if_splits elim!: log_inv_same)

lemma handle_from_store_inv:
  assumes "handle_from_store s msg = Some s'" "log_inv (Scope C {}) s" "msg_ok (FromStore msg)"
  shows "log_inv (Scope C {}) s'"
proof (cases msg)
  case (WriteComplete i locs)
  let ?s = "if my_colors_chains s \<noteq> [] then see_all s locs else s"
  have "log_inv (Scope C {}) ?s" using assms(2) by simp
  then show ?thesis using assms(1) WriteComplete send_write_unaffected [of _ ?s]
    by (auto simp: Let_def split: if_splits prod.splits bool.splits)
next
  case (ReadComplete loc p)
  then show ?thesis using assms handle_completed_read_inv by simp
next
  case (IoError kind server)
  then obtain err s1 where e: "make_error s kind server = Some (err, s1)" using assms(1) by (auto simp: rust_simps)
  have i1: "log_inv (Scope C {}) s1" using e assms(2) by (auto simp: make_error_def rust_simps)
  obtain e1 s2 where w: "(if ack_writes s1 then send_write s1 (WriteErr err) else (True, s1)) = (e1, s2)" by (metis prod.exhaust)
  have "log_inv (Scope C {}) s2" using w i1 send_write_unaffected by (auto split: if_splits)
  then have "log_inv (Scope C {}) (snd (send_read s2 (ReadErr err)))" by (simp add: send_read_inv)
  then show ?thesis using assms(1) IoError e w by (auto simp: rust_simps Let_def split: prod.splits if_splits)
qed

lemma prefetch_inv: "prefetch s c = Some s' \<Longrightarrow> log_inv D s \<Longrightarrow> log_inv D s'"
  using log_inv_kept status_kept(1) fetch_next_inv
  by (auto simp: prefetch_def rust_simps Let_def split: option.splits)

lemma fetch_snapshot_inv: "fetch_snapshot s c = Some s' \<Longrightarrow> log_inv D s \<Longrightarrow> log_inv D s'"
  by (auto simp: fetch_snapshot_def make_read_packet_def intro: send_store_inv)

lemma snapshot_chains_inv: "snapshot_chains s cs = Some s' \<Longrightarrow> log_inv D s \<Longrightarrow> log_inv D s'"
proof (induction cs arbitrary: s)
  case (Cons c cs)
  then obtain s1 s2 where "fetch_snapshot s c = Some s1" "prefetch s1 c = Some s2" "snapshot_chains s2 cs = Some s'" by (auto simp: rust_simps)
  then show ?case using Cons.IH Cons.prems(2) fetch_snapshot_inv prefetch_inv by blast
qed simp

lemma prefetch_chains_inv: "prefetch_chains s cs = Some s' \<Longrightarrow> log_inv D s \<Longrightarrow> log_inv D s'"
  by (induction cs arbitrary: s) (auto simp: rust_simps intro: prefetch_inv)

lemma give_entry_inv:
  assumes "give_new_snapshot pc h = Some (ub, pc')" "read_status pc = read_status (entry_pc s c)" "log_inv D s"
  shows "log_inv D (set_pc s c pc')"
  using log_inv_kept_entry [OF assms(3)] status_kept(9) [OF assms(1)] assms(2) by simp

lemma read_until_inv:
  assumes "handle_from_client s u (ReadUntil loc) = Some (b, s')" "log_inv D s"
  shows "log_inv D s'"
proof -
  let ?s = "count_snapshot s"
  obtain pc ub pc' s1 where a: "increment_outstanding_snapshots (entry_pc ?s (fst loc)) = Some pc" "give_new_snapshot pc (snd loc) = Some (ub, pc')"
      "return_unblocked (set_pc ?s (fst loc) pc') ub = Some s1" "continue_fetch s1 (fst loc) = Some s'"
    using assms(1) by (auto simp: rust_simps Let_def)
  have "log_inv D (set_pc ?s (fst loc) pc')" using give_entry_inv [OF a(2) status_kept(1) [OF a(1)]] assms(2) by simp
  then show ?thesis using return_unblocked_inv [OF a(3)] continue_fetch_inv [OF a(4)] by blast
qed

lemma perform_append_inv: "perform_append s p = Some s' \<Longrightarrow> log_inv D s \<Longrightarrow> log_inv D s'"
  using send_store_inv by (auto simp: perform_append_def Let_def rust_simps split: if_splits)

lemma handle_from_client_inv:
  assumes "handle_from_client s u msg = Some (b, s')" "log_inv D s" "msg_ok (FromClient msg)"
  shows "log_inv D s'"
proof (cases msg)
  case (ReadUntil loc)
  then show ?thesis using read_until_inv assms by blast
next
  case (Fastforward loc)
  then show ?thesis using assms give_entry_inv [of "entry_pc s (fst loc)"] by (auto simp: rust_simps)
next
  case (StrongSnapshotAndPrefetch locs)
  then obtain s1 where "fetch_strong_snapshot (count_snapshot s) u locs = Some s1" "prefetch_chains s1 (map fst locs) = Some s'"
    using assms(1) by (auto simp: rust_simps)
  then show ?thesis using send_store_inv prefetch_chains_inv assms(2) by (fastforce simp: fetch_strong_snapshot_def)
next
  case (SnapshotAndPrefetch c)
  then show ?thesis using assms snapshot_chains_inv by (auto simp: rust_simps Let_def)
next
  case (MultiSnapshotAndPrefetch cs)
  then show ?thesis using assms snapshot_chains_inv by (auto simp: rust_simps)
next
  case (PerformAppend p)
  then show ?thesis using assms perform_append_inv by (auto simp: rust_simps)
qed (use assms in auto)

lemma log_run_inv:
  "log_run s msgs = Some s' \<Longrightarrow> log_inv (Scope C {}) s \<Longrightarrow> list_all (\<lambda>(_, msg). msg_ok msg) msgs \<Longrightarrow> log_inv (Scope C {}) s'"
proof (induction msgs arbitrary: s)
  case (Cons m msgs)
  obtain u msg where m: "m = (u, msg)" by (cases m)
  show ?case
  proof (cases "log_finished s")
    case False
    then obtain b s1 where h: "handle_message s u msg = Some (b, s1)" "(if b then log_run s1 msgs else Some s1) = Some s'"
      using Cons.prems(1) m by (auto simp: rust_simps)
    have "log_inv (Scope C {}) s1"
    proof (cases msg)
      case (FromStore x)
      then show ?thesis using h(1) Cons.prems m handle_from_store_inv by (auto simp: rust_simps)
    next
      case (FromClient x)
      then show ?thesis using h(1) Cons.prems m handle_from_client_inv by auto
    qed
    then show ?thesis using Cons.IH h(2) Cons.prems m by (auto split: if_splits)
  qed (use Cons m in auto)
qed simp

lemma log_build_inv:
  assumes "C \<subseteq> set (case colors of Some ms \<Rightarrow> ms | None \<Rightarrow> cs)" "0 \<notin> C"
  shows "log_inv (Scope C {}) (log_build cs ack sn bo st colors)"
proof -
  let ?s = "log_build cs ack sn bo st colors"
  have g: "get_pc ?s c = (if c \<in> set (case colors of Some ms \<Rightarrow> ms | None \<Rightarrow> cs) then Some (interesting c) else None)" for c
    by (auto simp: get_pc_def log_build_def map_of_map_restrict restrict_map_def)
  have "handed ?s c = []" for c by (simp add: handed_def log_build_def)
  moreover have "0 < c" if "c \<in> C" for c using that assms(2) by (cases c) auto
  ultimately show ?thesis using assms per_color_new_ok(2) by (auto simp: log_inv_def g chain_hands_def pc.hands_def held_def)
qed


section \<open>Properties\<close>

lemma unblock_rest_stop: "no_longer_blocked s = [] \<Longrightarrow> unblock_rest s = Some s"
  by (simp add: unblock_rest.simps)

lemma unblock_rest_go:
  "no_longer_blocked s \<noteq> [] \<Longrightarrow> unblock_rest s =
     Option.bind (try_return_blocked_by (s\<lparr>no_longer_blocked := butlast (no_longer_blocked s)\<rparr>) (List.last (no_longer_blocked s))) unblock_rest"
  using unblock_rest.simps [of s] by simp

lemmas log_eval = log_build_def send_store_def send_read_def send_read_or_finish_def cache_alloc_def cache_flush_def get_pc_def set_pc_def entry_pc_def
  rc_new_def rc_clone_def rc_drop_def rc_unique_def push_blocked_def see_entry_def see_all_def make_read_packet_def fetch_next_def
  prefetch_range_def prefetch_def enqueue_packet_def return_entry_at_def return_entry_def try_return_blocked_by_def stop_blocking_on_def
  return_unblocked_def fetch_blocker_at_def fetch_blockers_if_needed_def try_returning_at_def try_returning_def add_blockers_at_def
  server_is_finished_def continue_fetch_if_needed_def finshed_reading_def continue_fetch_def read_needed_def completed_single_def
  fetch_snapshot_def completed_multi_def update_multi_part_read_def add_blockers_def ensure_read_def
  block_on_snapshot_def currently_buffering_def  handle_completed_read_def count_snapshot_def usize_saturating_add_def unblock_rest_stop unblock_rest_go upt_conv_Cons upt_conv_Nil
  per_color_new_def interesting_def pc_next_return_is_def has_returned_def is_within_snapshot_def is_searching_for_multi_def
  has_outstanding_snapshots_def has_read_state_def has_outstanding_reads_def has_pending_reads_reqs_def finished_until_snapshot_def
  is_finished_def no_reads_below_def set_finished_reading_def drop_if_finished_def set_returned_def got_read_def
  increment_outstanding_snapshots_def decrement_outstanding_snapshots_def entry_is_unblocked_def update_horizon_def give_new_snapshot_def
  next_range_to_fetch_def max_pipelined_def fetching_range_def has_more_multi_search_than_outstanding_reads_def
  read_state_new_def read_state_is_finished_def u32_add_def
  range_new_def range_point_def range_cmp_def merge_with_next_def merge_with_prior_def split_at_def range_remove_def spans_def range_len_def
  remove_from_map_def merge_kind_def try_merge_with_next_def try_merge_with_prior_def range_tree_new_def tree_invariant_def put_around_def
  set_point_as_def set_point_as_recvd_def set_point_as_returned_def set_range_as_sent_def is_returned_def next_return_is_def
  first_outstanding_def min_range_to_fetch_def u64_max_def u64_add_def u64_sub_def rust_assert_def cmp_u64_def Let_def
  pkt_layout_def kind_layout_def kind_values fReadSuccess_def fNothing_def fNoRemote_def fTakeLock_def bits_contains_def

text \<open>C1: along every run of the log thread from a new log in which every message satisfies \<^const>\<open>msg_ok\<close>, on
  every chain of interest, entries are handed to the application with strictly increasing indices, so each
  once, and what was handed over is marked as returned. The restriction is on three things: nothing is rewound,
  which would hand over entries again; no multi-append is flagged to be returned without its parts on other
  chains, since it may be handed over once for each chain; and the store delivers an entry of one chain under
  the entry's own location.\<close>

theorem handed_over_in_order:
  assumes "log_run (log_build cs ack sn bo st None) msgs = Some s" "list_all (\<lambda>(_, msg). msg_ok msg) msgs" "c \<in> set cs" "c \<noteq> 0"
  shows "sorted_wrt (<) (handed s c) \<and> list_all (\<lambda>i. \<exists>pc. get_pc s c = Some pc \<and> has_returned pc i) (handed s c)"
proof -
  have "log_inv (Scope {c} {}) s" using log_run_inv [OF assms(1) log_build_inv assms(2), of "{c}"] assms(3,4) by simp
  then show ?thesis by (auto simp: log_inv_def chain_hands_def pc.hands_def list_all_iff)
qed

definition demo_read :: "uuid \<Rightarrow> order_index \<Rightarrow> order_index list \<Rightarrow> packet" where
  "demo_read i loc deps = PSingle i fReadSuccess loc deps [] 0"

theorem handed_over_in_order_witness:
  "\<exists>s. log_run (log_build [1] False False False NoConnection None)
      [(0, FromClient (ReadUntil (1, 2))), (0, FromStore (ReadComplete (1, 2) (demo_read 12 (1, 2) []))),
       (0, FromStore (ReadComplete (1, 1) (demo_read 11 (1, 1) [])))] = Some s \<and>
    ready_reads s = [ReadOk (demo_read 11 (1, 1) []), ReadOk (demo_read 12 (1, 2) []), ReadDone] \<and> sorted_wrt (<) (handed s 1)"
proof -
  let ?ms = "[(0, FromClient (ReadUntil (1, 2))), (0, FromStore (ReadComplete (1, 2) (demo_read 12 (1, 2) []))),
       (0, FromStore (ReadComplete (1, 1) (demo_read 11 (1, 1) [])))]"
  obtain s where s: "log_run (log_build [1] False False False NoConnection None) ?ms = Some s"
      "ready_reads s = [ReadOk (demo_read 11 (1, 1) []), ReadOk (demo_read 12 (1, 2) []), ReadDone]"
    by (simp add: log_eval demo_read_def)
  have "list_all (\<lambda>(_, msg). msg_ok msg) ?ms" by (simp add: demo_read_def log_eval)
  from handed_over_in_order [OF s(1) this, of 1] show ?thesis using s by auto
qed

end
