(* ===== verification/Client_Handle.thy ===== *)
theory Client_Handle
  imports Client_Log
begin

text \<open>
  The handle an application holds (\<^verbatim>\<open>fuzzy_log_client/src/fuzzy_log/log_handle.rs\<close>): what it sends to the log
  thread for each call, and how it takes entries, finished snapshots, finished appends and errors from the two
  channels the thread sends them on. A channel is the list of what is waiting in it; a call that waits on an
  empty channel does not return and is \<open>None\<close>, as a panic is. \<open>LogHandle\<close> is its two halves \<open>ReadHandle\<close> and
  \<open>WriteHandle\<close>, which share the channel to the log, in one record; the identifier \<open>Uuid::new_v4\<close> draws is an
  argument, and the callback of \<open>sync\<close> is a function on the state it captures.
\<close>

unbundle bit_operations_syntax

section \<open>State\<close>

datatype get_res = GNothingReady | GDone | GIoErr io_error_kind nat | GAlreadyGCd order entry

datatype try_wait_res = WNothingReady | WIoErr io_error_kind nat

record event =
  ev_id :: uuid
  ev_data :: "byte list"
  ev_inhabits :: "order_index list"
  ev_happens_after :: "order_index list"

record log_handle =
  to_log :: "from_client list"
  log_up :: bool
  last_dropped :: nat
  h_snapshots :: nat
  h_reads :: "read_result list"
  curr_entry :: "packet option"
  read_errors :: u64
  h_writes :: "write_result list"
  num_async_writes :: "nat option"
  write_errors :: u64

text \<open>\<open>LogHandle::new\<close>; both halves hold a reference to \<open>last_dropped\<close>.\<close>

definition handle_new :: "bool \<Rightarrow> log_handle" where
  "handle_new ack =
     \<lparr>to_log = [], log_up = True, last_dropped = 2, h_snapshots = 0, h_reads = [], curr_entry = None, read_errors = 0,
      h_writes = [], num_async_writes = (if ack then Some 0 else None), write_errors = 0\<rparr>"

text \<open>\<open>build_with_store\<close>: the log thread, which nothing has been sent to yet, and its handle.\<close>

definition build_with_store :: "order list \<Rightarrow> bool \<Rightarrow> bool \<Rightarrow> order list option \<Rightarrow> (thread_log \<times> log_handle) option" where
  "build_with_store cs boring ack colors = do {
     rust_assert (0 \<notin> set cs);
     Some (log_build cs ack False boring NoConnection colors, handle_new ack)
   }"

text \<open>\<open>with_store\<close>: the thread acknowledges appends, but the handle is told that it does not.\<close>

definition with_store :: "order list \<Rightarrow> bool \<Rightarrow> (thread_log \<times> log_handle) option" where
  "with_store cs boring = do {
     rust_assert (0 \<notin> set cs);
     Some (log_build cs True False boring NoConnection None, handle_new False)
   }"

definition h_send :: "log_handle \<Rightarrow> from_client \<Rightarrow> log_handle option" where
  "h_send h m = do { rust_assert (log_up h); Some (h\<lparr>to_log := to_log h @ [m]\<rparr>) }"

text \<open>A send whose failure is ignored.\<close>

definition h_send_ignore :: "log_handle \<Rightarrow> from_client \<Rightarrow> log_handle" where
  "h_send_ignore h m = (if log_up h then h\<lparr>to_log := to_log h @ [m]\<rparr> else h)"

text \<open>Dropping one half: the last one to go stops the log thread.\<close>

definition drop_half :: "log_handle \<Rightarrow> log_handle" where
  "drop_half h =
     (let h = (if last_dropped h = 1 then h_send_ignore h Shutdown else h) in h\<lparr>last_dropped := last_dropped h - 1\<rparr>)"

text \<open>Dropping a \<open>LogHandle\<close> stops the thread first and then drops both halves.\<close>

definition drop_handle :: "log_handle \<Rightarrow> log_handle" where
  "drop_handle h = drop_half (drop_half (h_send_ignore h Shutdown))"

section \<open>Reading\<close>

definition count_handle_snapshot :: "log_handle \<Rightarrow> log_handle" where
  "count_handle_snapshot h = h\<lparr>h_snapshots := usize_saturating_add (h_snapshots h) 1\<rparr>"

definition read_snapshot :: "log_handle \<Rightarrow> order \<Rightarrow> log_handle option" where
  "read_snapshot h chain = h_send (count_handle_snapshot h) (SnapshotAndPrefetch chain)"

definition snapshot_colors :: "log_handle \<Rightarrow> order list \<Rightarrow> log_handle option" where
  "snapshot_colors h colors = h_send (count_handle_snapshot h) (MultiSnapshotAndPrefetch colors)"

definition strong_snapshot :: "log_handle \<Rightarrow> order list \<Rightarrow> log_handle option" where
  "strong_snapshot h colors = h_send (count_handle_snapshot h) (StrongSnapshotAndPrefetch (map (\<lambda>o'. (o', 0)) colors))"

definition take_snapshot :: "log_handle \<Rightarrow> log_handle option" where
  "take_snapshot h = h_send (count_handle_snapshot h) (SnapshotAndPrefetch 0)"

definition handle_read_until :: "log_handle \<Rightarrow> order_index \<Rightarrow> log_handle option" where
  "handle_read_until h loc = do { h \<leftarrow> h_send h (ReadUntil loc); Some (count_handle_snapshot h) }"

definition handle_fastforward :: "log_handle \<Rightarrow> order_index \<Rightarrow> log_handle option" where
  "handle_fastforward h loc = h_send h (Fastforward loc)"

definition handle_rewind :: "log_handle \<Rightarrow> order_index \<Rightarrow> log_handle option" where
  "handle_rewind h loc = h_send h (Rewind loc)"

definition make_read_error :: "log_handle \<Rightarrow> log_error \<Rightarrow> (get_res option \<times> log_handle) option" where
  "make_read_error h e =
     (if read_errors h < error_num e then do {
        n \<leftarrow> u64_add (read_errors h) 1;
        rust_assert (n = error_num e);
        Some (Some (GIoErr (error_kind e) (error_server e)), h\<lparr>read_errors := n\<rparr>)
      } else Some (None, h))"

text \<open>\<open>mem::replace\<close> of the current entry, whose buffer goes back to the log.\<close>

definition replace_entry :: "log_handle \<Rightarrow> packet option \<Rightarrow> log_handle option" where
  "replace_entry h read =
     (case curr_entry h of
        None \<Rightarrow> Some (h\<lparr>curr_entry := read\<rparr>)
      | Some old \<Rightarrow> h_send (h\<lparr>curr_entry := read\<rparr>) (ReturnBuffer old))"

text \<open>The loop \<open>'recv\<close> over what is in the channel; \<open>block\<close> tells \<open>recv\<close> from \<open>try_recv\<close>.\<close>

fun recv_read :: "bool \<Rightarrow> log_handle \<Rightarrow> read_result list \<Rightarrow> ((get_res + packet) \<times> log_handle) option" where
  "recv_read block h [] = (if block then None else Some (Inl GNothingReady, h\<lparr>h_reads := []\<rparr>))"
| "recv_read block h (ReadErr e # rs) = do {
     (err, h) \<leftarrow> make_read_error h e;
     (case err of
        Some err \<Rightarrow> Some (Inl err, h\<lparr>h_reads := rs\<rparr>)
      | None \<Rightarrow> recv_read block h rs)
   }"
| "recv_read block h (ReadOk p # rs) = do {
     h \<leftarrow> replace_entry h (Some p);
     Some (Inr p, h\<lparr>h_reads := rs\<rparr>)
   }"
| "recv_read block h (ReadDone # rs) = do {
     h \<leftarrow> replace_entry h None;
     rust_assert (0 < h_snapshots h);
     n \<leftarrow> u64_sub (h_snapshots h) 1;
     let h = h\<lparr>h_snapshots := n\<rparr>;
     if n = 0 then Some (Inl GDone, h\<lparr>h_reads := rs\<rparr>) else recv_read block h rs
   }"

definition event_of :: "packet \<Rightarrow> event option" where
  "event_of p = do {
     d \<leftarrow> pkt_data p;
     locs \<leftarrow> pkt_locs p;
     deps \<leftarrow> dependencies p;
     Some \<lparr>ev_id = pkt_id p, ev_data = d, ev_inhabits = locs, ev_happens_after = deps\<rparr>
   }"

definition next_event :: "bool \<Rightarrow> log_handle \<Rightarrow> ((get_res + event) \<times> log_handle) option" where
  "next_event block h =
     (if h_snapshots h = 0 then Some (Inl GDone, h)
      else do {
        (r, h) \<leftarrow> recv_read block h (h_reads h);
        (case r of
           Inl e \<Rightarrow> Some (Inl e, h)
         | Inr p \<Rightarrow> do { e \<leftarrow> event_of p; Some (Inr e, h) })
      })"

definition get_next_event :: "log_handle \<Rightarrow> ((get_res + event) \<times> log_handle) option" where
  "get_next_event h = next_event True h"

definition try_get_next_event :: "log_handle \<Rightarrow> ((get_res + event) \<times> log_handle) option" where
  "try_get_next_event h = next_event False h"


lemma replace_entry_keeps:
  "replace_entry h r = Some h' \<Longrightarrow> h_reads h' = h_reads h \<and> h_snapshots h' = h_snapshots h \<and> read_errors h' = read_errors h"
  by (auto simp: replace_entry_def h_send_def rust_simps split: option.splits)

lemma make_read_error_keeps:
  "make_read_error h e = Some (r, h') \<Longrightarrow> h_reads h' = h_reads h \<and> h_snapshots h' = h_snapshots h"
  by (auto simp: make_read_error_def rust_simps split: if_splits)

lemma recv_read_shorter:
  "recv_read block h rs = Some (Inr p, h') \<Longrightarrow> length (h_reads h') < length rs"
proof (induction rs arbitrary: h)
  case (Cons r rs)
  then show ?case
    by (cases r) (auto simp: rust_simps Let_def less_Suc_eq dest: replace_entry_keeps split: if_splits option.splits)
qed (auto split: if_splits)

lemma next_event_shorter:
  assumes "next_event block h = Some (Inr e, h')"
  shows "length (h_reads h') < length (h_reads h)"
proof -
  obtain r h1 where r: "recv_read block h (h_reads h) = Some (r, h1)"
    using assms by (auto simp: next_event_def rust_simps split: if_splits)
  then show ?thesis
    using assms by (cases r) (auto simp: next_event_def rust_simps dest: recv_read_shorter split: if_splits)
qed

text \<open>The largest index seen on each chain.\<close>

fun see_locs :: "(order \<rightharpoonup> entry) \<Rightarrow> order_index list \<Rightarrow> (order \<rightharpoonup> entry)" where
  "see_locs seen [] = seen"
| "see_locs seen ((o', i) # locs) =
     see_locs (seen(o' \<mapsto> (case seen o' of Some l \<Rightarrow> if l \<le> i then i else l | None \<Rightarrow> i))) locs"

function do_sync_with ::
  "('s \<Rightarrow> event \<Rightarrow> 's option) \<Rightarrow> log_handle \<Rightarrow> 's \<Rightarrow> (order \<rightharpoonup> entry) \<Rightarrow> ((get_res + (order \<rightharpoonup> entry)) \<times> 's \<times> log_handle) option" where
  "do_sync_with per_event h st entries_seen =
     (case get_next_event h of
        None \<Rightarrow> None
      | Some (Inr e, h') \<Rightarrow>
          (case per_event st e of
             None \<Rightarrow> None
           | Some st \<Rightarrow> do_sync_with per_event h' st (see_locs entries_seen (ev_inhabits e)))
      | Some (Inl GDone, h') \<Rightarrow> Some (Inr entries_seen, st, h')
      | Some (Inl e, h') \<Rightarrow> Some (Inl e, st, h'))"
  by pat_completeness auto

termination do_sync_with
  by (relation "measure (\<lambda>(_, h, _). length (h_reads h))") (auto simp: get_next_event_def dest: next_event_shorter)

declare do_sync_with.simps [simp del]

definition sync_with ::
  "('s \<Rightarrow> event \<Rightarrow> 's option) \<Rightarrow> log_handle \<Rightarrow> 's \<Rightarrow> ((get_res + (order \<rightharpoonup> entry)) \<times> 's \<times> log_handle) option" where
  "sync_with per_event h st = do { h \<leftarrow> take_snapshot h; do_sync_with per_event h st Map.empty }"

definition sync_chain ::
  "('s \<Rightarrow> event \<Rightarrow> 's option) \<Rightarrow> log_handle \<Rightarrow> order \<Rightarrow> 's \<Rightarrow> ((get_res + (order \<rightharpoonup> entry)) \<times> 's \<times> log_handle) option" where
  "sync_chain per_event h chain st = do { h \<leftarrow> read_snapshot h chain; do_sync_with per_event h st Map.empty }"

text \<open>The variants that pass the whole event.\<close>

definition sync_events ::
  "('s \<Rightarrow> event \<Rightarrow> 's option) \<Rightarrow> log_handle \<Rightarrow> 's \<Rightarrow> ((get_res + (order \<rightharpoonup> entry)) \<times> 's \<times> log_handle) option" where
  "sync_events per_event h st = do { h \<leftarrow> take_snapshot h; do_sync_with per_event h st Map.empty }"

definition sync_events_for_chain ::
  "('s \<Rightarrow> event \<Rightarrow> 's option) \<Rightarrow> log_handle \<Rightarrow> order \<Rightarrow> 's \<Rightarrow> ((get_res + (order \<rightharpoonup> entry)) \<times> 's \<times> log_handle) option" where
  "sync_events_for_chain per_event h chain st = do { h \<leftarrow> read_snapshot h chain; do_sync_with per_event h st Map.empty }"

definition get_next2 :: "log_handle \<Rightarrow> ((get_res + byte list \<times> order_index list \<times> uuid) \<times> log_handle) option" where
  "get_next2 h = do { (r, h) \<leftarrow> get_next_event h; Some (map_sum (\<lambda>e. e) (\<lambda>e. (ev_data e, ev_inhabits e, ev_id e)) r, h) }"

definition get_next :: "log_handle \<Rightarrow> ((get_res + byte list \<times> order_index list) \<times> log_handle) option" where
  "get_next h = do { (r, h) \<leftarrow> get_next2 h; Some (map_sum (\<lambda>e. e) (\<lambda>(v, l, _). (v, l)) r, h) }"

definition try_get_next2 :: "log_handle \<Rightarrow> ((get_res + byte list \<times> order_index list \<times> uuid) \<times> log_handle) option" where
  "try_get_next2 h = do { (r, h) \<leftarrow> try_get_next_event h; Some (map_sum (\<lambda>e. e) (\<lambda>e. (ev_data e, ev_inhabits e, ev_id e)) r, h) }"

definition try_get_next :: "log_handle \<Rightarrow> ((get_res + byte list \<times> order_index list) \<times> log_handle) option" where
  "try_get_next h = do { (r, h) \<leftarrow> try_get_next2 h; Some (map_sum (\<lambda>e. e) (\<lambda>(v, l, _). (v, l)) r, h) }"

section \<open>Appending\<close>

text \<open>\<open>AtomicWriteHandle\<close>: the packets of the appends.\<close>

definition single_append :: "uuid \<Rightarrow> order \<Rightarrow> byte list \<Rightarrow> order_index list \<Rightarrow> packet" where
  "single_append i chain data deps = PSingle i fNothing (chain, 0) deps data 0"

text \<open>Sorted and without duplicates; with one chain left it is an append to that chain.\<close>

definition multi_append :: "flag \<Rightarrow> uuid \<Rightarrow> order list \<Rightarrow> byte list \<Rightarrow> order_index list \<Rightarrow> packet option" where
  "multi_append flags i cs data deps = do {
     rust_assert (1 < length cs);
     let locs = remdups_adj (sort (map (\<lambda>o'. (o', 0)) cs));
     (case locs of
        [] \<Rightarrow> None
      | [(o', _)] \<Rightarrow> Some (single_append i o' data deps)
      | _ \<Rightarrow> Some (PMulti i flags 0 locs deps data))
   }"

definition dependent_append :: "uuid \<Rightarrow> order list \<Rightarrow> order list \<Rightarrow> byte list \<Rightarrow> order_index list \<Rightarrow> packet option" where
  "dependent_append i cs depends_on data deps = do {
     rust_assert (0 < length depends_on);
     let n = length cs;
     let mchains = remdups_adj (sort (map (\<lambda>c. (c, 0)) cs) @ (0, 0) # sort (map (\<lambda>c. (c, 0)) depends_on));
     rust_assert (n < length mchains \<and> mchains ! n = (0, 0));
     rust_assert (list_all (\<lambda>(o', _). o' \<in> set cs) (take n mchains));
     rust_assert (list_all (\<lambda>(o', _). o' \<in> set depends_on) (drop (n + 1) mchains));
     Some (PMulti i fNothing 0 mchains deps data)
   }"

text \<open>\<open>WriteHandle\<close> counts the appends it may wait for.\<close>

definition send_append :: "log_handle \<Rightarrow> packet \<Rightarrow> log_handle option" where
  "send_append h p = do {
     h \<leftarrow> h_send h (PerformAppend p);
     n \<leftarrow> (case num_async_writes h of None \<Rightarrow> Some None | Some n \<Rightarrow> do { n \<leftarrow> u64_add n 1; Some (Some n) });
     Some (h\<lparr>num_async_writes := n\<rparr>)
   }"

definition async_append :: "log_handle \<Rightarrow> uuid \<Rightarrow> order \<Rightarrow> byte list \<Rightarrow> order_index list \<Rightarrow> (uuid \<times> log_handle) option" where
  "async_append h i chain data deps = do { h \<leftarrow> send_append h (single_append i chain data deps); Some (i, h) }"

definition async_multiappend :: "log_handle \<Rightarrow> uuid \<Rightarrow> order list \<Rightarrow> byte list \<Rightarrow> order_index list \<Rightarrow> (uuid \<times> log_handle) option" where
  "async_multiappend h i cs data deps = do {
     p \<leftarrow> multi_append fNothing i cs data deps;
     h \<leftarrow> send_append h p;
     Some (i, h)
   }"

definition async_no_remote_multiappend ::
  "log_handle \<Rightarrow> uuid \<Rightarrow> order list \<Rightarrow> byte list \<Rightarrow> order_index list \<Rightarrow> (uuid \<times> log_handle) option" where
  "async_no_remote_multiappend h i cs data deps = do {
     p \<leftarrow> multi_append fNoRemote i cs data deps;
     h \<leftarrow> send_append h p;
     Some (i, h)
   }"

definition async_dependent_multiappend ::
  "log_handle \<Rightarrow> uuid \<Rightarrow> order list \<Rightarrow> order list \<Rightarrow> byte list \<Rightarrow> order_index list \<Rightarrow> (uuid \<times> log_handle) option" where
  "async_dependent_multiappend h i cs depends_on data deps = do {
     p \<leftarrow> dependent_append i cs depends_on data deps;
     h \<leftarrow> send_append h p;
     Some (i, h)
   }"

section \<open>Waiting for appends\<close>

definition to_wait_error :: "log_handle \<Rightarrow> log_error \<Rightarrow> (try_wait_res option \<times> log_handle) option" where
  "to_wait_error h e =
     (if write_errors h < error_num e then do {
        n \<leftarrow> u64_add (write_errors h) 1;
        rust_assert (n = error_num e);
        Some (Some (WIoErr (error_kind e) (error_server e)), h\<lparr>write_errors := n\<rparr>)
      } else Some (None, h))"

text \<open>\<open>num_async_writes.as_mut().map(|n| *n -= 1)\<close>\<close>

definition count_write :: "log_handle \<Rightarrow> log_handle option" where
  "count_write h =
     (case num_async_writes h of
        None \<Rightarrow> Some h
      | Some n \<Rightarrow> do { n \<leftarrow> u64_sub n 1; Some (h\<lparr>num_async_writes := Some n\<rparr>) })"

definition try_wait_for_any_append :: "log_handle \<Rightarrow> ((try_wait_res + uuid \<times> order_index list) \<times> log_handle) option" where
  "try_wait_for_any_append h =
     (if num_async_writes h = Some 0 then Some (Inl WNothingReady, h)
      else case h_writes h of
        [] \<Rightarrow> Some (Inl WNothingReady, h)
      | WriteErr e # ws \<Rightarrow> do {
          (err, h) \<leftarrow> to_wait_error (h\<lparr>h_writes := ws\<rparr>) e;
          Some (Inl (case err of Some err \<Rightarrow> err | None \<Rightarrow> WNothingReady), h)
        }
      | WriteOk i locs # ws \<Rightarrow> do {
          h \<leftarrow> count_write (h\<lparr>h_writes := ws\<rparr>);
          Some (Inr (i, locs), h)
        })"

fun recv_write :: "log_handle \<Rightarrow> write_result list \<Rightarrow> ((try_wait_res + uuid \<times> order_index list) \<times> log_handle) option" where
  "recv_write h [] = None"
| "recv_write h (WriteOk i locs # ws) = do {
     h \<leftarrow> count_write (h\<lparr>h_writes := ws\<rparr>);
     Some (Inr (i, locs), h)
   }"
| "recv_write h (WriteErr e # ws) = do {
     (err, h) \<leftarrow> to_wait_error (h\<lparr>h_writes := ws\<rparr>) e;
     (case err of
        Some err \<Rightarrow> Some (Inl err, h)
      | None \<Rightarrow> recv_write h ws)
   }"

definition wait_for_any_append :: "log_handle \<Rightarrow> ((try_wait_res + uuid \<times> order_index list) \<times> log_handle) option" where
  "wait_for_any_append h =
     (case num_async_writes h of
        Some 0 \<Rightarrow> Some (Inl WNothingReady, h)
      | None \<Rightarrow> try_wait_for_any_append h
      | Some _ \<Rightarrow> recv_write h (h_writes h))"

primrec wait_n :: "nat \<Rightarrow> log_handle \<Rightarrow> ((try_wait_res + unit) \<times> log_handle) option" where
  "wait_n 0 h = Some (Inr (), h)"
| "wait_n (Suc n) h = do {
     (r, h) \<leftarrow> wait_for_any_append h;
     (case r of Inl e \<Rightarrow> Some (Inl e, h) | Inr _ \<Rightarrow> wait_n n h)
   }"

definition wait_for_all_appends :: "log_handle \<Rightarrow> ((try_wait_res + unit) \<times> log_handle) option" where
  "wait_for_all_appends h = do { n \<leftarrow> num_async_writes h; wait_n n h }"

primrec wait_specific :: "nat \<Rightarrow> log_handle \<Rightarrow> uuid \<Rightarrow> ((try_wait_res + order_index list) \<times> log_handle) option" where
  "wait_specific 0 h write_id = Some (Inl WNothingReady, h)"
| "wait_specific (Suc n) h write_id = do {
     (r, h) \<leftarrow> wait_for_any_append h;
     (case r of
        Inl e \<Rightarrow> Some (Inl e, h)
      | Inr (i, locs) \<Rightarrow> if i = write_id then Some (Inr locs, h) else wait_specific n h write_id)
   }"

definition wait_for_a_specific_append :: "log_handle \<Rightarrow> uuid \<Rightarrow> ((try_wait_res + order_index list) \<times> log_handle) option" where
  "wait_for_a_specific_append h write_id = do { n \<leftarrow> num_async_writes h; wait_specific n h write_id }"

text \<open>\<open>try_iter\<close> over what is in the channel, ended by the first error not seen yet.\<close>

fun flush_writes :: "log_handle \<Rightarrow> nat \<Rightarrow> write_result list \<Rightarrow> ((io_error_kind \<times> nat + nat) \<times> log_handle) option" where
  "flush_writes h flushed [] = Some (Inr flushed, h\<lparr>h_writes := []\<rparr>)"
| "flush_writes h flushed (WriteOk i locs # ws) = do {
     h \<leftarrow> count_write h;
     flush_writes h (flushed + 1) ws
   }"
| "flush_writes h flushed (WriteErr e # ws) =
     (if write_errors h < error_num e then do {
        n \<leftarrow> u64_add (write_errors h) 1;
        rust_assert (n = error_num e);
        Some (Inl (error_kind e, error_server e), h\<lparr>write_errors := n, h_writes := ws\<rparr>)
      } else flush_writes h flushed ws)"

definition flush_completed_appends :: "log_handle \<Rightarrow> ((io_error_kind \<times> nat + nat) \<times> log_handle) option" where
  "flush_completed_appends h =
     (if num_async_writes h = Some 0 then Some (Inr 0, h) else flush_writes h 0 (h_writes h))"

section \<open>Appends to colours\<close>

text \<open>\<open>binary_search(&0).is_err()\<close> on the sorted colours.\<close>

definition no_color_0 :: "order list \<Rightarrow> bool" where
  "no_color_0 cs \<longleftrightarrow> binary_search_is_err (map (\<lambda>o'. (o', 0)) cs) (0, 0)"

definition nil_uuid :: uuid where
  "nil_uuid = 0"

definition color_append ::
  "log_handle \<Rightarrow> uuid \<Rightarrow> byte list \<Rightarrow> order list \<Rightarrow> order list \<Rightarrow> bool \<Rightarrow> ((uuid \<times> (try_wait_res + unit)) \<times> log_handle) option" where
  "color_append h i data inhabits depends_on asyn = do {
     rust_assert (0 < length inhabits);
     let inhabits = sort inhabits;
     rust_assert (no_color_0 inhabits);
     let depends_on = sort depends_on;
     rust_assert (no_color_0 depends_on);
     (i, h) \<leftarrow> (if 0 < length depends_on then async_dependent_multiappend h i inhabits depends_on data []
                else if length inhabits = 1 then async_append h i (hd inhabits) data []
                else async_no_remote_multiappend h i inhabits data []);
     if asyn then Some ((i, Inr ()), h)
     else do {
       (r, h) \<leftarrow> wait_for_a_specific_append h i;
       Some ((i, map_sum (\<lambda>e. e) (\<lambda>_. ()) r), h)
     }
   }"

definition color_no_remote_append ::
  "log_handle \<Rightarrow> uuid \<Rightarrow> byte list \<Rightarrow> order list \<Rightarrow> order_index list \<Rightarrow> bool \<Rightarrow> ((uuid \<times> (try_wait_res + order_index)) \<times> log_handle) option" where
  "color_no_remote_append h i data inhabits deps asyn =
     (if length inhabits = 0 then Some ((nil_uuid, Inl WNothingReady), h)
      else do {
        let inhabits = sort inhabits;
        rust_assert (no_color_0 inhabits);
        (i, h) \<leftarrow> (if length inhabits = 1 then async_append h i (hd inhabits) data deps
                   else async_no_remote_multiappend h i inhabits data deps);
        if asyn then Some ((i, Inl WNothingReady), h)
        else do {
          (r, h) \<leftarrow> wait_for_a_specific_append h i;
          (case r of
             Inl e \<Rightarrow> Some ((i, Inl e), h)
           | Inr [] \<Rightarrow> None
           | Inr (loc # _) \<Rightarrow> Some ((i, Inr loc), h))
        }
      })"

definition causal_color_append ::
  "log_handle \<Rightarrow> uuid \<Rightarrow> byte list \<Rightarrow> order list \<Rightarrow> order list \<Rightarrow> order_index list \<Rightarrow> (uuid \<times> log_handle) option" where
  "causal_color_append h i data inhabits depends_on happens_after =
     (if length inhabits = 0 then Some (nil_uuid, h)
      else do {
        let inhabits = sort inhabits;
        rust_assert (no_color_0 inhabits);
        let depends_on = sort depends_on;
        rust_assert (no_color_0 depends_on);
        if 0 < length depends_on then async_dependent_multiappend h i inhabits depends_on data happens_after
        else if length inhabits = 1 then async_append h i (hd inhabits) data happens_after
        else async_multiappend h i inhabits data happens_after
      })"

text \<open>\<open>simple_async_append\<close>, and \<open>simple_causal_append\<close>, which ignores what the append is to happen after.\<close>

definition simple_async_append :: "log_handle \<Rightarrow> uuid \<Rightarrow> byte list \<Rightarrow> order list \<Rightarrow> (uuid \<times> log_handle) option" where
  "simple_async_append h i data inhabits =
     (if length inhabits = 0 then Some (nil_uuid, h)
      else do {
        let inhabits = sort inhabits;
        rust_assert (no_color_0 inhabits);
        causal_color_append h i data inhabits [] []
      })"

definition simple_causal_append :: "log_handle \<Rightarrow> uuid \<Rightarrow> byte list \<Rightarrow> order list \<Rightarrow> order list \<Rightarrow> (uuid \<times> log_handle) option" where
  "simple_causal_append h i data inhabits happens_after =
     (if length inhabits = 0 then Some (nil_uuid, h)
      else do {
        let inhabits = sort inhabits;
        rust_assert (no_color_0 inhabits);
        causal_color_append h i data inhabits [] []
      })"

definition simple_append :: "log_handle \<Rightarrow> uuid \<Rightarrow> byte list \<Rightarrow> order list \<Rightarrow> (uuid \<times> log_handle) option" where
  "simple_append h i data inhabits = do {
     (i, h) \<leftarrow> simple_async_append h i data inhabits;
     (_, h) \<leftarrow> wait_for_a_specific_append h i;
     Some (i, h)
   }"

definition simpler_causal_append :: "log_handle \<Rightarrow> uuid \<Rightarrow> byte list \<Rightarrow> order list \<Rightarrow> (uuid \<times> log_handle) option" where
  "simpler_causal_append h i data inhabits = simple_append h i data inhabits"

text \<open>\<open>.unwrap()\<close> of the locations a finished append got.\<close>

definition wait_unwrap :: "uuid \<times> log_handle \<Rightarrow> (order_index list \<times> log_handle) option" where
  "wait_unwrap ih = do {
     (r, h) \<leftarrow> wait_for_a_specific_append (snd ih) (fst ih);
     (case r of Inl _ \<Rightarrow> None | Inr locs \<Rightarrow> Some (locs, h))
   }"

definition append_and_wait :: "log_handle \<Rightarrow> uuid \<Rightarrow> order \<Rightarrow> byte list \<Rightarrow> order_index list \<Rightarrow> (order_index list \<times> log_handle) option" where
  "append_and_wait h i chain data deps = do { ih \<leftarrow> async_append h i chain data deps; wait_unwrap ih }"

definition multiappend :: "log_handle \<Rightarrow> uuid \<Rightarrow> order list \<Rightarrow> byte list \<Rightarrow> order_index list \<Rightarrow> (order_index list \<times> log_handle) option" where
  "multiappend h i cs data deps = do { ih \<leftarrow> async_multiappend h i cs data deps; wait_unwrap ih }"

definition no_remote_multiappend ::
  "log_handle \<Rightarrow> uuid \<Rightarrow> order list \<Rightarrow> byte list \<Rightarrow> order_index list \<Rightarrow> (order_index list \<times> log_handle) option" where
  "no_remote_multiappend h i cs data deps = do { ih \<leftarrow> async_no_remote_multiappend h i cs data deps; wait_unwrap ih }"

definition dependent_multiappend ::
  "log_handle \<Rightarrow> uuid \<Rightarrow> order list \<Rightarrow> order list \<Rightarrow> byte list \<Rightarrow> order_index list \<Rightarrow> (order_index list \<times> log_handle) option" where
  "dependent_multiappend h i cs depends_on data deps = do {
     ih \<leftarrow> async_dependent_multiappend h i cs depends_on data deps;
     wait_unwrap ih
   }"

section \<open>Appends of the other handles\<close>

definition write_simple_append :: "log_handle \<Rightarrow> uuid \<Rightarrow> byte list \<Rightarrow> order list \<Rightarrow> (uuid \<times> log_handle) option" where
  "write_simple_append h i data inhabits = do {
     let inhabits = sort inhabits;
     rust_assert (no_color_0 inhabits);
     (case inhabits of
        [] \<Rightarrow> None
      | [chain] \<Rightarrow> async_append h i chain data []
      | cs \<Rightarrow> async_no_remote_multiappend h i cs data [])
   }"

text \<open>\<open>AtomicWriteHandle\<close> does not count appends.\<close>

definition atomic_simple_async_append :: "log_handle \<Rightarrow> uuid \<Rightarrow> byte list \<Rightarrow> order list \<Rightarrow> (uuid \<times> log_handle) option" where
  "atomic_simple_async_append h i data inhabits = do {
     p \<leftarrow> (if length inhabits = 1 then Some (single_append i (hd inhabits) data [])
          else multi_append fNothing i inhabits data []);
     h \<leftarrow> h_send h (PerformAppend p);
     Some (i, h)
   }"

text \<open>The bytes of an append, for clients that talk to a server themselves.\<close>

definition append_message :: "uuid \<Rightarrow> order \<Rightarrow> byte list \<Rightarrow> order_index list \<Rightarrow> byte list" where
  "append_message i chain data deps = to_vec (PSingle i fNothing (chain, 0) deps data 0)"

definition multiappend_message :: "uuid \<Rightarrow> order list \<Rightarrow> byte list \<Rightarrow> order_index list \<Rightarrow> byte list option" where
  "multiappend_message i cs data deps = do {
     rust_assert (1 < length cs);
     let locs = remdups_adj (sort (map (\<lambda>o'. (o', 0)) cs));
     Some (to_vec (PMulti i (fNewMultiPut OR fNoRemote) 0 locs deps data))
   }"

end
