(* ===== verification/Client_App.thy ===== *)
theory Client_App
  imports Client_Order Client_Handle
begin

text \<open>
  What an application sees through its handle: the entries \<open>sync\<close> passes to the callback, against the log thread
  that sends them, the appends it waits for, and the packets its appends are.
\<close>

section \<open>Reading everything a snapshot covers\<close>

text \<open>The entries before the \<open>n\<close>-th mark of a finished snapshot, and what follows the mark.\<close>

fun upto_dones :: "nat \<Rightarrow> read_result list \<Rightarrow> (packet list \<times> read_result list) option" where
  "upto_dones 0 rs = Some ([], rs)"
| "upto_dones (Suc n) [] = None"
| "upto_dones (Suc n) (ReadOk p # rs) = map_option (apfst (Cons p)) (upto_dones (Suc n) rs)"
| "upto_dones (Suc n) (ReadDone # rs) = upto_dones n rs"
| "upto_dones (Suc n) (ReadErr e # rs) = None"

lemma replace_entry_up: "log_up h \<Longrightarrow> \<exists>h'. replace_entry h r = Some h' \<and> log_up h' \<and> h_snapshots h' = h_snapshots h"
  by (auto simp: replace_entry_def h_send_def split: option.splits)

lemma recv_read_entry:
  assumes "upto_dones n rs = Some (p # ps, rest)" "h_snapshots h = n" "log_up h"
  shows "\<exists>h'. recv_read block h rs = Some (Inr p, h') \<and> log_up h' \<and> 0 < h_snapshots h' \<and>
    upto_dones (h_snapshots h') (h_reads h') = Some (ps, rest)"
  using assms
proof (induction n rs arbitrary: h rule: upto_dones.induct)
  case (3 n q rs)
  then show ?case using replace_entry_up [of h "Some q"] by auto
next
  case (4 n rs)
  obtain h1 where h1: "replace_entry h None = Some h1" "log_up h1" "h_snapshots h1 = Suc n"
    using replace_entry_up [of h None] 4(3,4) by auto
  moreover have "n \<noteq> 0" using 4(2) by (cases n) auto
  ultimately show ?case using 4(1) [of "h1\<lparr>h_snapshots := n\<rparr>"] 4(2) by (simp add: u64_sub_def)
qed auto

lemma recv_read_done:
  assumes "upto_dones n rs = Some ([], rest)" "h_snapshots h = n" "0 < n" "log_up h"
  shows "\<exists>h'. recv_read block h rs = Some (Inl GDone, h') \<and> h_snapshots h' = 0 \<and> h_reads h' = rest"
  using assms
proof (induction n rs arbitrary: h rule: upto_dones.induct)
  case (4 n rs)
  obtain h1 where h1: "replace_entry h None = Some h1" "log_up h1" "h_snapshots h1 = Suc n"
    using replace_entry_up [of h None] 4(3,5) by auto
  show ?case
  proof (cases n)
    case (Suc m)
    then show ?thesis using 4(1) [of "h1\<lparr>h_snapshots := n\<rparr>"] 4(2) h1 by (simp add: u64_sub_def)
  qed (use 4(2) h1 in \<open>simp add: u64_sub_def\<close>)
qed auto

primrec run_events :: "('s \<Rightarrow> event \<Rightarrow> 's option) \<Rightarrow> 's \<Rightarrow> event list \<Rightarrow> 's option" where
  "run_events f st [] = Some st"
| "run_events f st (e # es) = do { st \<leftarrow> f st e; run_events f st es }"

lemma do_sync_completes:
  assumes "upto_dones (h_snapshots h) (h_reads h) = Some (ps, rest)" "map event_of ps = map Some es" "log_up h"
    "run_events f st es = Some st'"
  shows "\<exists>h'. do_sync_with f h st seen = Some (Inr (foldl see_locs seen (map ev_inhabits es)), st', h') \<and>
    h_snapshots h' = 0 \<and> h_reads h' = rest"
  using assms
proof (induction ps arbitrary: h es st seen)
  case Nil
  show ?case
  proof (cases "h_snapshots h")
    case 0
    then show ?thesis using Nil by (auto simp: do_sync_with.simps [of f h] get_next_event_def next_event_def)
  next
    case (Suc n)
    then show ?thesis using Nil recv_read_done [OF Nil(1), of h True]
      by (auto simp: do_sync_with.simps [of f h] get_next_event_def next_event_def)
  qed
next
  case (Cons p ps)
  obtain e es' where es: "es = e # es'" "event_of p = Some e" "map event_of ps = map Some es'" using Cons(3) by (cases es) auto
  obtain st1 where st1: "f st e = Some st1" "run_events f st1 es' = Some st'" using Cons(5) es by (auto simp: rust_simps)
  obtain h1 where h1: "recv_read True h (h_reads h) = Some (Inr p, h1)" "log_up h1"
      "upto_dones (h_snapshots h1) (h_reads h1) = Some (ps, rest)"
    using recv_read_entry [OF Cons(2) refl Cons(4)] by blast
  have "h_snapshots h \<noteq> 0" using Cons(2) by (cases "h_snapshots h") auto
  then show ?case using Cons(1) [OF h1(3) es(3) h1(2) st1(2)] h1(1) es st1(1)
    by (simp add: do_sync_with.simps [of f h] get_next_event_def next_event_def)
qed

section \<open>Reading what the log thread sent\<close>

fun read_oks :: "read_result list \<Rightarrow> packet list" where
  "read_oks [] = []"
| "read_oks (ReadOk p # rs) = p # read_oks rs"
| "read_oks (_ # rs) = read_oks rs"

definition event_locs :: "event \<Rightarrow> order_index list" where
  "event_locs e = takeWhile (\<lambda>(o', _). o' \<noteq> 0) (ev_inhabits e)"

lemma event_of_locs: "event_of p = Some e \<Longrightarrow> handed_locs (ReadOk p) = event_locs e"
  by (cases p) (auto simp: event_of_def event_locs_def pkt_layout_def kind_layout_def kind_values)

lemma read_oks_handed: "concat (map handed_locs rs) = concat (map (\<lambda>p. handed_locs (ReadOk p)) (read_oks rs))"
  by (induction rs rule: read_oks.induct) auto

lemma recv_read_oks: "recv_read block h rs = Some (Inr p, h') \<Longrightarrow> read_oks rs = p # read_oks (h_reads h')"
proof (induction rs arbitrary: h)
  case (Cons r rs)
  then show ?case by (cases r) (auto simp: rust_simps Let_def split: if_splits option.splits)
qed (auto split: if_splits)

lemma next_event_oks:
  assumes "next_event block h = Some (Inr e, h')"
  shows "\<exists>p. read_oks (h_reads h) = p # read_oks (h_reads h') \<and> event_of p = Some e"
proof -
  obtain r h1 where r: "recv_read block h (h_reads h) = Some (r, h1)"
    using assms by (auto simp: next_event_def rust_simps split: if_splits)
  then show ?thesis
    using assms by (cases r) (auto simp: next_event_def rust_simps dest: recv_read_oks split: if_splits)
qed

lemma do_sync_prefix:
  assumes "do_sync_with (\<lambda>es e. Some (es @ [e])) h es0 seen = Some (r, es, h')"
  shows "\<exists>ps qs es1. read_oks (h_reads h) = ps @ qs \<and> es = es0 @ es1 \<and> map event_of ps = map Some es1"
  using assms
proof (induction "length (h_reads h)" arbitrary: h es0 seen rule: less_induct)
  case less
  show ?case
  proof (cases "\<exists>e h1. get_next_event h = Some (Inr e, h1)")
    case True
    then obtain e h1 where e: "next_event True h = Some (Inr e, h1)" by (auto simp: get_next_event_def)
    obtain p where p: "read_oks (h_reads h) = p # read_oks (h_reads h1)" "event_of p = Some e" using next_event_oks [OF e] by blast
    have "do_sync_with (\<lambda>es e. Some (es @ [e])) h1 (es0 @ [e]) (see_locs seen (ev_inhabits e)) = Some (r, es, h')"
      using less(2) e by (simp add: do_sync_with.simps [of _ h] get_next_event_def)
    from less(1) [OF next_event_shorter [OF e] this] obtain ps qs es1 where
      *: "read_oks (h_reads h1) = ps @ qs" "es = (es0 @ [e]) @ es1" "map event_of ps = map Some es1" by blast
    then show ?thesis using p by (intro exI [of _ "p # ps"] exI [of _ qs] exI [of _ "e # es1"]) simp
  next
    case False
    then have "es = es0" using less(2)
      by (auto simp: do_sync_with.simps [of _ h] split: option.splits sum.splits get_res.splits)
    then show ?thesis by (intro exI [of _ "[]"] exI [of _ "read_oks (h_reads h)"]) simp
  qed
qed

section \<open>The packets of appends\<close>

lemma sorted_distinct_remdups_adj: "sorted xs \<Longrightarrow> distinct (remdups_adj (xs :: 'a :: linorder list))"
  by (induction xs rule: remdups_adj.induct) (auto simp: order.strict_iff_order)

lemma remdups_adj_shorter: "sorted xs \<Longrightarrow> \<not> distinct xs \<Longrightarrow> length (remdups_adj (xs :: 'a :: linorder list)) < length xs"
  by (metis card_distinct distinct_card le_neq_implies_less remdups_adj_length remdups_adj_set sorted_distinct_remdups_adj)

lemma remdups_adj_separated: "z \<notin> set xs \<Longrightarrow> remdups_adj (xs @ z # ys) = remdups_adj xs @ remdups_adj (z # ys)"
proof (induction xs rule: remdups_adj.induct)
  case (2 x)
  then show ?case by simp
qed auto

lemma remdups_adj_head: "z \<notin> set ys \<Longrightarrow> remdups_adj (z # ys) = z # remdups_adj ys"
  by (cases ys) auto

definition new_locs :: "order list \<Rightarrow> order_index list" where
  "new_locs cs = sort (map (\<lambda>o'. (o', 0)) cs)"

lemma new_locs_simps [simp]:
  "sorted (new_locs cs)" "set (new_locs cs) = (\<lambda>o'. (o', 0)) ` set cs" "length (new_locs cs) = length cs" "distinct (new_locs cs) = distinct cs"
  by (auto simp: new_locs_def distinct_map inj_on_def)

lemma multi_append_locs:
  assumes "multi_append f i cs data deps = Some p"
  shows "\<exists>locs. pkt_locs p = Some locs \<and> sorted locs \<and> distinct locs \<and> set locs = (\<lambda>o'. (o', 0)) ` set cs \<and>
    pkt_id p = i \<and> pkt_data p = Some data \<and> dependencies p = Some deps"
proof -
  have *: "sorted (remdups_adj (new_locs cs))" "distinct (remdups_adj (new_locs cs))"
      "set (remdups_adj (new_locs cs)) = (\<lambda>o'. (o', 0)) ` set cs"
    by (simp_all add: sorted_distinct_remdups_adj sorted_remdups_adj)
  consider o' j where "remdups_adj (new_locs cs) = [(o', j)]" | a b ls where "remdups_adj (new_locs cs) = a # b # ls"
    using assms by (auto simp: multi_append_def rust_simps new_locs_def [symmetric] Let_def split: list.splits)
  then show ?thesis
  proof cases
    case 1
    then have "j = 0" using *(3) by auto
    then show ?thesis using 1 * assms
      by (auto simp: multi_append_def rust_simps new_locs_def [symmetric] Let_def single_append_def)
  next
    case 2
    then show ?thesis using * assms
      by (auto simp: multi_append_def rust_simps Let_def new_locs_def [symmetric])
  qed
qed

lemma dependent_append_chains:
  assumes "0 \<notin> set cs" "0 \<notin> set ds"
  shows "remdups_adj (new_locs cs @ (0, 0) # new_locs ds) = remdups_adj (new_locs cs) @ (0, 0) # remdups_adj (new_locs ds)"
  proof -
  have "(0, 0) \<notin> set (new_locs cs)" "(0, 0) \<notin> set (new_locs ds)" using assms by auto
  then show ?thesis by (simp add: remdups_adj_separated remdups_adj_head del: new_locs_simps)
qed

lemma dependent_append_eq:
  assumes "0 \<notin> set cs" "0 \<notin> set ds"
  shows "dependent_append i cs ds data deps =
    (if ds = [] \<or> \<not> distinct cs then None else Some (PMulti i fNothing 0 (new_locs cs @ (0, 0) # remdups_adj (new_locs ds)) deps data))"
proof -
  let ?m = "remdups_adj (new_locs cs) @ (0, 0) # remdups_adj (new_locs ds)"
  have d: "?m ! length cs \<noteq> (0, 0) \<or> \<not> length cs < length ?m" if nd: "\<not> distinct cs"
  proof (rule disjCI, rule notI)
    assume l: "\<not> \<not> length cs < length ?m" and z: "?m ! length cs = (0, 0)"
    obtain x where "length cs = length (remdups_adj (new_locs cs)) + Suc x"
      using remdups_adj_shorter [of "new_locs cs"] nd less_iff_Suc_add [of _ "length cs"] by auto
    then have "?m ! length cs \<in> set (remdups_adj (new_locs ds))"
      using l nth_mem [of x "remdups_adj (new_locs ds)"] by (simp add: nth_append del: remdups_adj_set)
    then show False using z assms by auto
  qed
  have e: "remdups_adj (new_locs cs) = new_locs cs" if "distinct cs" using that by (simp add: remdups_adj_distinct)
  show ?thesis
  proof (cases "distinct cs")
    case True
    then show ?thesis
      unfolding dependent_append_def new_locs_def [symmetric] dependent_append_chains [OF assms] Let_def e [OF True]
      by (auto simp: rust_assert_def list_all_iff nth_append)
  next
    case False
    then have *: "rust_assert (length cs < length ?m \<and> ?m ! length cs = (0, 0)) = None" using d unfolding rust_assert_def by metis
    show ?thesis
      unfolding dependent_append_def new_locs_def [symmetric] dependent_append_chains [OF assms] Let_def *
      using False by (cases ds) auto
  qed
qed

section \<open>Waiting for appends\<close>

fun write_oks :: "write_result list \<Rightarrow> (uuid \<times> order_index list) list" where
  "write_oks [] = []"
| "write_oks (WriteOk i locs # ws) = (i, locs) # write_oks ws"
| "write_oks (WriteErr e # ws) = write_oks ws"

text \<open>Every error in the channel has been reported before.\<close>

fun old_errors :: "u64 \<Rightarrow> write_result list \<Rightarrow> bool" where
  "old_errors n [] \<longleftrightarrow> True"
| "old_errors n (WriteOk i locs # ws) \<longleftrightarrow> old_errors n ws"
| "old_errors n (WriteErr e # ws) \<longleftrightarrow> error_num e \<le> n \<and> old_errors n ws"

lemma recv_write_next:
  assumes "write_oks ws = (i, locs) # as" "old_errors (write_errors h) ws" "num_async_writes h = Some (Suc n)"
  shows "\<exists>h'. recv_write h ws = Some (Inr (i, locs), h') \<and> num_async_writes h' = Some n \<and> write_oks (h_writes h') = as \<and>
    old_errors (write_errors h') (h_writes h')"
  using assms by (induction ws arbitrary: h rule: write_oks.induct) (auto simp: count_write_def u64_sub_def to_wait_error_def)

lemma wait_specific_finds:
  assumes "map_of (take n (write_oks (h_writes h))) i = Some locs" "old_errors (write_errors h) (h_writes h)"
    "num_async_writes h = Some n"
  shows "\<exists>h'. wait_specific n h i = Some (Inr locs, h')"
  using assms
proof (induction n arbitrary: h)
  case (Suc n)
  obtain j l as where a: "write_oks (h_writes h) = (j, l) # as" using Suc(2) by (cases "write_oks (h_writes h)") auto
  from recv_write_next [OF a Suc(3,4)] obtain h' where
    h': "recv_write h (h_writes h) = Some (Inr (j, l), h')" "num_async_writes h' = Some n" "write_oks (h_writes h') = as"
      "old_errors (write_errors h') (h_writes h')" by blast
  show ?case using Suc(1) [of h'] Suc(2,4) h' a by (auto simp: wait_for_any_append_def split: if_splits)
qed simp

section \<open>Properties\<close>

text \<open>C2: what \<open>sync\<close> passes to the callback, when it reads what the log thread of a new handle sent, comes in
  strictly increasing order of index on every chain of interest, whatever the outcome of \<open>sync\<close> is, provided
  every message the thread received satisfies \<^const>\<open>msg_ok\<close>: nothing was rewound, no multi-append was flagged
  to be returned without its parts on other chains, and entries of one chain came under their own location.\<close>

theorem sync_sees_chain_in_order:
  assumes "build_with_store cs boring ack None = Some (l, h0)" "log_run l msgs = Some s" "list_all (\<lambda>(_, msg). msg_ok msg) msgs"
    "c \<in> set cs" "h_reads h = ready_reads s" "do_sync_with (\<lambda>es e. Some (es @ [e])) h [] Map.empty = Some (r, es, h')"
  shows "sorted_wrt (<) (indices_in c (concat (map event_locs es)))"
proof -
  have l: "l = log_build cs ack False boring NoConnection None" "c \<noteq> 0"
    using assms(1,4) by (cases "c = 0"; auto simp: build_with_store_def rust_simps)+
  have "log_inv (Scope {c} {}) s" using log_run_inv [OF assms(2) _ assms(3), of "{c}"] log_build_inv [of "{c}"] l assms(4) by simp
  then have s: "sorted_wrt (<) (handed s c)" by (auto simp: log_inv_def chain_hands_def pc.hands_def)
  obtain ps qs where p: "read_oks (ready_reads s) = ps @ qs" "map event_of ps = map Some es"
    using do_sync_prefix [OF assms(6)] assms(5) by auto
  have "map (\<lambda>p. handed_locs (ReadOk p)) ps = map event_locs es"
    using p(2) by (induction ps arbitrary: es) (auto simp: event_of_locs Cons_eq_map_conv simp del: handed_locs.simps)
  then have "handed s c = indices_in c (concat (map event_locs es)) @ indices_in c (concat (map (\<lambda>p. handed_locs (ReadOk p)) qs))"
    unfolding handed_def read_oks_handed p(1) by simp
  then show ?thesis using s by (simp add: sorted_wrt_append)
qed

theorem sync_sees_chain_in_order_witness:
  "\<exists>s es h'. log_run (log_build [1] False False False NoConnection None)
      [(0, FromClient (ReadUntil (1, 2))), (0, FromStore (ReadComplete (1, 2) (demo_read 12 (1, 2) []))),
       (0, FromStore (ReadComplete (1, 1) (demo_read 11 (1, 1) [])))] = Some s \<and>
    do_sync_with (\<lambda>es e. Some (es @ [e])) ((handle_new False)\<lparr>h_snapshots := 1, h_reads := ready_reads s\<rparr>) [] Map.empty =
      Some (Inr [1 \<mapsto> 2], es, h') \<and>
    map ev_id es = [11, 12] \<and> sorted_wrt (<) (indices_in 1 (concat (map event_locs es)))"
proof -
  let ?ms = "[(0, FromClient (ReadUntil (1, 2))), (0, FromStore (ReadComplete (1, 2) (demo_read 12 (1, 2) []))),
       (0, FromStore (ReadComplete (1, 1) (demo_read 11 (1, 1) [])))]"
  obtain s where s: "log_run (log_build [1] False False False NoConnection None) ?ms = Some s"
      "ready_reads s = [ReadOk (demo_read 11 (1, 1) []), ReadOk (demo_read 12 (1, 2) []), ReadDone]"
    by (simp add: log_eval demo_read_def)
  have b: "build_with_store [1] False False None = Some (log_build [1] False False False NoConnection None, handle_new False)"
    by (simp add: build_with_store_def)
  have m: "list_all (\<lambda>(_, msg). msg_ok msg) ?ms" by (simp add: demo_read_def log_eval)
  let ?h = "(handle_new False)\<lparr>h_snapshots := 1, h_reads := ready_reads s\<rparr>"
  obtain es h' where y: "do_sync_with (\<lambda>es e. Some (es @ [e])) ?h [] Map.empty = Some (Inr [1 \<mapsto> 2], es, h')" "map ev_id es = [11, 12]"
    using do_sync_completes [of ?h "[demo_read 11 (1, 1) [], demo_read 12 (1, 2) []]" "[]"
        "[\<lparr>ev_id = 11, ev_data = [], ev_inhabits = [(1, 1)], ev_happens_after = []\<rparr>,
          \<lparr>ev_id = 12, ev_data = [], ev_inhabits = [(1, 2)], ev_happens_after = []\<rparr>]" "\<lambda>es e. Some (es @ [e])" "[]" _ Map.empty]
    by (auto simp: s(2) handle_new_def demo_read_def event_of_def)
  from sync_sees_chain_in_order [OF b s(1) m, of 1 ?h] y show ?thesis using s(1) by auto
qed

text \<open>C14: \<open>sync\<close> returns once the log thread has marked as many snapshots finished as the handle asked for: it
  has passed every entry before the last mark to the callback, in the order of the channel, reports the largest
  index seen on each chain, and leaves what follows the mark.\<close>

theorem sync_reads_whole_snapshot:
  assumes "upto_dones (h_snapshots h) (h_reads h) = Some (ps, rest)" "map event_of ps = map Some es" "log_up h"
    "run_events f st es = Some st'"
  shows "\<exists>h'. do_sync_with f h st Map.empty = Some (Inr (foldl see_locs Map.empty (map ev_inhabits es)), st', h') \<and>
    h_snapshots h' = 0 \<and> h_reads h' = rest"
  using do_sync_completes [OF assms] .

theorem sync_reads_whole_snapshot_witness:
  "\<exists>h'. do_sync_with (\<lambda>n e. Some (n + length (ev_data e)))
      ((handle_new True)\<lparr>h_snapshots := 2, h_reads := [ReadOk (single_append 7 1 [42] []), ReadDone, ReadDone, ReadDone]\<rparr>) 0 Map.empty =
     Some (Inr (foldl see_locs Map.empty [[(1, 0)]]), 1, h') \<and> h_snapshots h' = 0 \<and> h_reads h' = [ReadDone]"
  using sync_reads_whole_snapshot [of
      "(handle_new True)\<lparr>h_snapshots := 2, h_reads := [ReadOk (single_append 7 1 [42] []), ReadDone, ReadDone, ReadDone]\<rparr>"
      "[single_append 7 1 [42] []]" "[ReadDone]" "[\<lparr>ev_id = 7, ev_data = [42], ev_inhabits = [(1, 0)], ev_happens_after = []\<rparr>]"
      "\<lambda>n e. Some (n + length (ev_data e))" 0 1]
  by (simp add: handle_new_def numeral_2_eq_2 single_append_def event_of_def)

text \<open>C15: waiting for an append returns the locations it got, if its acknowledgement is among as many as the handle
  is waiting for and every error in the channel has been reported before; acknowledgements of other appends that
  come first are consumed.\<close>

theorem wait_for_append_returns:
  assumes "num_async_writes h = Some n" "map_of (take n (write_oks (h_writes h))) i = Some locs"
    "old_errors (write_errors h) (h_writes h)"
  shows "\<exists>h'. wait_for_a_specific_append h i = Some (Inr locs, h')"
  using wait_specific_finds [OF assms(2,3,1)] assms(1) by (simp add: wait_for_a_specific_append_def)

theorem wait_for_append_returns_witness:
  "\<exists>h'. wait_for_a_specific_append
     ((handle_new True)\<lparr>num_async_writes := Some 2, h_writes := [WriteOk 4 [(1, 1)], WriteErr \<lparr>error_num = 0, error_server = 0, error_kind = 0\<rparr>, WriteOk 5 [(2, 9)]]\<rparr>) 5 =
       Some (Inr [(2, 9)], h')"
  using wait_for_append_returns [of
     "(handle_new True)\<lparr>num_async_writes := Some 2, h_writes := [WriteOk 4 [(1, 1)], WriteErr \<lparr>error_num = 0, error_server = 0, error_kind = 0\<rparr>, WriteOk 5 [(2, 9)]]\<rparr>"
     2 5 "[(2, 9)]"]
  by (simp add: handle_new_def numeral_2_eq_2)

text \<open>C31: an append that depends on further chains panics exactly if there are no such chains or a chain it is
  appended to is given twice; an append to several chains drops duplicates instead.\<close>

theorem dependent_append_panics:
  assumes "0 \<notin> set cs" "0 \<notin> set ds"
  shows "dependent_append i cs ds data deps = None \<longleftrightarrow> ds = [] \<or> \<not> distinct cs"
  using dependent_append_eq [OF assms, of i data deps] by simp

theorem dependent_append_panics_witness: "dependent_append 9 [1, 1] [2] [] [] = None"
  using dependent_append_panics [of "[1, 1]" "[2]" 9 "[]" "[]"] by simp

text \<open>C16: a handle built by \<open>with_store\<close>, as \<open>new_tcp_log\<close> builds it, panics in every append it waits for, whatever
  is in the channel of acknowledgements, the one for this append included: the handle was told that appends are
  not acknowledged. The thread built with it does acknowledge them, and the handle \<open>build_with_store\<close> gives
  for the same thread returns with the acknowledged locations.\<close>

theorem append_panics_without_acks:
  assumes "with_store cs boring = Some (l, h)"
  shows "ack_writes l \<and> append_and_wait (h\<lparr>h_writes := ws\<rparr>) i chain data deps = None \<and>
    (\<exists>h1 h2. build_with_store cs boring True None = Some (l, h1) \<and>
      append_and_wait (h1\<lparr>h_writes := WriteOk i locs # ws\<rparr>) i chain data deps = Some (locs, h2))"
proof -
  have l: "0 \<notin> set cs" "l = log_build cs True False boring NoConnection None" "h = handle_new False"
    using assms by (auto simp: with_store_def rust_simps)
  note w = append_and_wait_def async_append_def send_append_def handle_new_def h_send_def wait_unwrap_def
    wait_for_a_specific_append_def wait_for_any_append_def count_write_def rust_assert_def u64_add_def u64_sub_def u64_max_def
  have "append_and_wait (h\<lparr>h_writes := ws\<rparr>) i chain data deps = None" by (simp add: l(3) w)
  moreover have "\<exists>h2. append_and_wait ((handle_new True)\<lparr>h_writes := WriteOk i locs # ws\<rparr>) i chain data deps = Some (locs, h2)"
    by (simp add: w)
  ultimately show ?thesis using l by (simp add: build_with_store_def rust_assert_def log_build_def)
qed

theorem append_panics_without_acks_witness:
  "\<exists>l h h1 h2. with_store [1] True = Some (l, h) \<and> ack_writes l \<and>
    append_and_wait (h\<lparr>h_writes := [WriteOk 5 [(1, 1)]]\<rparr>) 5 1 [42] [] = None \<and>
    build_with_store [1] True True None = Some (l, h1) \<and>
    append_and_wait (h1\<lparr>h_writes := [WriteOk 5 [(1, 1)]]\<rparr>) 5 1 [42] [] = Some ([(1, 1)], h2)"
proof -
  obtain l h where w: "with_store [1] True = Some (l, h)" by (simp add: with_store_def)
  show ?thesis
    using w append_panics_without_acks [OF w, of "[WriteOk 5 [(1, 1)]]" 5 1 "[42]" "[]"]
      append_panics_without_acks [OF w, of "[]" 5 1 "[42]" "[]" "[(1, 1)]"] by blast
qed

end
