(* ===== verification/Or_Set.thy ===== *)
theory Or_Set
  imports Client_App
begin

text \<open>
  The observed-remove set of \<^verbatim>\<open>examples/or_set/src/or_set.rs\<close>, an application of the log: its operations are
  appended to the chain of the replica and every replica plays the operations it reads. \<open>bincode\<close>, which turns
  operations into bytes and back, is a pair of parameters; a hash set of identifiers is a set.
\<close>

section \<open>The state and its operations\<close>

datatype or_op = OAdd u64 | ORemove u64 "uuid set" | OTransaction "or_op list"

type_synonym or_state = "u64 \<rightharpoonup> uuid set"

definition local_add :: "or_state \<Rightarrow> u64 \<Rightarrow> uuid \<Rightarrow> or_state" where
  "local_add st v g = st(v \<mapsto> insert g (case st v of Some ids \<Rightarrow> ids | None \<Rightarrow> {}))"

definition local_remove :: "or_state \<Rightarrow> u64 \<Rightarrow> uuid set \<Rightarrow> or_state" where
  "local_remove st v ids =
     (case st v of
        None \<Rightarrow> st
      | Some old \<Rightarrow> if old - ids = {} then st(v := None) else st(v \<mapsto> old - ids))"

fun or_handle_op :: "or_state \<Rightarrow> or_op \<Rightarrow> uuid \<Rightarrow> or_state"
and or_handle_ops :: "or_state \<Rightarrow> or_op list \<Rightarrow> uuid \<Rightarrow> or_state" where
  "or_handle_op st (OAdd v) g = local_add st v g"
| "or_handle_op st (ORemove v ids) g = local_remove st v ids"
| "or_handle_op st (OTransaction ops) g = or_handle_ops st ops g"
| "or_handle_ops st [] g = st"
| "or_handle_ops st (op # ops) g = or_handle_ops (or_handle_op st op g) ops g"

definition or_update :: "(byte list \<Rightarrow> or_op option) \<Rightarrow> or_state \<Rightarrow> byte list \<Rightarrow> uuid \<Rightarrow> or_state option" where
  "or_update deserialize st bytes g = do { op \<leftarrow> deserialize bytes; Some (or_handle_op st op g) }"

record or_set =
  os_state :: or_state
  os_chain :: order
  os_handle :: log_handle

definition or_set_new :: "log_handle \<Rightarrow> order \<Rightarrow> or_set" where
  "or_set_new h my_chain = \<lparr>os_state = Map.empty, os_chain = my_chain, os_handle = h\<rparr>"

definition or_send :: "(or_op \<Rightarrow> byte list) \<Rightarrow> or_set \<Rightarrow> uuid \<Rightarrow> or_op \<Rightarrow> (uuid \<times> or_set) option" where
  "or_send serialize s new_v4 op = do {
     (i, h) \<leftarrow> simpler_causal_append (os_handle s) new_v4 (serialize op) [os_chain s];
     Some (i, s\<lparr>os_handle := h\<rparr>)
   }"

definition async_add :: "(or_op \<Rightarrow> byte list) \<Rightarrow> or_set \<Rightarrow> uuid \<Rightarrow> u64 \<Rightarrow> (uuid \<times> or_set) option" where
  "async_add serialize s new_v4 v = or_send serialize s new_v4 (OAdd v)"

definition async_remove_ids :: "(or_op \<Rightarrow> byte list) \<Rightarrow> or_set \<Rightarrow> uuid \<Rightarrow> u64 \<Rightarrow> uuid set \<Rightarrow> (uuid \<times> or_set) option" where
  "async_remove_ids serialize s new_v4 v ids = or_send serialize s new_v4 (ORemove v ids)"

definition async_remove :: "(or_op \<Rightarrow> byte list) \<Rightarrow> or_set \<Rightarrow> uuid \<Rightarrow> u64 \<Rightarrow> (uuid \<times> or_set) option" where
  "async_remove serialize s new_v4 v =
     async_remove_ids serialize s new_v4 v (case os_state s v of Some ids \<Rightarrow> ids | None \<Rightarrow> {})"

definition async_transaction :: "(or_op \<Rightarrow> byte list) \<Rightarrow> or_set \<Rightarrow> uuid \<Rightarrow> or_op list \<Rightarrow> (uuid \<times> or_set) option" where
  "async_transaction serialize s new_v4 ops = or_send serialize s new_v4 (OTransaction ops)"

definition transaction_add :: "or_op list \<Rightarrow> u64 \<Rightarrow> or_op list" where
  "transaction_add ops v = ops @ [OAdd v]"

definition transaction_remove :: "or_op list \<Rightarrow> u64 \<Rightarrow> uuid set \<Rightarrow> or_op list" where
  "transaction_remove ops v ids = ops @ [ORemove v ids]"

definition try_wait_for_op_finished :: "or_set \<Rightarrow> (uuid option \<times> or_set) option" where
  "try_wait_for_op_finished s = do {
     (r, h) \<leftarrow> try_wait_for_any_append (os_handle s);
     Some ((case r of Inl _ \<Rightarrow> None | Inr (i, _) \<Rightarrow> Some i), s\<lparr>os_handle := h\<rparr>)
   }"

definition or_play :: "(byte list \<Rightarrow> or_op option) \<Rightarrow> or_state \<Rightarrow> event \<Rightarrow> or_state option" where
  "or_play deserialize st e = or_update deserialize st (ev_data e) (ev_id e)"

text \<open>\<open>.unwrap()\<close> of what \<open>sync\<close> and \<open>sync_chain\<close> return.\<close>

definition synced :: "or_set \<Rightarrow> (get_res + 'a) \<times> or_state \<times> log_handle \<Rightarrow> or_set option" where
  "synced s r = (case r of (Inl _, _) \<Rightarrow> None | (Inr _, st, h) \<Rightarrow> Some (s\<lparr>os_state := st, os_handle := h\<rparr>))"

definition or_update_chain :: "(byte list \<Rightarrow> or_op option) \<Rightarrow> or_set \<Rightarrow> or_set option" where
  "or_update_chain deserialize s = do {
     r \<leftarrow> sync_chain (or_play deserialize) (os_handle s) (os_chain s) (os_state s);
     synced s r
   }"

definition or_update_all :: "(byte list \<Rightarrow> or_op option) \<Rightarrow> or_set \<Rightarrow> or_set option" where
  "or_update_all deserialize s = do {
     r \<leftarrow> sync_with (or_play deserialize) (os_handle s) (os_state s);
     synced s r
   }"

text \<open>\<open>get_remote\<close> counts the operations and ignores errors.\<close>

definition get_remote :: "(byte list \<Rightarrow> or_op option) \<Rightarrow> or_set \<Rightarrow> (nat \<times> or_set) option" where
  "get_remote deserialize s = do {
     (_, (st, gotten), h) \<leftarrow> sync_with (\<lambda>(st, gotten) e. do { st \<leftarrow> or_play deserialize st e; n \<leftarrow> u64_add gotten 1; Some (st, n) })
        (os_handle s) (os_state s, 0);
     Some (gotten, s\<lparr>os_state := st, os_handle := h\<rparr>)
   }"

definition local_contains :: "or_set \<Rightarrow> u64 \<Rightarrow> bool" where
  "local_contains s v \<longleftrightarrow> os_state s v \<noteq> None"

definition local_ids_for :: "or_set \<Rightarrow> u64 \<Rightarrow> uuid set option" where
  "local_ids_for s v = os_state s v"

section \<open>What the state stands for\<close>

text \<open>The additions and removals an operation is made of, in order.\<close>

datatype or_prim = PrAdd u64 uuid | PrRem u64 "uuid set"

fun prims :: "or_op \<Rightarrow> uuid \<Rightarrow> or_prim list"
and prims_list :: "or_op list \<Rightarrow> uuid \<Rightarrow> or_prim list" where
  "prims (OAdd v) g = [PrAdd v g]"
| "prims (ORemove v ids) g = [PrRem v ids]"
| "prims (OTransaction ops) g = prims_list ops g"
| "prims_list [] g = []"
| "prims_list (op # ops) g = prims op g @ prims_list ops g"

fun prim_step :: "or_state \<Rightarrow> or_prim \<Rightarrow> or_state" where
  "prim_step st (PrAdd v g) = local_add st v g"
| "prim_step st (PrRem v ids) = local_remove st v ids"

definition pairs :: "or_state \<Rightarrow> (u64 \<times> uuid) set" where
  "pairs st = {(v, g). \<exists>ids. st v = Some ids \<and> g \<in> ids}"

text \<open>No value is kept with no identifier.\<close>

definition or_wf :: "or_state \<Rightarrow> bool" where
  "or_wf st \<longleftrightarrow> (\<forall>v. st v \<noteq> Some {})"

fun adds :: "or_prim list \<Rightarrow> (u64 \<times> uuid) set" where
  "adds [] = {}"
| "adds (PrAdd v g # ps) = insert (v, g) (adds ps)"
| "adds (PrRem v ids # ps) = adds ps"

fun rems :: "or_prim list \<Rightarrow> (u64 \<times> uuid) set" where
  "rems [] = {}"
| "rems (PrAdd v g # ps) = rems ps"
| "rems (PrRem v ids # ps) = {v} \<times> ids \<union> rems ps"

text \<open>What is removed has been added before: nothing is added after its removal.\<close>

fun causal :: "or_prim list \<Rightarrow> bool" where
  "causal [] \<longleftrightarrow> True"
| "causal (PrAdd v g # ps) \<longleftrightarrow> causal ps"
| "causal (PrRem v ids # ps) \<longleftrightarrow> ({v} \<times> ids) \<inter> adds ps = {} \<and> causal ps"

lemma handle_op_prims:
  "or_handle_op st op g = foldl prim_step st (prims op g)"
  "or_handle_ops st ops g = foldl prim_step st (prims_list ops g)"
  by (induction st op g and st ops g rule: or_handle_op_or_handle_ops.induct) auto

lemma or_wf_empty [simp]: "or_wf Map.empty"
  by (simp add: or_wf_def)

lemma prim_step_wf: "or_wf st \<Longrightarrow> or_wf (prim_step st p)"
  by (cases p) (auto simp: or_wf_def local_add_def local_remove_def split: option.splits)

lemma foldl_prim_step_wf: "or_wf st \<Longrightarrow> or_wf (foldl prim_step st ps)"
  by (induction ps arbitrary: st) (auto simp: prim_step_wf)

lemma pairs_step:
  "pairs (local_add st v g) = insert (v, g) (pairs st)"
  "pairs (local_remove st v ids) = pairs st - {v} \<times> ids"
  by (auto simp: pairs_def local_add_def local_remove_def split: option.splits if_splits)

lemma pairs_run: "causal ps \<Longrightarrow> pairs (foldl prim_step st ps) = pairs st \<union> adds ps - rems ps"
  by (induction ps arbitrary: st rule: causal.induct) (auto simp: pairs_step)

lemma pairs_determine:
  assumes "or_wf st" "or_wf st'" "pairs st = pairs st'"
  shows "st = st'"
proof
  fix v
  have "st v = (if {g. (v, g) \<in> pairs st} = {} then None else Some {g. (v, g) \<in> pairs st})" if "or_wf st" for st
    using that by (cases "st v") (auto simp: or_wf_def pairs_def)
  then show "st v = st' v" using assms by metis
qed

lemma adds_rems_set:
  "adds ps = {(v, g). PrAdd v g \<in> set ps}" "rems ps = {(v, g). \<exists>ids. PrRem v ids \<in> set ps \<and> g \<in> ids}"
  by (induction ps rule: causal.induct) auto

lemma prims_converge:
  assumes "set ps = set qs" "causal ps" "causal qs"
  shows "foldl prim_step Map.empty ps = foldl prim_step Map.empty qs"
proof (rule pairs_determine)
  show "pairs (foldl prim_step Map.empty ps) = pairs (foldl prim_step Map.empty qs)"
    using assms by (simp add: pairs_run adds_rems_set)
qed (simp_all add: foldl_prim_step_wf)

section \<open>Replicas\<close>

definition event_prims :: "(byte list \<Rightarrow> or_op option) \<Rightarrow> event \<Rightarrow> or_prim list" where
  "event_prims deserialize e = (case deserialize (ev_data e) of None \<Rightarrow> [] | Some op \<Rightarrow> prims op (ev_id e))"

lemma run_or_play:
  assumes "list_all (\<lambda>e. deserialize (ev_data e) \<noteq> None) es"
  shows "run_events (or_play deserialize) st es = Some (foldl prim_step st (concat (map (event_prims deserialize) es)))"
  using assms by (induction es arbitrary: st) (auto simp: or_play_def or_update_def event_prims_def handle_op_prims)

lemma or_update_all_state:
  assumes "log_up (os_handle s)" "upto_dones (usize_saturating_add (h_snapshots (os_handle s)) 1) (h_reads (os_handle s)) = Some (ps, rest)"
    "map event_of ps = map Some es" "list_all (\<lambda>e. deserialize (ev_data e) \<noteq> None) es"
  shows "\<exists>h'. or_update_all deserialize s =
    Some (s\<lparr>os_state := foldl prim_step (os_state s) (concat (map (event_prims deserialize) es)), os_handle := h'\<rparr>)"
proof -
  let ?h = "(count_handle_snapshot (os_handle s))\<lparr>to_log := to_log (os_handle s) @ [SnapshotAndPrefetch 0]\<rparr>"
  have "take_snapshot (os_handle s) = Some ?h" using assms(1) by (simp add: take_snapshot_def h_send_def count_handle_snapshot_def)
  moreover obtain r h' where "do_sync_with (or_play deserialize) ?h (os_state s) Map.empty =
      Some (Inr r, foldl prim_step (os_state s) (concat (map (event_prims deserialize) es)), h')"
    using do_sync_completes [OF _ assms(3) _ run_or_play [OF assms(4)], of ?h rest] assms(1,2)
    by (fastforce simp: count_handle_snapshot_def)
  ultimately show ?thesis by (auto simp: or_update_all_def sync_with_def synced_def)
qed

lemma do_sync_keeps:
  assumes "do_sync_with f h st seen = Some (r, st', h')" "P st" "\<And>st e st'. P st \<Longrightarrow> f st e = Some st' \<Longrightarrow> P st'"
  shows "P st'"
  using assms(1,2)
proof (induction "length (h_reads h)" arbitrary: h st seen rule: less_induct)
  case less
  show ?case
  proof (cases "\<exists>e h1. next_event True h = Some (Inr e, h1)")
    case True
    then obtain e h1 st1 where e: "next_event True h = Some (Inr e, h1)" "f st e = Some st1"
        "do_sync_with f h1 st1 (see_locs seen (ev_inhabits e)) = Some (r, st', h')"
      using less(2) by (auto simp: do_sync_with.simps [of f h] get_next_event_def split: option.splits)
    then show ?thesis using less(1) [OF next_event_shorter [OF e(1)] e(3)] less(3) assms(3) by blast
  next
    case False
    then show ?thesis using less(2,3)
      by (auto simp: do_sync_with.simps [of f h] get_next_event_def split: option.splits sum.splits get_res.splits)
  qed
qed

lemma or_play_wf: "or_wf st \<Longrightarrow> or_play deserialize st e = Some st' \<Longrightarrow> or_wf st'"
  by (auto simp: or_play_def or_update_def handle_op_prims foldl_prim_step_wf rust_simps)

lemma synced_wf:
  assumes "do_sync_with (or_play deserialize) h st seen = Some r" "or_wf st" "synced s r = Some s'"
  shows "or_wf (os_state s')"
  using assms do_sync_keeps [of "or_play deserialize" h st seen "fst r" "fst (snd r)" "snd (snd r)" or_wf] or_play_wf
  by (cases r) (auto simp: synced_def split: sum.splits)

lemma or_wf_contains: "or_wf (os_state s) \<Longrightarrow> local_contains s v \<longleftrightarrow> (\<exists>g. (v, g) \<in> pairs (os_state s))"
  by (auto simp: or_wf_def local_contains_def pairs_def; metis ex_in_conv)

section \<open>Properties\<close>

text \<open>C4: two replicas that read the same operations in different orders, each order with no addition after the
  removal of what it adds, end with the same state; it holds what was added and not removed.\<close>

theorem or_sets_converge:
  assumes "log_up h1" "upto_dones (usize_saturating_add (h_snapshots h1) 1) (h_reads h1) = Some (ps1, rest1)" "map event_of ps1 = map Some es1"
    and "log_up h2" "upto_dones (usize_saturating_add (h_snapshots h2) 1) (h_reads h2) = Some (ps2, rest2)" "map event_of ps2 = map Some es2"
    and "mset es1 = mset es2" "list_all (\<lambda>e. deserialize (ev_data e) \<noteq> None) es1"
    and "causal (concat (map (event_prims deserialize) es1))" "causal (concat (map (event_prims deserialize) es2))"
  shows "\<exists>s1 s2. or_update_all deserialize (or_set_new h1 c1) = Some s1 \<and> or_update_all deserialize (or_set_new h2 c2) = Some s2 \<and>
    os_state s1 = os_state s2 \<and>
    pairs (os_state s1) = adds (concat (map (event_prims deserialize) es1)) - rems (concat (map (event_prims deserialize) es1))"
proof -
  have es: "set es1 = set es2" using assms(7) by (metis set_mset_mset)
  have "list_all (\<lambda>e. deserialize (ev_data e) \<noteq> None) es2" using assms(8) es by (simp add: list_all_iff)
  then show ?thesis
    using or_update_all_state [of "or_set_new h1 c1" ps1 rest1 es1 deserialize] or_update_all_state [of "or_set_new h2 c2" ps2 rest2 es2 deserialize]
      assms prims_converge [of "concat (map (event_prims deserialize) es1)" "concat (map (event_prims deserialize) es2)"] es
      pairs_run [OF assms(9), of Map.empty]
    by (auto simp: or_set_new_def pairs_def)
qed

definition demo_decode :: "byte list \<Rightarrow> or_op option" where
  "demo_decode bs = (case bs of [v] \<Rightarrow> Some (OAdd (unat v)) | [v, g] \<Rightarrow> Some (ORemove (unat v) {unat g}) | _ \<Rightarrow> None)"

definition demo_event :: "uuid \<Rightarrow> byte list \<Rightarrow> event" where
  "demo_event i d = \<lparr>ev_id = i, ev_data = d, ev_inhabits = [(1, 0)], ev_happens_after = []\<rparr>"

definition demo_replica :: "(uuid \<times> byte list) list \<Rightarrow> log_handle" where
  "demo_replica ops = (handle_new False)\<lparr>h_reads := map (\<lambda>(i, d). ReadOk (single_append i 1 d [])) ops @ [ReadDone]\<rparr>"

theorem or_sets_converge_witness:
  "\<exists>s1 s2. or_update_all demo_decode (or_set_new (demo_replica [(10, [5]), (12, [5, 10]), (11, [6])]) 1) = Some s1 \<and>
    or_update_all demo_decode (or_set_new (demo_replica [(11, [6]), (10, [5]), (12, [5, 10])]) 2) = Some s2 \<and>
    os_state s1 = os_state s2 \<and> pairs (os_state s1) = {(6, 11)}"
proof -
  let ?es1 = "[demo_event 10 [5], demo_event 12 [5, 10], demo_event 11 [6]]"
  let ?es2 = "[demo_event 11 [6], demo_event 10 [5], demo_event 12 [5, 10]]"
  have u: "upto_dones 1 (map (\<lambda>(i, d). ReadOk (single_append i 1 d [])) ops @ [ReadDone]) = Some (map (\<lambda>(i, d). single_append i 1 d []) ops, [])" for ops
    by (induction ops) auto
  show ?thesis
    using or_sets_converge [of "demo_replica [(10, [5]), (12, [5, 10]), (11, [6])]" _ "[]" ?es1
        "demo_replica [(11, [6]), (10, [5]), (12, [5, 10])]" _ "[]" ?es2 demo_decode 1 2]
    by (simp add: demo_replica_def handle_new_def usize_saturating_add_def u64_max_def u [simplified] event_of_def single_append_def
        demo_event_def event_prims_def demo_decode_def)
qed

text \<open>C17: reading operations never leaves a value in the map without an identifier, so that \<open>local_contains\<close> tells
  whether some addition of the value is still there.\<close>

theorem or_set_type:
  assumes "or_wf (os_state s)" "or_update_all deserialize s = Some s' \<or> or_update_chain deserialize s = Some s'"
  shows "or_wf (os_state s') \<and> (local_contains s' v \<longleftrightarrow> (\<exists>g. (v, g) \<in> pairs (os_state s')))"
proof -
  have "or_wf (os_state s')" using assms synced_wf
    by (auto simp: or_update_all_def or_update_chain_def sync_with_def sync_chain_def rust_simps)
  then show ?thesis by (simp add: or_wf_contains)
qed

theorem or_set_type_witness:
  "\<exists>s. or_update_all demo_decode (or_set_new (demo_replica [(10, [5]), (12, [5, 10]), (11, [6])]) 1) = Some s \<and> or_wf (os_state s) \<and>
    local_contains s 5 = (\<exists>g. (5, g) \<in> pairs (os_state s))"
proof -
  let ?s = "or_set_new (demo_replica [(10, [5]), (12, [5, 10]), (11, [6])]) 1"
  obtain s where "or_update_all demo_decode ?s = Some s"
    using or_update_all_state [of ?s "map (\<lambda>(i, d). single_append i 1 d []) [(10, [5]), (12, [5, 10]), (11, [6])]" "[]"
        "[demo_event 10 [5], demo_event 12 [5, 10], demo_event 11 [6]]" demo_decode]
    by (auto simp: or_set_new_def demo_replica_def handle_new_def usize_saturating_add_def u64_max_def event_of_def single_append_def
        demo_event_def demo_decode_def)
  with or_set_type [of ?s demo_decode s 5] show ?thesis by (auto simp: or_set_new_def)
qed

end
