(* ===== verification/Client_Store.thy ===== *)
theory Client_Store
  imports Client_Log
begin

text \<open>
  The client's store (\<^verbatim>\<open>fuzzy_log_client/src/store.rs\<close>): it sends the requests of the log thread to the servers
  of their chains, runs both phases of Skeen's protocol for entries on several servers, and gives answers back
  to the log thread. Reading from and writing to sockets is the reactor's: a message that is received is a
  packet with the number of its server, and what is to be sent is a list of packets with server numbers, to
  each of which the reactor appends the address of the receiver. A buffer stands for the packet in it; an \<open>Rc\<close>
  is shared with nobody when the source asks for it to be unique, so that it is its content.
\<close>

section \<open>State\<close>

datatype write_state =
    WSingleServer packet
  | WSkeens1 packet "nat set" "u64 list" bool
  | WSkeens2 packet "nat set" u64
  | WSnapshotSkeens1 packet "nat set" "u64 list"
  | WSnapshotSkeens2 packet "nat set" u64
  | WGC packet

record sk2_send =
  sk2_buf :: packet
  sk2_max_ts :: u64
  sk2_servers :: "nat list"
  sk2_is_snapshot :: bool

record store =
  sent_writes :: "uuid \<rightharpoonup> write_state"
  sent_reads :: "order_index \<rightharpoonup> nat"
  waiting_buffers :: nat
  max_timestamp_seen :: "order \<rightharpoonup> u64"
  num_chain_servers :: nat
  requests :: "packet option list"
  log_connected :: bool
  to_client :: "from_store list"
  client_up :: bool
  is_unreplicated :: bool
  new_multi :: bool
  reads_my_writes :: bool
  store_finished :: bool
  streams :: "nat list"
  outbox :: "(nat \<times> packet) list"
  pending_skeens2 :: "sk2_send list"

text \<open>What \<open>build\<close> makes of connections to so many servers; a replicated store has a connection to the head
  and one to the tail of each.\<close>

definition store_new :: "nat \<Rightarrow> bool \<Rightarrow> store" where
  "store_new n unreplicated =
     \<lparr>sent_writes = Map.empty, sent_reads = Map.empty, waiting_buffers = 0, max_timestamp_seen = Map.empty, num_chain_servers = n,
      requests = [], log_connected = True, to_client = [], client_up = True, is_unreplicated = unreplicated, new_multi = True,
      reads_my_writes = False, store_finished = False, streams = [0..<if unreplicated then n else 2 * n], outbox = [],
      pending_skeens2 = []\<rparr>"

section \<open>Servers of chains\<close>

definition write_server_for_chain :: "order \<Rightarrow> nat \<Rightarrow> nat option" where
  "write_server_for_chain chain n = (if n = 0 then None else Some (chain mod n))"

definition read_server_for_chain :: "order \<Rightarrow> nat \<Rightarrow> bool \<Rightarrow> nat option" where
  "read_server_for_chain chain n unreplicated =
     (if unreplicated then write_server_for_chain chain n
      else if n = 0 then None else Some (chain mod n + n))"

definition read_server_for_write_server :: "store \<Rightarrow> nat \<Rightarrow> nat" where
  "read_server_for_write_server s w = (if is_unreplicated s then w else w + num_chain_servers s)"

definition is_single_node_append :: "store \<Rightarrow> packet \<Rightarrow> bool option" where
  "is_single_node_append s msg = do {
     locs \<leftarrow> pkt_locs msg;
     let cs = map fst (filter (\<lambda>oi. oi \<noteq> (0, 0)) locs);
     rust_assert (cs = [] \<or> 0 < num_chain_servers s);
     Some (list_all (\<lambda>c. c mod num_chain_servers s = hd cs mod num_chain_servers s) cs)
   }"

definition get_servers_for_multi :: "store \<Rightarrow> packet \<Rightarrow> nat list option" where
  "get_servers_for_multi s msg = do {
     layout \<leftarrow> pkt_layout msg;
     rust_assert (layout \<in> {LMultiput, LSentinel, LGC, LSnapshot});
     locs \<leftarrow> pkt_locs msg;
     let cs = map fst (filter (\<lambda>oi. oi \<noteq> (0, 0)) locs);
     rust_assert (cs = [] \<or> 0 < num_chain_servers s);
     Some (filter (\<lambda>i. list_ex (\<lambda>c. c mod num_chain_servers s = i) cs) [0..<num_chain_servers s])
   }"

section \<open>What the client is told\<close>

definition deliver :: "store \<Rightarrow> from_store \<Rightarrow> store" where
  "deliver s m = (if client_up s then s\<lparr>to_client := to_client s @ [m]\<rparr> else s\<lparr>store_finished := True\<rparr>)"

definition deliver_read :: "store \<Rightarrow> order_index \<Rightarrow> packet \<Rightarrow> store" where
  "deliver_read s loc p = deliver (s\<lparr>waiting_buffers := waiting_buffers s - 1\<rparr>) (ReadComplete loc p)"

definition see_timestamp :: "u64 \<Rightarrow> (order \<rightharpoonup> u64) \<Rightarrow> order \<Rightarrow> (order \<rightharpoonup> u64)" where
  "see_timestamp max_ts m o' = m(o' \<mapsto> (case m o' of Some mts \<Rightarrow> if mts \<le> max_ts then max_ts else mts | None \<Rightarrow> max_ts))"

definition see_timestamps :: "store \<Rightarrow> u64 \<Rightarrow> order_index list \<Rightarrow> store" where
  "see_timestamps s max_ts locs = s\<lparr>max_timestamp_seen := foldl (see_timestamp max_ts) (max_timestamp_seen s) (map fst locs)\<rparr>"

section \<open>Finished writes\<close>

text \<open>The timestamps a server gives for its chains.\<close>

fun fill_timestamps :: "nat \<Rightarrow> nat \<Rightarrow> bool \<Rightarrow> order_index list \<Rightarrow> u64 list \<Rightarrow> u64 list option" where
  "fill_timestamps token n unreplicated [] ts = Some ts"
| "fill_timestamps token n unreplicated ((o', t) # locs) ts = do {
     mine \<leftarrow> (if o' = 0 then Some False else do { sv \<leftarrow> read_server_for_chain o' n unreplicated; Some (sv = token) });
     (case ts of
        [] \<Rightarrow> if mine then None else fill_timestamps token n unreplicated locs []
      | x # xs \<Rightarrow> do {
          rust_assert (mine \<longrightarrow> x = 0 \<and> 0 < t);
          xs \<leftarrow> fill_timestamps token n unreplicated locs xs;
          Some ((if mine then t else x) # xs)
        })
   }"

text \<open>\<open>skeens_finished\<close>, with what it does to the servers still to answer and to the timestamps.\<close>

definition skeens_finished ::
  "store \<Rightarrow> nat \<Rightarrow> packet \<Rightarrow> uuid \<Rightarrow> nat set \<Rightarrow> u64 list \<Rightarrow> (u64 option \<times> nat set \<times> u64 list \<times> store) option" where
  "skeens_finished s token packet i remaining ts =
     (if token \<notin> remaining then Some (None, remaining, ts, s)
      else do {
        let remaining = remaining - {token};
        rust_assert (i = pkt_id packet);
        locs \<leftarrow> pkt_locs packet;
        ts \<leftarrow> fill_timestamps token (num_chain_servers s) (is_unreplicated s) locs ts;
        if remaining = {} then do {
          rust_assert (ts \<noteq> []);
          let max_ts = Max (set ts);
          Some (Some max_ts, remaining, ts, see_timestamps s max_ts locs)
        } else Some (None, remaining, ts, s)
      })"

definition add_sk2 :: "store \<Rightarrow> packet \<Rightarrow> u64 \<Rightarrow> bool \<Rightarrow> store option" where
  "add_sk2 s buf max_ts is_snapshot = do {
     servers \<leftarrow> get_servers_for_multi s buf;
     Some (s\<lparr>pending_skeens2 := pending_skeens2 s @
       [\<lparr>sk2_buf = buf, sk2_max_ts = max_ts, sk2_servers = servers, sk2_is_snapshot = is_snapshot\<rparr>]\<rparr>)
   }"

definition insert_write :: "store \<Rightarrow> uuid \<Rightarrow> write_state \<Rightarrow> store" where
  "insert_write s i w = s\<lparr>sent_writes := (sent_writes s)(i \<mapsto> w)\<rparr>"

text \<open>Filling in the locations a server gave in phase two: the own locations, those of the answer, and whether
  all are known.\<close>

fun fill_sk2 ::
  "nat \<Rightarrow> nat \<Rightarrow> bool \<Rightarrow> order_index list \<Rightarrow> order_index list \<Rightarrow> (order_index list \<times> order_index list \<times> bool) option" where
  "fill_sk2 token n unreplicated mine [] = Some (mine, [], True)"
| "fill_sk2 token n unreplicated [] (loc # from) = None"
| "fill_sk2 token n unreplicated (m # mine) (loc # from) = do {
     (m, loc, done) \<leftarrow> (if fst m = 0 then Some (m, loc, True)
       else do {
         sv \<leftarrow> read_server_for_chain (fst loc) n unreplicated;
         Some (if sv = token \<and> snd loc \<noteq> 0 then (loc, loc, True)
               else if snd m = 0 then (m, loc, False) else (m, m, True))
       });
     (mine, from, rest) \<leftarrow> fill_sk2 token n unreplicated mine from;
     Some (m # mine, loc # from, done \<and> rest)
   }"

definition all_located :: "order_index list \<Rightarrow> bool" where
  "all_located locs \<longleftrightarrow> list_all (\<lambda>(o', i). o' \<noteq> 0 \<longrightarrow> i \<noteq> 0) locs"

fun fill_locs :: "nat \<Rightarrow> nat \<Rightarrow> bool \<Rightarrow> order_index list \<Rightarrow> order_index list \<Rightarrow> (order_index list \<times> nat) option" where
  "fill_locs token n unreplicated mine [] = Some (mine, 0)"
| "fill_locs token n unreplicated [] (loc # from) = None"
| "fill_locs token n unreplicated (m # mine) (loc # from) = do {
     (m, k) \<leftarrow> (if fst m = 0 then Some (m, 1)
       else do {
         sv \<leftarrow> read_server_for_chain (fst loc) n unreplicated;
         Some (if sv = token \<and> snd loc \<noteq> 0 then (loc, 1) else (m, if snd m \<noteq> 0 then 1 else 0))
       });
     (mine, filled) \<leftarrow> fill_locs token n unreplicated mine from;
     Some (m # mine, k + filled)
   }"

text \<open>The locations of a snapshot.\<close>

fun fill_snapshot :: "nat \<Rightarrow> nat \<Rightarrow> bool \<Rightarrow> order_index list \<Rightarrow> order_index list \<Rightarrow> order_index list option" where
  "fill_snapshot token n unreplicated mine [] = Some mine"
| "fill_snapshot token n unreplicated [] (loc # from) = None"
| "fill_snapshot token n unreplicated (m # mine) (loc # from) = do {
     m \<leftarrow> (if fst m = 0 then Some m
       else do {
         sv \<leftarrow> read_server_for_chain (fst loc) n unreplicated;
         Some (if sv = token then loc else m)
       });
     mine \<leftarrow> fill_snapshot token n unreplicated mine from;
     Some (m # mine)
   }"

text \<open>\<open>handle_completed_write\<close> after the state of the write was taken out of \<open>sent_writes\<close>. The result is an error
  or whether the write is one of this client, with the packet as it was filled in.\<close>

definition completed_skeens1 ::
  "store \<Rightarrow> nat \<Rightarrow> packet \<Rightarrow> packet \<Rightarrow> nat set \<Rightarrow> u64 list \<Rightarrow> bool \<Rightarrow> ((unit + bool) \<times> packet \<times> store) option" where
  "completed_skeens1 s token packet buf remaining ts is_sentinel = do {
     flag \<leftarrow> pkt_flag packet;
     if \<not> bits_contains flag fSkeens1Queued then Some (Inl (), packet, s)
     else do {
       rust_assert (bits_contains (pkt_kind packet) kMultiput);
       rust_assert (new_multi s);
       (ready, remaining, ts, s) \<leftarrow> skeens_finished s token packet (pkt_id packet) remaining ts;
       s \<leftarrow> (case ready of
               Some max_ts \<Rightarrow> add_sk2 s buf max_ts False
             | None \<Rightarrow> Some (insert_write s (pkt_id packet) (WSkeens1 buf remaining ts is_sentinel)));
       Some (Inl (), packet, s)
     }
   }"

definition completed_skeens2 ::
  "store \<Rightarrow> nat \<Rightarrow> packet \<Rightarrow> packet \<Rightarrow> nat set \<Rightarrow> u64 \<Rightarrow> ((unit + bool) \<times> packet \<times> store) option" where
  "completed_skeens2 s token packet buf remaining max_ts = do {
     rust_assert (new_multi s);
     mine \<leftarrow> pkt_locs buf;
     from \<leftarrow> pkt_locs packet;
     (mine, from, done) \<leftarrow> fill_sk2 token (num_chain_servers s) (is_unreplicated s) mine from;
     buf \<leftarrow> locs_mut buf mine;
     packet \<leftarrow> locs_mut packet from;
     if done then do {
       rust_assert (all_located mine \<and> all_located from);
       let s = deliver (see_timestamps s max_ts mine) (WriteComplete (pkt_id packet) mine);
       Some (Inr True, packet, s)
     } else Some (Inl (), packet, insert_write s (pkt_id packet) (WSkeens2 buf remaining max_ts))
   }"

definition completed_snapshot_skeens1 ::
  "store \<Rightarrow> nat \<Rightarrow> packet \<Rightarrow> packet \<Rightarrow> nat set \<Rightarrow> u64 list \<Rightarrow> ((unit + bool) \<times> packet \<times> store) option" where
  "completed_snapshot_skeens1 s token packet buf remaining ts = do {
     flag \<leftarrow> pkt_flag packet;
     if \<not> bits_contains flag fSkeens1Queued then Some (Inl (), packet, s)
     else do {
       rust_assert (bits_contains (pkt_kind packet) kSnapshot);
       rust_assert (new_multi s);
       (ready, remaining, ts, s) \<leftarrow> skeens_finished s token packet (pkt_id packet) remaining ts;
       s \<leftarrow> (case ready of
               Some max_ts \<Rightarrow> add_sk2 s buf max_ts True
             | None \<Rightarrow> Some (insert_write s (pkt_id packet) (WSnapshotSkeens1 buf remaining ts)));
       Some (Inl (), packet, s)
     }
   }"

text \<open>The loop that ends when the client is gone.\<close>

fun deliver_snapshot :: "store \<Rightarrow> packet \<Rightarrow> order_index list \<Rightarrow> store" where
  "deliver_snapshot s buf [] = s"
| "deliver_snapshot s buf (l # locs) =
     (let s = deliver s (ReadComplete l buf) in if client_up s then deliver_snapshot s buf locs else s)"

definition completed_snapshot_skeens2 ::
  "store \<Rightarrow> nat \<Rightarrow> packet \<Rightarrow> packet \<Rightarrow> nat set \<Rightarrow> u64 \<Rightarrow> ((unit + bool) \<times> packet \<times> store) option" where
  "completed_snapshot_skeens2 s token packet buf remaining max_ts = do {
     rust_assert (new_multi s);
     let remaining = remaining - {token};
     buf \<leftarrow> (if remaining = {} then set_flag buf fReadSuccess else Some buf);
     mine \<leftarrow> pkt_locs buf;
     from \<leftarrow> pkt_locs packet;
     mine \<leftarrow> fill_snapshot token (num_chain_servers s) (is_unreplicated s) mine from;
     buf \<leftarrow> locs_mut buf mine;
     if remaining = {} then Some (Inl (), packet, deliver_snapshot s buf mine)
     else Some (Inl (), packet, insert_write s (pkt_id packet) (WSnapshotSkeens2 buf remaining max_ts))
   }"

definition completed_single_server :: "store \<Rightarrow> nat \<Rightarrow> packet \<Rightarrow> packet \<Rightarrow> ((unit + bool) \<times> packet \<times> store) option" where
  "completed_single_server s token packet buf = do {
     mine \<leftarrow> pkt_locs buf;
     from \<leftarrow> pkt_locs packet;
     (mine, filled) \<leftarrow> fill_locs token (num_chain_servers s) (is_unreplicated s) mine from;
     buf \<leftarrow> locs_mut buf mine;
     if filled < length from then Some (Inl (), packet, insert_write s (pkt_id packet) (WSingleServer buf))
     else do {
       max_ts \<leftarrow> lock_num packet;
       let s = deliver (see_timestamps s max_ts from) (WriteComplete (pkt_id packet) from);
       Some (Inr True, packet, s)
     }
   }"

definition handle_completed_write :: "store \<Rightarrow> nat \<Rightarrow> packet \<Rightarrow> ((unit + bool) \<times> packet \<times> store) option" where
  "handle_completed_write s token packet = do {
     flag \<leftarrow> pkt_flag packet;
     let i = pkt_id packet;
     (case sent_writes s i of
        Some w \<Rightarrow> do {
          let s = s\<lparr>sent_writes := (sent_writes s)(i := None)\<rparr>;
          (case w of
             WSkeens1 buf remaining ts is_sentinel \<Rightarrow> completed_skeens1 s token packet buf remaining ts is_sentinel
           | WSkeens2 buf remaining max_ts \<Rightarrow> completed_skeens2 s token packet buf remaining max_ts
           | WSnapshotSkeens1 buf remaining ts \<Rightarrow> completed_snapshot_skeens1 s token packet buf remaining ts
           | WSnapshotSkeens2 buf remaining max_ts \<Rightarrow> completed_snapshot_skeens2 s token packet buf remaining max_ts
           | WSingleServer buf \<Rightarrow> completed_single_server s token packet buf
           | WGC buf \<Rightarrow> Some (Inl (), packet, s))
        }
      | None \<Rightarrow> do {
          layout \<leftarrow> pkt_layout packet;
          Some (if layout \<in> {LData, LMultiput, LSentinel, LRead} \<or> layout = LSnapshot \<and> \<not> bits_contains flag fTakeLock
                then Inr False else Inl (), packet, s)
        })
   }"

section \<open>Finished reads\<close>

text \<open>\<open>Occupied\<close> in \<open>sent_reads\<close>: whether somebody waits for the location, with one request less.\<close>

definition take_sent_read :: "store \<Rightarrow> order_index \<Rightarrow> (bool \<times> store) option" where
  "take_sent_read s oi =
     (case sent_reads s oi of
        None \<Rightarrow> Some (False, s)
      | Some n \<Rightarrow> do {
          rust_assert (snd oi \<noteq> 0);
          Some (0 < n, s\<lparr>sent_reads := (sent_reads s)(oi := if n \<le> 1 then None else Some (n - 1))\<rparr>)
        })"

fun completed_read_locs ::
  "store \<Rightarrow> packet \<Rightarrow> flag \<Rightarrow> u64 \<Rightarrow> bool \<Rightarrow> bool \<Rightarrow> bool \<Rightarrow> bool \<Rightarrow> order_index list \<Rightarrow> (bool \<times> store) option" where
  "completed_read_locs s packet flag max_ts my_write is_sentinel sentinel_loc was_needed [] = Some (was_needed, s)"
| "completed_read_locs s packet flag max_ts my_write is_sentinel sentinel_loc was_needed (oi # locs) =
     (if oi = (0, 0) then completed_read_locs s packet flag max_ts my_write is_sentinel True was_needed locs
      else do {
        rust_assert (my_write \<longrightarrow> snd oi \<noteq> 0);
        let s = (if bits_contains flag fReadSuccess then see_timestamps s max_ts [oi] else s);
        if is_sentinel \<and> \<not> sentinel_loc
        then completed_read_locs s packet flag max_ts my_write is_sentinel sentinel_loc was_needed locs
        else do {
          (needed, s) \<leftarrow> take_sent_read s oi;
          if needed \<or> (my_write \<and> reads_my_writes s) then do {
            rust_assert (snd oi \<noteq> 0);
            completed_read_locs (deliver_read s oi packet) packet flag max_ts my_write is_sentinel sentinel_loc True locs
          }
          else completed_read_locs s packet flag max_ts my_write is_sentinel sentinel_loc was_needed locs
        }
      })"

definition store_completed_read :: "store \<Rightarrow> packet \<Rightarrow> bool \<Rightarrow> (bool \<times> store) option" where
  "store_completed_read s packet my_write = do {
     layout \<leftarrow> pkt_layout packet;
     locs \<leftarrow> pkt_locs packet;
     if layout = LSnapshot then Some (True, foldl (\<lambda>s oi. deliver_read s oi packet) s locs)
     else do {
       max_ts \<leftarrow> lock_num packet;
       flag \<leftarrow> pkt_flag packet;
       completed_read_locs s packet flag max_ts my_write (layout = LSentinel) False False locs
     }
   }"

definition handle_completion :: "store \<Rightarrow> nat \<Rightarrow> packet \<Rightarrow> store option" where
  "handle_completion s token packet = do {
     (r, packet, s) \<leftarrow> handle_completed_write s token packet;
     (case r of
        Inl _ \<Rightarrow> Some s
      | Inr my_write \<Rightarrow> do { (_, s) \<leftarrow> store_completed_read s packet my_write; Some s })
   }"

definition store_handle_message :: "store \<Rightarrow> nat \<Rightarrow> packet \<Rightarrow> store option" where
  "store_handle_message s token packet = do {
     flag \<leftarrow> pkt_flag packet;
     if bits_contains flag fReadSuccess then
       if \<not> bits_contains flag fUnlock \<or> bits_contains flag fNewMultiPut then handle_completion s token packet
       else Some s
     else do {
       layout \<leftarrow> pkt_layout packet;
       if layout = LRead \<and> \<not> bits_contains flag fTakeLock
       then do { (_, s) \<leftarrow> store_completed_read s packet False; Some s }
       else None
     }
   }"

section \<open>Requests\<close>

text \<open>The packet in a buffer whose tag \<open>slice_to_sentinel\<close> has set: a multi-append without its data, and a snapshot as
  a sentinel with no dependencies.\<close>

fun as_sentinel :: "packet \<Rightarrow> packet option" where
  "as_sentinel (PMulti i f k ls ds d) = Some (PSenti i f (length d) k ls ds)"
| "as_sentinel (PSenti i f db k ls ds) = Some (PSenti i f db k ls ds)"
| "as_sentinel (PSnapshot i f db nd k ls) = (if nd = 0 then Some (PSenti i f db k ls []) else None)"
| "as_sentinel _ = None"

definition push_out :: "store \<Rightarrow> nat \<Rightarrow> packet \<Rightarrow> store" where
  "push_out s token p = s\<lparr>outbox := outbox s @ [(token, p)]\<rparr>"

text \<open>\<open>None\<close> inside is that there is no such connection.\<close>

definition add_single_server_send :: "store \<Rightarrow> nat \<Rightarrow> packet \<Rightarrow> store option option" where
  "add_single_server_send s token msg =
     (if token \<notin> set (streams s) then Some None
      else do {
        layout \<leftarrow> pkt_layout msg;
        let s = push_out s token msg;
        if layout = LRead then do {
          locs \<leftarrow> pkt_locs msg;
          (case locs of
             [] \<Rightarrow> None
           | loc # _ \<Rightarrow> do {
               let n = (case sent_reads s loc of Some n \<Rightarrow> n | None \<Rightarrow> 0) + 1;
               rust_assert (n < 2 ^ 16);
               Some (Some (s\<lparr>sent_reads := (sent_reads s)(loc \<mapsto> n), waiting_buffers := waiting_buffers s + 1\<rparr>))
             })
        }
        else if layout = LSnapshot then Some (Some s)
        else Some (Some (insert_write s (pkt_id msg) (WSingleServer msg)))
      })"

definition expect_sent :: "store option option \<Rightarrow> store option" where
  "expect_sent r = do { sent \<leftarrow> r; sent }"

definition remaining_of :: "store \<Rightarrow> nat list \<Rightarrow> nat set" where
  "remaining_of s servers = set (map (read_server_for_write_server s) servers)"

text \<open>The loop of \<open>add_skeens1\<close>; \<open>send\<close> is the state kept, that of the first server. The source sets the tag of the
  one shared buffer to that of a multi-append or of a sentinel for each server; what tag it is left with does not
  matter, since the buffer is next used by \<open>send_skeens2\<close>, which sets the tag again.\<close>

fun send_skeens1 ::
  "store \<Rightarrow> packet \<Rightarrow> order_index list \<Rightarrow> nat set \<Rightarrow> write_state option \<Rightarrow> nat list \<Rightarrow> (write_state option \<times> store) option" where
  "send_skeens1 s msg locs remaining send [] = Some (send, s)"
| "send_skeens1 s msg locs remaining send (sv # servers) =
     (if sv \<notin> set (streams s) then send_skeens1 s msg locs remaining send servers
      else do {
        let is_data = list_ex (\<lambda>oi. fst oi mod num_chain_servers s = sv) (takeWhile (\<lambda>oi. oi \<noteq> (0, 0)) locs);
        layout \<leftarrow> pkt_layout msg;
        rust_assert (layout = LMultiput \<or> layout = LSentinel);
        flag \<leftarrow> pkt_flag msg;
        rust_assert (bits_contains flag fTakeLock);
        rust_assert (is_data \<or> (0, 0) \<in> set locs);
        p \<leftarrow> (if is_data then Some msg else as_sentinel msg);
        send_skeens1 (push_out s sv p) msg locs remaining
          (case send of None \<Rightarrow> Some (WSkeens1 msg remaining (replicate (length locs) 0) (\<not> is_data)) | Some w \<Rightarrow> Some w) servers
      })"

definition keep_write :: "store \<Rightarrow> uuid \<Rightarrow> write_state option \<Rightarrow> store" where
  "keep_write s i send = (case send of None \<Rightarrow> s | Some w \<Rightarrow> insert_write s i w)"

definition add_skeens1 :: "store \<Rightarrow> packet \<Rightarrow> store option" where
  "add_skeens1 s msg = do {
     locs \<leftarrow> pkt_locs msg;
     servers \<leftarrow> get_servers_for_multi s msg;
     (send, s) \<leftarrow> send_skeens1 s msg locs (remaining_of s servers) None servers;
     Some (keep_write s (pkt_id msg) send)
   }"

fun send_to_servers :: "store \<Rightarrow> packet \<Rightarrow> write_state \<Rightarrow> write_state option \<Rightarrow> nat list \<Rightarrow> write_state option \<times> store" where
  "send_to_servers s msg w send [] = (send, s)"
| "send_to_servers s msg w send (sv # servers) =
     (if sv \<notin> set (streams s) then send_to_servers s msg w send servers
      else send_to_servers (push_out s sv msg) msg w (case send of None \<Rightarrow> Some w | Some w' \<Rightarrow> Some w') servers)"

definition add_snapshot_skeens1 :: "store \<Rightarrow> packet \<Rightarrow> store option" where
  "add_snapshot_skeens1 s msg = do {
     locs \<leftarrow> pkt_locs msg;
     servers \<leftarrow> get_servers_for_multi s msg;
     let (send, s) = send_to_servers s msg (WSnapshotSkeens1 msg (remaining_of s servers) (replicate (length locs) 0)) None servers;
     Some (keep_write s (pkt_id msg) send)
   }"

definition clear_indices :: "packet \<Rightarrow> packet option" where
  "clear_indices p = do { locs \<leftarrow> pkt_locs p; locs_mut p (map (\<lambda>(o', _). (o', 0)) locs) }"

text \<open>The second phase: a sentinel with the maximum for every server, whatever the first phase was for.\<close>

definition send_skeens2 :: "store \<Rightarrow> sk2_send \<Rightarrow> store option" where
  "send_skeens2 s sk2 = do {
     buf \<leftarrow> as_sentinel (sk2_buf sk2);
     buf \<leftarrow> flag_mut buf (\<lambda>f. bits_insert (bits_insert f fUnlock) fNewMultiPut);
     buf \<leftarrow> clear_indices buf;
     buf \<leftarrow> lock_mut buf (sk2_max_ts sk2);
     let remaining = remaining_of s (sk2_servers sk2);
     let w = (if sk2_is_snapshot sk2 then WSnapshotSkeens2 buf remaining (sk2_max_ts sk2) else WSkeens2 buf remaining (sk2_max_ts sk2));
     let (send, s) = send_to_servers s buf w None (sk2_servers sk2);
     Some (keep_write s (pkt_id buf) send)
   }"

fun send_pending :: "store \<Rightarrow> sk2_send list \<Rightarrow> store option" where
  "send_pending s [] = Some s"
| "send_pending s (sk2 # rest) = do { s \<leftarrow> send_skeens2 s sk2; send_pending s rest }"

definition after_work :: "store \<Rightarrow> store option" where
  "after_work s = send_pending (s\<lparr>pending_skeens2 := []\<rparr>) (pending_skeens2 s)"

fun send_all :: "store \<Rightarrow> packet \<Rightarrow> nat list \<Rightarrow> store option" where
  "send_all s msg [] = Some s"
| "send_all s msg (sv # servers) = do {
     sent \<leftarrow> add_single_server_send s sv msg;
     send_all (case sent of Some s' \<Rightarrow> s' | None \<Rightarrow> s) msg servers
   }"

definition request_data :: "store \<Rightarrow> packet \<Rightarrow> order_index \<Rightarrow> store option" where
  "request_data s msg loc = do {
     flag \<leftarrow> pkt_flag msg;
     msg \<leftarrow> (if bits_contains flag fDirectWrite then Some msg
            else lock_mut msg (case max_timestamp_seen s (fst loc) of Some ts \<Rightarrow> ts | None \<Rightarrow> 0));
     sv \<leftarrow> write_server_for_chain (fst loc) (num_chain_servers s);
     expect_sent (add_single_server_send s sv msg)
   }"

definition request_multi :: "store \<Rightarrow> packet \<Rightarrow> store option" where
  "request_multi s msg = do {
     flag \<leftarrow> pkt_flag msg;
     locs \<leftarrow> pkt_locs msg;
     if bits_contains flag fDirectWrite then do {
       servers \<leftarrow> get_servers_for_multi s msg;
       send_all s msg servers
     }
     else do {
       single \<leftarrow> is_single_node_append s msg;
       if single then do {
         msg \<leftarrow> lock_mut msg 1;
         (case locs of
            [] \<Rightarrow> None
          | (chain, _) # _ \<Rightarrow> do {
              sv \<leftarrow> write_server_for_chain chain (num_chain_servers s);
              expect_sent (add_single_server_send s sv msg)
            })
       }
       else do {
         rust_assert (new_multi s);
         msg \<leftarrow> flag_mut msg (\<lambda>f. bits_insert (bits_insert f fTakeLock) fNewMultiPut);
         msg \<leftarrow> clear_indices msg;
         add_skeens1 s msg
       }
     }
   }"

definition request_snapshot :: "store \<Rightarrow> packet \<Rightarrow> store option" where
  "request_snapshot s msg = do {
     locs \<leftarrow> pkt_locs msg;
     single \<leftarrow> is_single_node_append s msg;
     if single then
       (case locs of
          [] \<Rightarrow> None
        | (chain, _) # _ \<Rightarrow> do {
            sv \<leftarrow> read_server_for_chain chain (num_chain_servers s) (is_unreplicated s);
            expect_sent (add_single_server_send s sv msg)
          })
     else do {
       rust_assert (new_multi s);
       msg \<leftarrow> flag_mut msg (\<lambda>f. bits_insert (bits_insert f fTakeLock) fNewMultiPut);
       add_snapshot_skeens1 s msg
     }
   }"

text \<open>\<open>handle_new_requests_from_client\<close>: whether there may be more; an empty buffer is \<open>None\<close> in the queue.\<close>

definition new_request :: "store \<Rightarrow> packet \<Rightarrow> store option" where
  "new_request s msg = do {
     layout \<leftarrow> pkt_layout msg;
     (case layout of
        LRead \<Rightarrow> do {
          locs \<leftarrow> pkt_locs msg;
          (case locs of
             [] \<Rightarrow> None
           | loc # _ \<Rightarrow> do {
               sv \<leftarrow> read_server_for_chain (fst loc) (num_chain_servers s) (is_unreplicated s);
               expect_sent (add_single_server_send s sv msg)
             })
        }
      | LData \<Rightarrow> do { locs \<leftarrow> pkt_locs msg; (case locs of [] \<Rightarrow> None | loc # _ \<Rightarrow> request_data s msg loc) }
      | LMultiput \<Rightarrow> request_multi s msg
      | LSnapshot \<Rightarrow> request_snapshot s msg
      | _ \<Rightarrow> None)
   }"

definition handle_new_requests_from_client :: "store \<Rightarrow> (bool \<times> store) option" where
  "handle_new_requests_from_client s =
     (case requests s of
        [] \<Rightarrow> Some (False, if log_connected s then s else s\<lparr>store_finished := True\<rparr>)
      | None # rs \<Rightarrow> Some (False, s\<lparr>requests := rs, store_finished := True\<rparr>)
      | Some msg # rs \<Rightarrow> do { s \<leftarrow> new_request (s\<lparr>requests := rs\<rparr>) msg; Some (True, s) })"

text \<open>\<open>on_poll\<close> takes at most ten requests.\<close>

primrec poll_requests :: "nat \<Rightarrow> store \<Rightarrow> store option" where
  "poll_requests 0 s = Some s"
| "poll_requests (Suc n) s = do {
     (keep_going, s) \<leftarrow> handle_new_requests_from_client s;
     if keep_going then poll_requests n s else Some s
   }"

definition on_poll :: "store \<Rightarrow> store option" where
  "on_poll s = poll_requests 10 s"

text \<open>What the reactor makes the store do.\<close>

datatype store_event = StorePoll | StoreRecv nat packet | StoreAfterWork

fun store_step :: "store \<Rightarrow> store_event \<Rightarrow> store option" where
  "store_step s StorePoll = on_poll s"
| "store_step s (StoreRecv token p) = store_handle_message s token p"
| "store_step s StoreAfterWork = after_work s"

fun store_run :: "store \<Rightarrow> store_event list \<Rightarrow> store option" where
  "store_run s [] = Some s"
| "store_run s (e # es) = do { s \<leftarrow> store_step s e; store_run s es }"

end
