(* ===== verification/Client_Skeens.thy ===== *)
theory Client_Skeens
  imports Client_Store
begin

text \<open>
  The client's part in Skeen's protocol: the second phase of an entry on several servers starts when every server
  has answered the first, and takes the maximum of the timestamps they gave to all of them.
\<close>

section \<open>Sentinels in place\<close>

lemma as_sentinel_bytes:
  assumes "packet_fits p" "as_sentinel p = Some q"
  shows "\<exists>b rest. slice_to_sentinel (to_vec p) = Some (to_vec q @ rest, b) \<and> try_packet (to_vec q @ rest) = Some (Inr (q, rest))"
proof -
  have q: "packet_fits q" using assms by (cases p) (auto simp: data_fits_def ois_fit_def split: if_splits)
  have n: "snap_body i f db 0 k ls = senti_body i f db k ls []" for i f db k ls by (simp add: senti_body_def snap_body_def)
  have "\<exists>t body rest. to_vec p = t # body @ rest \<and> to_vec q = kSentinel # body"
    using assms by (cases p) (auto simp: to_vec_layouts n split: if_splits intro: exI [of _ "[]"])
  then obtain t body rest where *: "to_vec p = t # body @ rest" "to_vec q = kSentinel # body" by blast
  show ?thesis
    using try_packet_to_vec [OF q, of rest] * by (auto simp: slice_to_sentinel_def set_tag_def)
qed

section \<open>The first phase\<close>

definition owner :: "nat \<Rightarrow> bool \<Rightarrow> order \<Rightarrow> nat" where
  "owner n unreplicated o' = (if unreplicated then o' mod n else o' mod n + n)"

abbreviation server_of :: "store \<Rightarrow> order \<Rightarrow> nat" where
  "server_of s \<equiv> owner (num_chain_servers s) (is_unreplicated s)"

lemma read_server_owner: "0 < n \<Longrightarrow> read_server_for_chain o' n u = Some (owner n u o')"
  by (simp add: read_server_for_chain_def write_server_for_chain_def owner_def)

definition stamp :: "nat \<Rightarrow> bool \<Rightarrow> nat \<Rightarrow> order_index list \<Rightarrow> u64 list \<Rightarrow> u64 list" where
  "stamp n u token locs ts = map2 (\<lambda>(o', t) x. if o' \<noteq> 0 \<and> owner n u o' = token then t else x) locs ts"

lemma fill_timestamps_stamp:
  assumes "0 < n" "list_all2 (\<lambda>(o', t) x. o' \<noteq> 0 \<and> owner n u o' = token \<longrightarrow> x = 0 \<and> 0 < t) locs ts"
  shows "fill_timestamps token n u locs ts = Some (stamp n u token locs ts)"
  using assms(2)
proof (induction rule: list_all2_induct)
  case (Cons l locs x ts)
  then show ?case using assms(1)
    by (cases l) (auto simp: stamp_def read_server_owner rust_assert_def)
qed (simp add: stamp_def)

lemma stamp_length: "length locs = length ts \<Longrightarrow> length (stamp n u token locs ts) = length ts"
  by (simp add: stamp_def)

lemma stamp_nth:
  "length locs = length ts \<Longrightarrow> j < length ts \<Longrightarrow>
    stamp n u token locs ts ! j = (if fst (locs ! j) \<noteq> 0 \<and> owner n u (fst (locs ! j)) = token then snd (locs ! j) else ts ! j)"
  by (simp add: stamp_def split_beta)

text \<open>An answer of a server to the first phase: the chains of the entry with a timestamp for each chain of the
  server.\<close>

definition sk1_answer :: "store \<Rightarrow> uuid \<Rightarrow> order list \<Rightarrow> nat \<times> packet \<Rightarrow> bool" where
  "sk1_answer s i cs a \<longleftrightarrow>
     (case (pkt_flag (snd a), pkt_locs (snd a)) of
        (Some f, Some locs) \<Rightarrow>
          bits_contains f fReadSuccess \<and> bits_contains f fSkeens1Queued \<and> \<not> bits_contains f fUnlock \<and>
          bits_contains (pkt_kind (snd a)) kMultiput \<and> pkt_id (snd a) = i \<and> map fst locs = cs \<and>
          list_all (\<lambda>(o', t). o' \<noteq> 0 \<and> server_of s o' = fst a \<longrightarrow> 0 < t) locs
      | _ \<Rightarrow> False)"

definition answer_locs :: "packet \<Rightarrow> order_index list" where
  "answer_locs p = (case pkt_locs p of Some ls \<Rightarrow> ls | None \<Rightarrow> [])"

definition unstamped :: "store \<Rightarrow> order list \<Rightarrow> nat set \<Rightarrow> u64 list \<Rightarrow> bool" where
  "unstamped s cs remaining ts \<longleftrightarrow>
     length ts = length cs \<and> (\<forall>j < length cs. cs ! j \<noteq> 0 \<and> server_of s (cs ! j) \<in> remaining \<longrightarrow> ts ! j = 0)"

text \<open>Two stores with the same servers.\<close>

definition same_servers :: "store \<Rightarrow> store \<Rightarrow> bool" where
  "same_servers s s' \<longleftrightarrow> num_chain_servers s' = num_chain_servers s \<and> is_unreplicated s' = is_unreplicated s \<and>
     new_multi s' = new_multi s \<and> streams s' = streams s \<and> outbox s' = outbox s"

lemma sk1_answer_handled:
  assumes "sent_writes s i = Some (WSkeens1 buf remaining ts sen)" "sk1_answer s i cs (sv, q)" "sv \<in> remaining"
    "unstamped s cs remaining ts" "0 < num_chain_servers s" "new_multi s" "cs \<noteq> []" "get_servers_for_multi s buf = Some servers"
  shows "\<exists>s'. store_handle_message s sv q = Some s' \<and> same_servers s s' \<and>
    (let ts' = stamp (num_chain_servers s) (is_unreplicated s) sv (answer_locs q) ts in
     if remaining - {sv} = {}
     then sent_writes s' i = None \<and> pending_skeens2 s' = pending_skeens2 s @
       [\<lparr>sk2_buf = buf, sk2_max_ts = Max (set ts'), sk2_servers = servers, sk2_is_snapshot = False\<rparr>]
     else sent_writes s' i = Some (WSkeens1 buf (remaining - {sv}) ts' sen) \<and> pending_skeens2 s' = pending_skeens2 s)"
proof -
  obtain f locs where q: "pkt_flag q = Some f" "pkt_locs q = Some locs" "bits_contains f fReadSuccess" "bits_contains f fSkeens1Queued"
      "\<not> bits_contains f fUnlock" "bits_contains (pkt_kind q) kMultiput" "pkt_id q = i" "map fst locs = cs"
      "list_all (\<lambda>(o', t). o' \<noteq> 0 \<and> server_of s o' = sv \<longrightarrow> 0 < t) locs"
    using assms(2) by (auto simp: sk1_answer_def split: option.splits)
  have l: "length locs = length ts" using q(8) assms(4) by (auto simp: unstamped_def)
  have c: "cs ! j = fst (locs ! j)" if "j < length locs" for j using q(8) that by auto
  have "list_all2 (\<lambda>(o', t) x. o' \<noteq> 0 \<and> server_of s o' = sv \<longrightarrow> x = 0 \<and> 0 < t) locs ts"
    using q(9) assms(3,4) l c by (force simp: list_all2_conv_all_nth list_all_length unstamped_def split_beta)
  note fill = fill_timestamps_stamp [OF assms(5) this]
  have "ts \<noteq> []" using l q(8) assms(7) by auto
  then have ne: "stamp (num_chain_servers s) (is_unreplicated s) sv locs ts \<noteq> []" using stamp_length [OF l] by (metis length_0_conv)
  have g: "get_servers_for_multi s' buf = Some servers" if "num_chain_servers s' = num_chain_servers s" for s'
    using assms(8) that by (simp add: get_servers_for_multi_def)
  show ?thesis
    using q fill ne assms(1,3,6)
    by (auto simp: store_handle_message_def handle_completion_def handle_completed_write_def completed_skeens1_def skeens_finished_def
        Let_def answer_locs_def same_servers_def insert_write_def add_sk2_def g see_timestamps_def rust_assert_def)
qed

lemma unstamped_step:
  assumes "unstamped s cs remaining ts" "map fst locs = cs"
  shows "unstamped s cs (remaining - {sv}) (stamp (num_chain_servers s) (is_unreplicated s) sv locs ts)"
proof -
  have l: "length locs = length ts" using assms by (auto simp: unstamped_def)
  have "cs ! j = fst (locs ! j)" if "j < length ts" for j using assms(2) that l by auto
  then show ?thesis using assms(1) by (auto simp: unstamped_def stamp_length [OF l] stamp_nth [OF l])
qed

text \<open>The timestamps after the answers.\<close>

definition stamp_all :: "store \<Rightarrow> (nat \<times> packet) list \<Rightarrow> u64 list \<Rightarrow> u64 list" where
  "stamp_all s as ts = foldl (\<lambda>ts (sv, q). stamp (num_chain_servers s) (is_unreplicated s) sv (answer_locs q) ts) ts as"

lemma same_servers_answers:
  assumes "same_servers s s'"
  shows "sk1_answer s' i cs a = sk1_answer s i cs a" "unstamped s' cs r ts = unstamped s cs r ts" "stamp_all s' as ts = stamp_all s as ts"
    "get_servers_for_multi s' buf = get_servers_for_multi s buf"
  using assms by (simp_all add: same_servers_def sk1_answer_def unstamped_def stamp_all_def get_servers_for_multi_def split: option.split)

lemma same_servers_trans: "same_servers a b \<Longrightarrow> same_servers b c \<Longrightarrow> same_servers a c"
  by (simp add: same_servers_def)

lemma sk1_answers_handled:
  assumes "sent_writes s i = Some (WSkeens1 buf remaining ts sen)" "list_all (sk1_answer s i cs) as" "distinct (map fst as)"
    "set (map fst as) \<subseteq> remaining" "unstamped s cs remaining ts" "0 < num_chain_servers s" "new_multi s" "cs \<noteq> []"
    "get_servers_for_multi s buf = Some servers" "remaining \<noteq> {}"
  shows "\<exists>s'. store_run s (map (\<lambda>(sv, q). StoreRecv sv q) as) = Some s' \<and> same_servers s s' \<and>
    (if remaining - set (map fst as) = {}
     then sent_writes s' i = None \<and> pending_skeens2 s' = pending_skeens2 s @
       [\<lparr>sk2_buf = buf, sk2_max_ts = Max (set (stamp_all s as ts)), sk2_servers = servers, sk2_is_snapshot = False\<rparr>]
     else pending_skeens2 s' = pending_skeens2 s)"
  using assms
proof (induction as arbitrary: s ts remaining)
  case (Cons a as)
  obtain sv q where a: "a = (sv, q)" by (cases a)
  let ?ts = "stamp (num_chain_servers s) (is_unreplicated s) sv (answer_locs q) ts" and ?r = "remaining - {sv}"
  have r: "remaining - set (map fst (a # as)) = ?r - set (map fst as)" using a by auto
  obtain s1 where s1: "store_handle_message s sv q = Some s1" "same_servers s s1"
      "if ?r = {} then sent_writes s1 i = None \<and> pending_skeens2 s1 = pending_skeens2 s @
         [\<lparr>sk2_buf = buf, sk2_max_ts = Max (set ?ts), sk2_servers = servers, sk2_is_snapshot = False\<rparr>]
       else sent_writes s1 i = Some (WSkeens1 buf ?r ?ts sen) \<and> pending_skeens2 s1 = pending_skeens2 s"
    using sk1_answer_handled [OF Cons(2) _ _ Cons(6,7,8,9,10), of sv q] Cons(3,5) a by (auto simp: Let_def)
  show ?case
  proof (cases "?r = {}")
    case True
    then have "as = []" using Cons(4,5) a by (cases as) auto
    then show ?thesis using s1 a True unfolding r by (simp add: stamp_all_def)
  next
    case False
    have "map fst (answer_locs q) = cs" using Cons(3) a by (auto simp: sk1_answer_def answer_locs_def split: option.splits)
    from unstamped_step [OF Cons(6) this, of sv] have u: "unstamped s cs ?r ?ts" .
    note eq = same_servers_answers [OF s1(2)]
    have pend: "pending_skeens2 s1 = pending_skeens2 s" using s1(3) False by argo
    have "\<exists>s'. store_run s1 (map (\<lambda>(sv, q). StoreRecv sv q) as) = Some s' \<and> same_servers s1 s' \<and>
        (if ?r - set (map fst as) = {}
         then sent_writes s' i = None \<and> pending_skeens2 s' = pending_skeens2 s1 @
           [\<lparr>sk2_buf = buf, sk2_max_ts = Max (set (stamp_all s1 as ?ts)), sk2_servers = servers, sk2_is_snapshot = False\<rparr>]
         else pending_skeens2 s' = pending_skeens2 s1)"
      by (rule Cons(1)) (use s1 False Cons(3,4,5,7,8,9,10) u a in \<open>auto simp: eq same_servers_def list_all_iff\<close>)
    then obtain s' where s': "store_run s1 (map (\<lambda>(sv, q). StoreRecv sv q) as) = Some s'" "same_servers s1 s'"
        "if ?r - set (map fst as) = {}
         then sent_writes s' i = None \<and> pending_skeens2 s' = pending_skeens2 s @
           [\<lparr>sk2_buf = buf, sk2_max_ts = Max (set (stamp_all s as ?ts)), sk2_servers = servers, sk2_is_snapshot = False\<rparr>]
         else pending_skeens2 s' = pending_skeens2 s"
      unfolding eq pend by blast
    have *: "stamp_all s (a # as) ts = stamp_all s as ?ts" by (simp add: stamp_all_def a)
    have "store_run s (map (\<lambda>(sv, q). StoreRecv sv q) (a # as)) = Some s'" using s1(1) s'(1) a by simp
    then show ?thesis using s'(3) same_servers_trans [OF s1(2) s'(2)] unfolding r * by blast
  qed
qed (auto simp: same_servers_def)

section \<open>The maximum\<close>

text \<open>The timestamps the servers gave, each for its chains.\<close>

definition given :: "store \<Rightarrow> (nat \<times> packet) list \<Rightarrow> u64 set" where
  "given s as = {t. \<exists>sv q o'. (sv, q) \<in> set as \<and> (o', t) \<in> set (answer_locs q) \<and> o' \<noteq> 0 \<and> server_of s o' = sv}"

lemma given_eval:
  "given s [] = {}"
  "given s ((sv, q) # as) = set (map snd (filter (\<lambda>(o', _). o' \<noteq> 0 \<and> server_of s o' = sv) (answer_locs q))) \<union> given s as"
  by (force simp: given_def)+

lemma stamp_all_nth:
  assumes "list_all (\<lambda>(sv, q). map fst (answer_locs q) = cs) as" "distinct (map fst as)" "length ts = length cs" "j < length cs"
  shows "length (stamp_all s as ts) = length cs" (is ?l)
    and "(cs ! j = 0 \<or> server_of s (cs ! j) \<notin> set (map fst as) \<longrightarrow> stamp_all s as ts ! j = ts ! j) \<and>
      (\<forall>q. cs ! j \<noteq> 0 \<and> (server_of s (cs ! j), q) \<in> set as \<longrightarrow> stamp_all s as ts ! j = snd (answer_locs q ! j))" (is ?s)
proof -
  have "?l \<and> ?s" using assms
  proof (induction as arbitrary: ts)
    case (Cons a as)
    obtain sv q where a: "a = (sv, q)" by (cases a)
    let ?ts = "stamp (num_chain_servers s) (is_unreplicated s) sv (answer_locs q) ts"
    have q: "map fst (answer_locs q) = cs" using Cons(2) a by simp
    then have l: "length (answer_locs q) = length ts" using Cons(4) by (metis length_map)
    have j: "?ts ! j = (if cs ! j \<noteq> 0 \<and> server_of s (cs ! j) = sv then snd (answer_locs q ! j) else ts ! j)"
      using stamp_nth [OF l, of j] Cons(4,5) q by auto
    have e: "stamp_all s (a # as) ts = stamp_all s as ?ts" by (simp add: stamp_all_def a)
    show ?case using Cons(1) [of ?ts] Cons(2-5) stamp_length [OF l] j unfolding e by (auto simp: a image_iff)
  qed (simp add: stamp_all_def)
  then show ?l and ?s by blast+
qed

lemma stamp_all_Max:
  assumes "list_all (sk1_answer s i cs) as" "distinct (map fst as)" "set (map fst as) = server_of s ` {c \<in> set cs. c \<noteq> 0}"
    "\<exists>c \<in> set cs. c \<noteq> 0"
  shows "Max (set (stamp_all s as (replicate (length cs) 0))) = Max (given s as)"
proof -
  let ?T = "stamp_all s as (replicate (length cs) 0)"
  have l: "list_all (\<lambda>(sv, q). map fst (answer_locs q) = cs) as"
    using assms(1) by (auto simp: list_all_iff sk1_answer_def answer_locs_def split: option.splits)
  note nth = stamp_all_nth [OF l assms(2), of "replicate (length cs) 0", simplified]
  have len: "length ?T = length cs" using nth(1) [of 0 s] assms(4) by (cases cs) auto
  have cs: "fst (answer_locs q ! j) = cs ! j" "length (answer_locs q) = length cs" if "(sv, q) \<in> set as" "j < length cs" for sv q j
  proof -
    have "map fst (answer_locs q) = cs" using l that(1) by (auto simp: list_all_iff)
    then show "fst (answer_locs q ! j) = cs ! j" "length (answer_locs q) = length cs" using that(2) by auto
  qed
  have g: "given s as \<subseteq> set ?T"
  proof
    fix t assume "t \<in> given s as"
    then obtain sv q o' where t: "(sv, q) \<in> set as" "(o', t) \<in> set (answer_locs q)" "o' \<noteq> 0" "server_of s o' = sv"
      by (auto simp: given_def)
    then obtain j where j: "j < length (answer_locs q)" "answer_locs q ! j = (o', t)" by (auto simp: in_set_conv_nth)
    have "length (answer_locs q) = length cs" using l t(1) by (metis (mono_tags, lifting) case_prodD length_map list_all_iff)
    then have "j < length cs" "cs ! j = o'" using j cs(1) [OF t(1), of j] by auto
    then have "?T ! j = t" using nth(2) [of j s] t j by auto
    then show "t \<in> set ?T" using len \<open>j < length cs\<close> by (metis nth_mem)
  qed
  have T: "set ?T \<subseteq> insert 0 (given s as)"
  proof
    fix t assume "t \<in> set ?T"
    then obtain j where j: "j < length cs" "t = ?T ! j" using len by (auto simp: in_set_conv_nth)
    show "t \<in> insert 0 (given s as)"
    proof (cases "cs ! j = 0")
      case False
      then have "server_of s (cs ! j) \<in> set (map fst as)" using assms(3) j(1) by auto
      then obtain q where q: "(server_of s (cs ! j), q) \<in> set as" by auto
      then have "t = snd (answer_locs q ! j)" using nth(2) [of j s] j False by blast
      moreover have "answer_locs q ! j \<in> set (answer_locs q)" using cs(2) [OF q j(1)] j(1) by simp
      ultimately have "(cs ! j, t) \<in> set (answer_locs q)" using cs(1) [OF q j(1)] by (cases "answer_locs q ! j") simp
      then show ?thesis using q False by (auto simp: given_def)
    qed (use nth(2) [of j s] j in auto)
  qed
  obtain c j where c: "j < length cs" "cs ! j = c" "c \<noteq> 0" using assms(4) by (auto simp: in_set_conv_nth)
  then obtain q where q: "(server_of s c, q) \<in> set as" using assms(3) c(1) by (force simp: image_iff)
  then have "answer_locs q ! j \<in> set (answer_locs q)" "fst (answer_locs q ! j) = c" using cs [OF q c(1)] c by auto
  then have "(c, snd (answer_locs q ! j)) \<in> set (answer_locs q)" by (metis prod.collapse)
  then have "snd (answer_locs q ! j) \<in> given s as" using q c(3) by (auto simp: given_def)
  then have ne: "given s as \<noteq> {}" by blast
  have f: "finite (given s as)" using g finite_subset by blast
  have "Max (set ?T) \<le> Max (insert 0 (given s as))" using T f ne g by (intro Max_mono) auto
  then show ?thesis using Max_mono [OF g ne] f ne by (intro antisym) (simp_all add: Max_insert)
qed

section \<open>Sending\<close>

lemma send_skeens1_spec:
  assumes "send_skeens1 s msg locs remaining send servers = Some (send', s')" "set servers \<subseteq> set (streams s)"
  shows "(\<exists>ob. s' = s\<lparr>outbox := ob\<rparr>) \<and>
    (if send = None then servers \<noteq> [] \<longrightarrow> (\<exists>b. send' = Some (WSkeens1 msg remaining (replicate (length locs) 0) b)) else send' = send)"
  using assms
proof (induction servers arbitrary: s send)
  case Nil
  then have "s' = s\<lparr>outbox := outbox s\<rparr>" "send' = send" by simp_all
  then show ?case by metis
next
  case (Cons sv servers)
  let ?send = "\<lambda>b. case send of None \<Rightarrow> Some (WSkeens1 msg remaining (replicate (length locs) 0) b) | Some w \<Rightarrow> Some w"
  obtain p b where r: "send_skeens1 (push_out s sv p) msg locs remaining (?send b) servers = Some (send', s')"
    using Cons(2,3) by (auto simp: rust_simps Let_def)
  have n: "?send b \<noteq> None" by (simp split: option.split)
  have "set servers \<subseteq> set (streams (push_out s sv p))" using Cons(3) by (simp add: push_out_def)
  from Cons(1) [OF r this] n obtain ob where "s' = (push_out s sv p)\<lparr>outbox := ob\<rparr>" "send' = ?send b" by (metis (no_types))
  then have "s' = s\<lparr>outbox := ob\<rparr>" "send' = ?send b" by (simp_all add: push_out_def)
  then show ?case by (cases send) auto
qed

lemma send_to_servers_spec:
  assumes "set servers \<subseteq> set (streams s)"
  shows "send_to_servers s msg w send servers =
    (case send of None \<Rightarrow> if servers = [] then None else Some w | Some w' \<Rightarrow> Some w', s\<lparr>outbox := outbox s @ map (\<lambda>sv. (sv, msg)) servers\<rparr>)"
  using assms by (induction servers arbitrary: s send) (auto simp: push_out_def split: option.splits)

text \<open>What the first phase sends, and the servers it goes to.\<close>

definition cleared :: "order_index list \<Rightarrow> order_index list" where
  "cleared locs = map (\<lambda>(o', _). (o', 0)) locs"

definition sk1_packet :: "uuid \<Rightarrow> flag \<Rightarrow> u64 \<Rightarrow> order_index list \<Rightarrow> order_index list \<Rightarrow> byte list \<Rightarrow> packet" where
  "sk1_packet i f k locs deps d = PMulti i (bits_insert (bits_insert f fTakeLock) fNewMultiPut) k (cleared locs) deps d"

definition sk_servers :: "store \<Rightarrow> order_index list \<Rightarrow> nat list" where
  "sk_servers s locs = filter (\<lambda>v. list_ex (\<lambda>(c, _). c \<noteq> 0 \<and> c mod num_chain_servers s = v) locs) [0..<num_chain_servers s]"

lemma cleared_fst [simp]: "map fst (cleared locs) = map fst locs" "length (cleared locs) = length locs"
  by (induction locs) (auto simp: cleared_def)

lemma sk1_packet_servers:
  assumes "0 < num_chain_servers s"
  shows "get_servers_for_multi s (sk1_packet i f k locs deps d) = Some (sk_servers s locs)"
proof -
  have "list_ex (\<lambda>c. c mod n = v) (map fst (filter (\<lambda>oi. oi \<noteq> (0, 0)) (cleared locs))) = list_ex (\<lambda>(c, _). c \<noteq> 0 \<and> c mod n = v) locs" for n v
    by (induction locs) (auto simp: cleared_def)
  then show ?thesis using assms
    by (simp add: get_servers_for_multi_def sk1_packet_def sk_servers_def pkt_layout_def kind_layout_def kind_values)
qed

lemma remaining_of_servers:
  assumes "0 < num_chain_servers s"
  shows "remaining_of s (sk_servers s locs) = server_of s ` {c \<in> set (map fst locs). c \<noteq> 0}"
  using assms by (force simp: remaining_of_def sk_servers_def list_ex_iff read_server_for_write_server_def owner_def image_iff)

lemma request_multi_sk1:
  assumes "request_multi s (PMulti i f k locs deps d) = Some s1" "\<not> bits_contains f fDirectWrite"
    "is_single_node_append s (PMulti i f k locs deps d) = Some False"
  shows "add_skeens1 s (sk1_packet i f k locs deps d) = Some s1 \<and> new_multi s \<and> 0 < num_chain_servers s"
  using assms by (auto simp: request_multi_def rust_simps clear_indices_def sk1_packet_def cleared_def is_single_node_append_def Let_def)

lemma single_node_chains:
  assumes "is_single_node_append s (PMulti i f k locs deps d) = Some False"
  shows "\<exists>c \<in> set (map fst locs). c \<noteq> 0"
proof (rule ccontr)
  let ?cs = "map fst (filter (\<lambda>oi. oi \<noteq> (0, 0)) locs)"
  assume "\<not> ?thesis"
  then have z: "c = 0" if "c \<in> set ?cs" for c using that by auto
  have "c mod num_chain_servers s = hd ?cs mod num_chain_servers s" if "c \<in> set ?cs" for c
    using z [OF that] z [of "hd ?cs"] hd_in_set [of ?cs] that by fastforce
  then have "list_all (\<lambda>c. c mod num_chain_servers s = hd ?cs mod num_chain_servers s) ?cs" unfolding list_all_iff by blast
  then show False using assms by (simp add: is_single_node_append_def rust_simps Let_def)
qed

lemma add_skeens1_spec:
  assumes "add_skeens1 s (sk1_packet i f k locs deps d) = Some s1" "0 < num_chain_servers s" "set [0..<num_chain_servers s] \<subseteq> set (streams s)"
    "sk_servers s locs \<noteq> []"
  shows "\<exists>ob b. s1 = insert_write (s\<lparr>outbox := ob\<rparr>) i
    (WSkeens1 (sk1_packet i f k locs deps d) (remaining_of s (sk_servers s locs)) (replicate (length locs) 0) b)"
proof -
  let ?p = "sk1_packet i f k locs deps d"
  have p: "pkt_locs ?p = Some (cleared locs)" "pkt_id ?p = i" by (simp_all add: sk1_packet_def)
  obtain send s' where s': "send_skeens1 s ?p (cleared locs) (remaining_of s (sk_servers s locs)) None (sk_servers s locs) = Some (send, s')"
      "s1 = keep_write s' i send"
    using assms(1) sk1_packet_servers [OF assms(2), of i f k locs deps d] p by (auto simp: add_skeens1_def rust_simps)
  have "set (sk_servers s locs) \<subseteq> set (streams s)" using assms(3) by (auto simp: sk_servers_def)
  from send_skeens1_spec [OF s'(1) this] assms(4) obtain ob b where "s' = s\<lparr>outbox := ob\<rparr>"
      "send = Some (WSkeens1 ?p (remaining_of s (sk_servers s locs)) (replicate (length locs) 0) b)" by auto
  then have "s1 = insert_write (s\<lparr>outbox := ob\<rparr>) i (WSkeens1 ?p (remaining_of s (sk_servers s locs)) (replicate (length locs) 0) b)"
    using s'(2) by (simp add: keep_write_def)
  then show ?thesis by blast
qed

lemma after_work_sends:
  assumes "pending_skeens2 s = [\<lparr>sk2_buf = sk1_packet i f k locs deps d, sk2_max_ts = m, sk2_servers = servers, sk2_is_snapshot = False\<rparr>]"
    "set servers \<subseteq> set (streams s)"
  shows "\<exists>s' f'. after_work s = Some s' \<and>
    outbox s' = outbox s @ map (\<lambda>sv. (sv, PSenti i f' (length d) m (cleared locs) deps)) servers"
proof -
  have "cleared (cleared locs) = cleared locs" by (simp add: cleared_def comp_def split_beta)
  then show ?thesis using assms
    by (auto simp: after_work_def send_skeens2_def sk1_packet_def clear_indices_def cleared_def [symmetric] Let_def send_to_servers_spec
        keep_write_def insert_write_def)
qed

lemma sk1_started:
  assumes "request_multi s (PMulti i f k locs deps d) = Some s1" "\<not> bits_contains f fDirectWrite"
    "is_single_node_append s (PMulti i f k locs deps d) = Some False" "set [0..<num_chain_servers s] \<subseteq> set (streams s)"
    "list_all (sk1_answer s i (map fst locs)) as" "distinct (map fst as)" "set (map fst as) \<subseteq> server_of s ` {c \<in> set (map fst locs). c \<noteq> 0}"
  shows "\<exists>s'. store_run s1 (map (\<lambda>(sv, q). StoreRecv sv q) as) = Some s' \<and> streams s' = streams s \<and> outbox s' = outbox s1 \<and>
    (if set (map fst as) = server_of s ` {c \<in> set (map fst locs). c \<noteq> 0}
     then pending_skeens2 s' = pending_skeens2 s @
       [\<lparr>sk2_buf = sk1_packet i f k locs deps d, sk2_max_ts = Max (given s as), sk2_servers = sk_servers s locs, sk2_is_snapshot = False\<rparr>]
     else pending_skeens2 s' = pending_skeens2 s)"
proof -
  let ?r = "server_of s ` {c \<in> set (map fst locs). c \<noteq> 0}" and ?p = "sk1_packet i f k locs deps d"
  have a: "add_skeens1 s ?p = Some s1" "new_multi s" "0 < num_chain_servers s" using request_multi_sk1 [OF assms(1-3)] by auto
  obtain c where c: "c \<in> set (map fst locs)" "c \<noteq> 0" using single_node_chains [OF assms(3)] by blast
  then have r: "?r \<noteq> {}" by auto
  then have "remaining_of s (sk_servers s locs) \<noteq> {}" unfolding remaining_of_servers [OF a(3)] .
  then have ne: "sk_servers s locs \<noteq> []" by (auto simp: remaining_of_def)
  obtain ob b where s1: "s1 = insert_write (s\<lparr>outbox := ob\<rparr>) i (WSkeens1 ?p ?r (replicate (length locs) 0) b)"
    using add_skeens1_spec [OF a(1,3) assms(4) ne] remaining_of_servers [OF a(3), of locs] by auto
  have n: "num_chain_servers s1 = num_chain_servers s" "is_unreplicated s1 = is_unreplicated s" "new_multi s1 = new_multi s" "streams s1 = streams s"
      "pending_skeens2 s1 = pending_skeens2 s" "sent_writes s1 i = Some (WSkeens1 ?p ?r (replicate (length locs) 0) b)"
    by (simp_all add: s1 insert_write_def)
  have g: "given s1 as = given s as" by (simp add: given_def n)
  have k: "list_all (sk1_answer s1 i (map fst locs)) as" using assms(5) unfolding sk1_answer_def n .
  have u: "unstamped s1 (map fst locs) ?r (replicate (length locs) 0)" by (simp add: unstamped_def)
  have v: "get_servers_for_multi s1 ?p = Some (sk_servers s locs)"
    using sk1_packet_servers [of s1] a(3) n by (simp add: sk_servers_def)
  obtain s' where s': "store_run s1 (map (\<lambda>(sv, q). StoreRecv sv q) as) = Some s'" "same_servers s1 s'"
      "if ?r - set (map fst as) = {}
       then sent_writes s' i = None \<and> pending_skeens2 s' = pending_skeens2 s1 @
         [\<lparr>sk2_buf = ?p, sk2_max_ts = Max (set (stamp_all s1 as (replicate (length locs) 0))), sk2_servers = sk_servers s locs, sk2_is_snapshot = False\<rparr>]
       else pending_skeens2 s' = pending_skeens2 s1"
    using sk1_answers_handled [OF n(6) k assms(6,7) u _ _ _ v r] a n c by fastforce
  have e: "(?r - set (map fst as) = {}) = (set (map fst as) = ?r)" using assms(7) by blast
  have "Max (set (stamp_all s1 as (replicate (length locs) 0))) = Max (given s as)" if "set (map fst as) = ?r"
    using stamp_all_Max [OF k assms(6)] that c n g by auto
  then show ?thesis using s' n(4,5) unfolding e same_servers_def by auto
qed

section \<open>Evaluation\<close>

lemma poll_requests_numeral:
  "poll_requests (numeral k) s = do {
     (keep_going, s) \<leftarrow> handle_new_requests_from_client s;
     if keep_going then poll_requests (pred_numeral k) s else Some s
   }"
  by (simp add: numeral_eq_Suc)

lemmas store_eval = store_new_def on_poll_def poll_requests_numeral handle_new_requests_from_client_def new_request_def request_snapshot_def is_single_node_append_def
  pkt_layout_def kind_layout_def kind_values add_snapshot_skeens1_def get_servers_for_multi_def keep_write_def insert_write_def push_out_def
  remaining_of_def read_server_for_write_server_def upt_conv_Cons store_handle_message_def handle_completion_def handle_completed_write_def
  completed_snapshot_skeens1_def skeens_finished_def read_server_for_chain_def write_server_for_chain_def add_sk2_def see_timestamps_def see_timestamp_def
  after_work_def send_skeens2_def clear_indices_def completed_snapshot_skeens2_def deliver_def fTakeLock_def fNewMultiPut_def fUnlock_def
  fReadSuccess_def fSkeens1Queued_def fNothing_def bits_contains_def bits_insert_def
  add_single_server_send_def expect_sent_def insert_Diff_if Let_def

section \<open>Properties\<close>

text \<open>C3: an entry on several servers goes into its second phase exactly when every server of its chains has answered
  the first, in whatever order: then each of them is sent the same sentinel, with the maximum of the timestamps
  the servers gave for their chains; with an answer missing nothing is sent.\<close>

theorem phase_two_takes_maximum:
  assumes "request_multi s (PMulti i f k locs deps d) = Some s1" "\<not> bits_contains f fDirectWrite"
    "is_single_node_append s (PMulti i f k locs deps d) = Some False" "set [0..<num_chain_servers s] \<subseteq> set (streams s)" "pending_skeens2 s = []"
    "list_all (sk1_answer s i (map fst locs)) as" "distinct (map fst as)" "set (map fst as) \<subseteq> server_of s ` {c \<in> set (map fst locs). c \<noteq> 0}"
  shows "\<exists>s2 s3. store_run s1 (map (\<lambda>(sv, q). StoreRecv sv q) as) = Some s2 \<and> after_work s2 = Some s3 \<and>
    (if set (map fst as) = server_of s ` {c \<in> set (map fst locs). c \<noteq> 0}
     then \<exists>f'. outbox s3 = outbox s1 @ map (\<lambda>sv. (sv, PSenti i f' (length d) (Max (given s as)) (cleared locs) deps)) (sk_servers s locs)
     else outbox s3 = outbox s1)"
proof -
  let ?all = "server_of s ` {c \<in> set (map fst locs). c \<noteq> 0}"
  obtain s2 where s2: "store_run s1 (map (\<lambda>(sv, q). StoreRecv sv q) as) = Some s2" "streams s2 = streams s" "outbox s2 = outbox s1"
      "if set (map fst as) = ?all
       then pending_skeens2 s2 = [\<lparr>sk2_buf = sk1_packet i f k locs deps d, sk2_max_ts = Max (given s as), sk2_servers = sk_servers s locs, sk2_is_snapshot = False\<rparr>]
       else pending_skeens2 s2 = []"
    using sk1_started [OF assms(1-4,6-8)] assms(5) by auto
  have sv: "set (sk_servers s locs) \<subseteq> set (streams s2)" using assms(4) s2(2) by (auto simp: sk_servers_def)
  show ?thesis
  proof (cases "set (map fst as) = ?all")
    case True
    then show ?thesis using s2 after_work_sends [OF _ sv, of i f k locs deps d "Max (given s as)"] by auto
  next
    case False
    then have "after_work s2 = Some s2" using s2(4) by (simp add: after_work_def split: if_splits)
    then show ?thesis using False s2 by auto
  qed
qed

theorem phase_two_takes_maximum_witness:
  "\<exists>s1 s2 s3 f'. request_multi (store_new 2 True) (PMulti 7 fNothing 0 [(1, 0), (2, 0)] [] [65]) = Some s1 \<and>
    store_run s1 [StoreRecv 1 (PMulti 7 15 0 [(1, 5), (2, 0)] [] [65]), StoreRecv 0 (PMulti 7 15 0 [(1, 0), (2, 9)] [] [65])] = Some s2 \<and>
    after_work s2 = Some s3 \<and>
    outbox s3 = outbox s1 @ [(0, PSenti 7 f' 1 9 [(1, 0), (2, 0)] []), (1, PSenti 7 f' 1 9 [(1, 0), (2, 0)] [])]"
proof -
  let ?s = "store_new 2 True" and ?as = "[(1, PMulti 7 15 0 [(1, 5), (2, 0)] [] [65]), (0, PMulti 7 15 0 [(1, 0), (2, 9)] [] [65])]"
  have i: "is_single_node_append ?s (PMulti 7 fNothing 0 [(1, 0), (2, 0)] [] [65]) = Some False"
    by (simp add: is_single_node_append_def store_new_def)
  obtain s1 where s1: "request_multi ?s (PMulti 7 fNothing 0 [(1, 0), (2, 0)] [] [65]) = Some s1"
    using i by (simp add: request_multi_def store_new_def add_skeens1_def get_servers_for_multi_def clear_indices_def fNothing_def
        fDirectWrite_def fTakeLock_def fNewMultiPut_def bits_contains_def bits_insert_def pkt_layout_def kind_layout_def kind_values
        upt_conv_Cons push_out_def)
  have g: "given ?s ?as = {5, 9}" by (auto simp: given_eval store_new_def owner_def answer_locs_def)
  have sv: "sk_servers ?s [(1, 0), (2, 0)] = [0, 1]" by (simp add: sk_servers_def store_new_def upt_conv_Cons)
  have a: "list_all (sk1_answer ?s 7 (map fst [(1, 0), (2, 0)])) ?as"
    by (simp add: store_new_def sk1_answer_def owner_def fReadSuccess_def fSkeens1Queued_def fUnlock_def bits_contains_def kind_values)
  have "{c \<in> set (map fst [(1, 0 :: nat), (2, 0)]). c \<noteq> 0} = {1, 2 :: nat}" by auto
  then have r: "server_of ?s ` {c \<in> set (map fst [(1, 0 :: nat), (2, 0)]). c \<noteq> 0} = set (map fst ?as)"
    by (auto simp: store_new_def owner_def)
  have n: "\<not> bits_contains fNothing fDirectWrite" by (simp add: fNothing_def fDirectWrite_def bits_contains_def)
  have t: "set [0..<num_chain_servers ?s] \<subseteq> set (streams ?s)" "pending_skeens2 ?s = []" by (simp_all add: store_new_def)
  have "\<exists>s2 s3. store_run s1 (map (\<lambda>(sv, q). StoreRecv sv q) ?as) = Some s2 \<and> after_work s2 = Some s3 \<and>
      (\<exists>f'. outbox s3 = outbox s1 @ map (\<lambda>sv. (sv, PSenti 7 f' (length [65 :: byte]) (Max {5, 9}) (cleared [(1, 0), (2, 0)]) [])) [0, 1])"
    using phase_two_takes_maximum [OF s1 n i t a] unfolding r g sv by simp
  then show ?thesis using s1 by (simp add: cleared_def)
qed

end
