(* ===== verification/Client_Snapshot.thy ===== *)
theory Client_Snapshot
  imports Client_Skeens Client_Order
begin

text \<open>
  What becomes of a strong snapshot of chains on several servers: the store turns it into a sentinel for its second
  phase and hands the sentinel to the log thread, for which only a snapshot, or the answer to a read of the last
  index, ends the wait for a snapshot.
\<close>

section \<open>Snapshots the log thread waits for\<close>

definition pc_snaps :: "per_color \<Rightarrow> nat" where
  "pc_snaps pc = (case is_being_read pc of None \<Rightarrow> 0 | Some r \<Rightarrow> outstanding_snapshots r)"

definition snaps :: "thread_log \<Rightarrow> order \<Rightarrow> nat" where
  "snaps s c = (case get_pc s c of None \<Rightarrow> 0 | Some pc \<Rightarrow> pc_snaps pc)"

lemma drop_if_finished_snaps [simp]: "pc_snaps (drop_if_finished pc) = pc_snaps pc"
  by (auto simp: drop_if_finished_def pc_snaps_def is_finished_def has_outstanding_snapshots_def split: option.splits)

lemma set_returned_snaps: "set_returned pc i = Some pc' \<Longrightarrow> pc_snaps pc' = pc_snaps pc"
  by (auto simp: set_returned_def rust_simps) (simp add: pc_snaps_def)

lemma pc_snaps_kept:
  "got_read pc i = Some (b, pc') \<Longrightarrow> pc_snaps pc' = pc_snaps pc"
  "block_on_snapshot pc val = Some pc' \<Longrightarrow> pc_snaps pc' = pc_snaps pc"
  "increment_horizon pc = Some (ub, pc') \<Longrightarrow> pc_snaps pc' = pc_snaps pc"
  "fetching_range pc l h = Some pc' \<Longrightarrow> pc_snaps pc' = pc_snaps pc"
  "set_finished_reading pc = Some pc' \<Longrightarrow> pc_snaps pc' = pc_snaps pc"
  "add_early_sentinel pc u i = Some pc' \<Longrightarrow> pc_snaps pc' = pc_snaps pc"
  by (auto simp: got_read_def block_on_snapshot_def increment_horizon_def update_horizon_def fetching_range_def
      set_finished_reading_def add_early_sentinel_def mark_as_skippable_def read_state_new_def read_state_is_finished_def
      pc_snaps_def rust_simps Let_def split: if_splits option.splits)

text \<open>The snapshots that are waited for on each chain, and the multi-appends whose parts are.\<close>

definition waits :: "(order \<Rightarrow> nat) \<Rightarrow> (uuid \<rightharpoonup> packet) \<Rightarrow> thread_log \<Rightarrow> bool" where
  "waits N B s \<longleftrightarrow> snaps s = N \<and> blocked_multiappends s = B"

lemma waits_cong: "per_chains s' = per_chains s \<Longrightarrow> blocked_multiappends s' = blocked_multiappends s \<Longrightarrow> waits N B s' = waits N B s"
  by (simp add: waits_def snaps_def get_pc_def fun_eq_iff)

lemma waits_set_pc: "waits N B s \<Longrightarrow> get_pc s c = Some pc \<Longrightarrow> pc_snaps pc' = pc_snaps pc \<Longrightarrow> waits N B (set_pc s c pc')"
  using ext [of "snaps (set_pc s c pc')" "snaps s"] by (auto simp: waits_def snaps_def set_pc_def [of s, THEN arg_cong, of blocked_multiappends])

lemma multis_kept [simp]:
  "blocked_multiappends (rc_drop s a) = blocked_multiappends s" "blocked_multiappends (push_blocked s loc a) = blocked_multiappends s"
  "blocked_multiappends (see_entry s loc) = blocked_multiappends s" "blocked_multiappends (cache_alloc s) = blocked_multiappends s"
  "blocked_multiappends (cache_flush s) = blocked_multiappends s" "blocked_multiappends (send_read_or_finish s r) = blocked_multiappends s"
  "blocked_multiappends (set_pc s c pc) = blocked_multiappends s"
  by (simp_all add: rc_drop_def push_blocked_def see_entry_def cache_alloc_def cache_flush_def send_read_or_finish_def
      send_read_def set_pc_def Let_def)

lemma loops_keep_multis [simp]:
  "blocked_multiappends (see_all s locs) = blocked_multiappends s" "blocked_multiappends (fetch_loop s c ns) = blocked_multiappends s"
  "per_chains (send_read_or_finish s r) = per_chains s"
proof -
  show "blocked_multiappends (see_all s locs) = blocked_multiappends s" unfolding see_all_def by (induction locs arbitrary: s) simp_all
  show "blocked_multiappends (fetch_loop s c ns) = blocked_multiappends s"
    by (induction ns arbitrary: s) (simp_all add: make_read_packet_def Let_def)
  show "per_chains (send_read_or_finish s r) = per_chains s" by (simp add: send_read_or_finish_def send_read_def)
qed

lemma waits_simps [simp]:
  "waits N B (rc_drop s a) = waits N B s" "waits N B (push_blocked s loc a) = waits N B s" "waits N B (see_entry s loc) = waits N B s"
  "waits N B (see_all s locs) = waits N B s" "waits N B (fetch_loop s c ns) = waits N B s" "waits N B (cache_flush s) = waits N B s"
  "waits N B (send_read_or_finish s r) = waits N B s" "waits N B (s\<lparr>no_longer_blocked := nb\<rparr>) = waits N B s"
  "waits N B (s\<lparr>blockers := bl\<rparr>) = waits N B s" "waits N B (s\<lparr>num_snapshots := n\<rparr>) = waits N B s"
  by (rule waits_cong; simp)+

lemma send_dones_waits [simp]: "waits N B (send_dones s n) = waits N B s"
  by (induction n arbitrary: s) simp_all

lemma rc_new_waits: "rc_new s p = (a, s') \<Longrightarrow> waits N B s \<Longrightarrow> waits N B s'"
  by (auto simp: rc_new_def Let_def waits_def snaps_def get_pc_def)

lemma enqueue_packet_waits: "enqueue_packet s loc a = Some s' \<Longrightarrow> waits N B s \<Longrightarrow> waits N B s'"
  by (auto simp: enqueue_packet_def rust_simps)

lemma fetch_next_waits: "fetch_next s c l h = Some s' \<Longrightarrow> waits N B s \<Longrightarrow> waits N B s'"
  by (auto simp: fetch_next_def rust_simps intro!: waits_set_pc pc_snaps_kept(4))

section \<open>Returning entries\<close>

lemma set_all_returned_waits: "set_all_returned s intr locs = Some (intr', s') \<Longrightarrow> waits N B s \<Longrightarrow> waits N B s'"
proof (induction locs arbitrary: s intr)
  case (Cons loc locs)
  obtain o' i where loc: "loc = (o', i)" by (cases loc)
  show ?case
  proof (cases "o' = 0 \<or> get_pc s o' = None")
    case True
    then show ?thesis using Cons loc by (auto split: if_splits)
  next
    case False
    then obtain pc pc' where "get_pc s o' = Some pc" "set_returned pc i = Some pc'"
        "set_all_returned (set_pc s o' pc') (intr \<or> is_interesting pc') locs = Some (intr', s')"
      using Cons.prems(1) loc by (auto simp: rust_simps)
    then show ?thesis using Cons.IH waits_set_pc [OF Cons.prems(2)] set_returned_snaps by blast
  qed
qed simp

lemma return_entry_waits:
  assumes r: "return_entry s val = Some (ls, s')" and w: "waits N B s"
  shows "waits N B s'"
proof -
  obtain f locs c where a: "pkt_flag val = Some f" "pkt_locs val = Some locs" "check_locs s False None locs = Some c"
    using r by (auto simp: return_entry_def rust_simps)
  show ?thesis
  proof (cases c)
    case (Inl u)
    then show ?thesis using r a w by (simp add: return_entry_def)
  next
    case (Inr blk)
    show ?thesis
    proof (cases blk)
      case None
      then obtain intr s1 where "set_all_returned s False locs = Some (intr, s1)"
          "s' = (let s = (if intr \<and> my_colors_chains s1 \<noteq> [] then see_all s1 locs else s1) in if intr then send_read_or_finish s (ReadOk val) else s)"
        using r a Inr by (auto simp: return_entry_def rust_simps Let_def)
      then show ?thesis using set_all_returned_waits w by (auto simp: Let_def)
    next
      case (Some oi)
      obtain o' i where oi: "oi = (o', i)" by (cases oi)
      show ?thesis using r a Inr Some oi w
        by (auto simp: return_entry_def rust_simps Let_def split: if_splits prod.splits
            intro: waits_set_pc pc_snaps_kept enqueue_packet_waits rc_new_waits)
    qed
  qed
qed

lemma unblock_all_waits: "unblock_all s as = Some s' \<Longrightarrow> waits N B s \<Longrightarrow> waits N B s'"
proof (induction as arbitrary: s)
  case (Cons a as)
  show ?case
  proof (cases "rc_unique s a")
    case True
    then obtain locs ls s1 where "return_entry ((rc_drop s a)\<lparr>no_longer_blocked := no_longer_blocked (rc_drop s a) @ locs\<rparr>) (rc_val s a) = Some (ls, s1)"
        "unblock_all s1 as = Some s'"
      using Cons.prems(1) by (auto simp: rust_simps Let_def)
    then show ?thesis using Cons.IH [of s1] return_entry_waits Cons.prems(2) by simp
  qed (use Cons in simp)
qed simp

lemma try_return_blocked_by_waits: "try_return_blocked_by s loc = Some s' \<Longrightarrow> waits N B s \<Longrightarrow> waits N B s'"
  by (auto simp: try_return_blocked_by_def split: option.splits intro: unblock_all_waits)

lemma unblock_locs_waits: "unblock_locs s locs = Some s' \<Longrightarrow> waits N B s \<Longrightarrow> waits N B s'"
  by (induction locs arbitrary: s) (auto simp: rust_simps split: if_splits intro: try_return_blocked_by_waits)

lemma unblock_rest_waits: "unblock_rest s = Some s' \<Longrightarrow> waits N B s \<Longrightarrow> waits N B s'"
proof (induction rule: unblock_rest.raw_induct [rotated, consumes 1, case_names step])
  case (step f s s')
  show ?case
  proof (cases "no_longer_blocked s = []")
    case False
    then obtain s1 where "try_return_blocked_by (s\<lparr>no_longer_blocked := butlast (no_longer_blocked s)\<rparr>) (List.last (no_longer_blocked s)) = Some s1" "f s1 = Some s'"
      using step.hyps by (auto simp: rust_simps)
    then show ?thesis using step.IH try_return_blocked_by_waits step.prems by simp
  qed (use step in simp)
qed

lemma return_unblocked_waits: "return_unblocked s ub = Some s' \<Longrightarrow> waits N B s \<Longrightarrow> waits N B s'"
  using return_entry_waits unblock_locs_waits unblock_rest_waits
  by (fastforce simp: return_unblocked_def stop_blocking_on_def rust_simps split: option.splits)

lemma continue_fetch_if_needed_waits:
  assumes "continue_fetch_if_needed s c = Some (b, s')" "waits N B s"
  shows "waits N B s'"
proof (cases "get_pc s c")
  case (Some pc)
  then obtain tf nf ub s1 s2 where a: "next_range_to_fetch pc = Some tf"
      "(case tf of BelowHorizon low high \<Rightarrow> Some (Some (low, high), None, s)
         | AboveHorizon low _ \<Rightarrow> do {
             more_multi \<leftarrow> has_more_multi_search_than_outstanding_reads pc;
             if more_multi then do { (ub, pc) \<leftarrow> increment_horizon pc; Some (Some (low, low), ub, set_pc s c pc) } else Some (None, None, s)
           }
         | NFNone \<Rightarrow> Some (None, None, s)) = Some (nf, ub, s1)"
      "(case nf of Some (low, high) \<Rightarrow> fetch_next s1 c low high | None \<Rightarrow> Some s1) = Some s2" "return_unblocked s2 ub = Some s'"
    using assms(1) by (auto simp: continue_fetch_if_needed_def rust_simps)
  have "waits N B s1" using a(2) assms(2) Some
    by (auto simp: rust_simps split: next_to_fetch.splits if_splits intro: waits_set_pc pc_snaps_kept)
  then have "waits N B s2" using a(3) by (auto split: option.splits intro: fetch_next_waits)
  then show ?thesis using a(4) return_unblocked_waits by blast
qed (use assms in \<open>simp add: continue_fetch_if_needed_def\<close>)

lemma continue_fetch_waits:
  assumes "continue_fetch s c = Some s'" "waits N B s"
  shows "waits N B s'"
proof -
  obtain b s1 where a: "continue_fetch_if_needed s c = Some (b, s1)" using assms(1) by (auto simp: continue_fetch_def rust_simps)
  note w = continue_fetch_if_needed_waits [OF a assms(2)]
  show ?thesis
  proof (cases "get_pc s1 c")
    case None
    then show ?thesis using assms(1) a w by (auto simp: continue_fetch_def rust_simps split: if_splits)
  next
    case (Some pc)
    have "waits N B (set_pc s1 c pc')" if "set_finished_reading pc = Some pc'" for pc'
      using waits_set_pc [OF w Some pc_snaps_kept(5) [OF that]] .
    then show ?thesis using assms(1) a w Some by (auto simp: continue_fetch_def rust_simps split: if_splits)
  qed
qed

text \<open>A sentinel that belongs to no multi-append under way ends no wait.\<close>

lemma sentinel_waits:
  assumes r: "handle_completed_read s loc (PSenti i f db k ls ds) = Some s'" and w: "waits N B s" and b: "B i = None"
  shows "waits N B s'"
proof -
  obtain s2 where c: "completed_multi s loc (PSenti i f db k ls ds) True = Some s2" "continue_fetch s2 (fst loc) = Some s'"
    using r by (auto simp: handle_completed_read_def pkt_layout_def kind_layout_def kind_values rust_simps)
  obtain needed s1 where a: "read_needed s loc = Some (needed, s1)" using c(1) by (auto simp: completed_multi_def rust_simps)
  have w1: "waits N B s1" using a w
    by (auto simp: read_needed_def rust_simps split: option.splits intro: waits_set_pc pc_snaps_kept)
  then have "blocked_multiappends s1 i = None" using b by (simp add: waits_def)
  then have "waits N B s2" using c(1) a w1
    by (auto simp: completed_multi_def update_multi_part_read_def rust_simps Let_def split: if_splits intro: waits_set_pc pc_snaps_kept)
  then show ?thesis using continue_fetch_waits c(2) by blast
qed

fun is_sentinel_of :: "uuid \<Rightarrow> packet \<Rightarrow> bool" where
  "is_sentinel_of i (PSenti j f db k ls ds) \<longleftrightarrow> j = i"
| "is_sentinel_of i _ \<longleftrightarrow> False"

fun sentinel_read :: "uuid \<Rightarrow> from_store \<Rightarrow> bool" where
  "sentinel_read i (ReadComplete loc p) \<longleftrightarrow> is_sentinel_of i p"
| "sentinel_read i _ \<longleftrightarrow> False"

lemma sentinels_wait:
  assumes "log_run s (map (\<lambda>m. (j, FromStore m)) ms) = Some s'" "list_all (sentinel_read i) ms" "waits N B s" "B i = None"
  shows "waits N B s'"
  using assms
proof (induction ms arbitrary: s)
  case (Cons m ms)
  obtain loc p where m: "m = ReadComplete loc p" "is_sentinel_of i p" using Cons.prems(2) by (cases m) auto
  obtain f db k ls ds where p: "p = PSenti i f db k ls ds" using m(2) by (cases p) auto
  show ?case
  proof (cases "log_finished s")
    case True
    then show ?thesis using Cons.prems by simp
  next
    case False
    then obtain s1 where "handle_completed_read s loc p = Some s1" "log_run s1 (map (\<lambda>m. (j, FromStore m)) ms) = Some s'"
      using Cons.prems(1) m(1) by (auto simp: rust_simps)
    then show ?thesis using Cons.IH Cons.prems(2-4) sentinel_waits p by auto
  qed
qed simp

section \<open>What the store keeps for a snapshot\<close>

text \<open>A snapshot in its second phase is kept as a sentinel.\<close>

fun second_phase_ok :: "uuid \<Rightarrow> write_state \<Rightarrow> bool" where
  "second_phase_ok i (WSnapshotSkeens2 buf remaining max_ts) \<longleftrightarrow> is_sentinel_of i buf"
| "second_phase_ok i _ \<longleftrightarrow> True"

definition writes_ok :: "store \<Rightarrow> bool" where
  "writes_ok s \<longleftrightarrow> (\<forall>i w. sent_writes s i = Some w \<longrightarrow> second_phase_ok i w)"

lemma writes_ok_cong: "sent_writes s' = sent_writes s \<Longrightarrow> writes_ok s' = writes_ok s"
  by (simp add: writes_ok_def)

lemma writes_kept [simp]:
  "sent_writes (deliver s m) = sent_writes s" "sent_writes (deliver_read s loc p) = sent_writes s"
  "sent_writes (see_timestamps s ts locs) = sent_writes s" "sent_writes (push_out s sv p) = sent_writes s"
  by (simp_all add: deliver_def deliver_read_def see_timestamps_def push_out_def)

lemma deliver_snapshot_writes [simp]: "sent_writes (deliver_snapshot s buf locs) = sent_writes s"
  by (induction locs arbitrary: s) (simp_all add: Let_def)

lemma writes_ok_simps [simp]:
  "writes_ok (deliver s m) = writes_ok s" "writes_ok (deliver_read s loc p) = writes_ok s" "writes_ok (see_timestamps s ts locs) = writes_ok s"
  "writes_ok (push_out s sv p) = writes_ok s" "writes_ok (deliver_snapshot s buf locs) = writes_ok s"
  "writes_ok (s\<lparr>pending_skeens2 := ps\<rparr>) = writes_ok s" "writes_ok (s\<lparr>sent_reads := rs\<rparr>) = writes_ok s"
  "writes_ok (s\<lparr>sent_reads := rs, waiting_buffers := wb\<rparr>) = writes_ok s"
  "writes_ok (s\<lparr>requests := qs\<rparr>) = writes_ok s" "writes_ok (s\<lparr>store_finished := fi\<rparr>) = writes_ok s"
  "writes_ok (s\<lparr>requests := qs, store_finished := fi\<rparr>) = writes_ok s"
  by (rule writes_ok_cong; simp)+

lemma insert_write_ok: "writes_ok s \<Longrightarrow> second_phase_ok i w \<Longrightarrow> writes_ok (insert_write s i w)"
  by (simp add: writes_ok_def insert_write_def)

lemma forget_write_ok: "writes_ok s \<Longrightarrow> writes_ok (s\<lparr>sent_writes := (sent_writes s)(i := None)\<rparr>)"
  by (simp add: writes_ok_def)

lemma sentinel_kept:
  "is_sentinel_of i p \<Longrightarrow> set_flag p f = Some p' \<Longrightarrow> is_sentinel_of i p'"
  "is_sentinel_of i p \<Longrightarrow> flag_mut p g = Some p' \<Longrightarrow> is_sentinel_of i p'"
  "is_sentinel_of i p \<Longrightarrow> locs_mut p ls = Some p' \<Longrightarrow> is_sentinel_of i p'"
  "is_sentinel_of i p \<Longrightarrow> lock_mut p n = Some p' \<Longrightarrow> is_sentinel_of i p'"
  "is_sentinel_of i p \<Longrightarrow> clear_indices p = Some p' \<Longrightarrow> is_sentinel_of i p'"
  "is_sentinel_of i p \<Longrightarrow> pkt_id p = i"
  "as_sentinel p = Some p' \<Longrightarrow> is_sentinel_of (pkt_id p) p'"
  by (cases p; auto simp: clear_indices_def rust_simps split: if_splits)+

lemma keep_write_ok: "writes_ok s \<Longrightarrow> (\<And>w. send = Some w \<Longrightarrow> second_phase_ok i w) \<Longrightarrow> writes_ok (keep_write s i send)"
  by (auto simp: keep_write_def insert_write_ok split: option.split)

lemma send_to_servers_writes:
  "writes_ok (snd (send_to_servers s msg w send servers)) = writes_ok s \<and>
   fst (send_to_servers s msg w send servers) \<in> {send, Some w}"
proof (induction servers arbitrary: s send)
  case (Cons sv servers)
  then show ?case by (cases send) auto
qed simp

lemma send_skeens1_writes:
  assumes "send_skeens1 s msg locs remaining send servers = Some (send', s')" "\<And>w. send = Some w \<Longrightarrow> second_phase_ok i w"
  shows "writes_ok s' = writes_ok s \<and> (\<forall>w. send' = Some w \<longrightarrow> second_phase_ok i w)"
  using assms
proof (induction servers arbitrary: s send)
  case (Cons sv servers)
  show ?case
  proof (cases "sv \<in> set (streams s)")
    case True
    then obtain p b where r: "send_skeens1 (push_out s sv p) msg locs remaining
        (case send of None \<Rightarrow> Some (WSkeens1 msg remaining (replicate (length locs) 0) b) | Some w \<Rightarrow> Some w) servers = Some (send', s')"
      using Cons.prems(1) by (auto simp: rust_simps Let_def)
    then show ?thesis using Cons.IH [OF r] Cons.prems(2) by (cases send) auto
  next
    case False
    then show ?thesis using Cons.IH [of s send] Cons.prems by simp
  qed
qed simp

lemma add_single_server_send_ok:
  assumes "add_single_server_send s sv msg = Some (Some s')" "writes_ok s"
  shows "writes_ok s'"
proof -
  obtain layout where l: "sv \<in> set (streams s)" "pkt_layout msg = Some layout"
    using assms(1) by (auto simp: add_single_server_send_def rust_simps split: if_splits)
  show ?thesis
  proof (cases "layout = LRead")
    case True
    then obtain loc locs n where "pkt_locs msg = Some (loc # locs)" "s' = (push_out s sv msg)\<lparr>sent_reads := (sent_reads (push_out s sv msg))(loc \<mapsto> n),
        waiting_buffers := waiting_buffers (push_out s sv msg) + 1\<rparr>"
      using assms(1) l by (cases "pkt_locs msg"; cases "the (pkt_locs msg)") (auto simp: add_single_server_send_def rust_simps Let_def)
    then show ?thesis using assms(2) by simp
  next
    case False
    then show ?thesis using assms l by (auto simp: add_single_server_send_def Let_def split: if_splits intro: insert_write_ok)
  qed
qed

lemma expect_sent_ok: "expect_sent (add_single_server_send s sv msg) = Some s' \<Longrightarrow> writes_ok s \<Longrightarrow> writes_ok s'"
  by (auto simp: expect_sent_def rust_simps intro: add_single_server_send_ok)

lemma send_all_ok: "send_all s msg servers = Some s' \<Longrightarrow> writes_ok s \<Longrightarrow> writes_ok s'"
  by (induction servers arbitrary: s) (auto simp: rust_simps split: option.splits intro: add_single_server_send_ok)

lemma add_skeens1_ok: "add_skeens1 s msg = Some s' \<Longrightarrow> writes_ok s \<Longrightarrow> writes_ok s'"
  by (auto simp: add_skeens1_def rust_simps intro!: keep_write_ok dest: send_skeens1_writes [where i = "pkt_id msg"])

lemma add_snapshot_skeens1_ok: "add_snapshot_skeens1 s msg = Some s' \<Longrightarrow> writes_ok s \<Longrightarrow> writes_ok s'"
  using send_to_servers_writes [of s msg "WSnapshotSkeens1 msg (remaining_of s (the (get_servers_for_multi s msg))) (replicate (length (the (pkt_locs msg))) 0)"
      None "the (get_servers_for_multi s msg)"]
  by (auto simp: add_snapshot_skeens1_def rust_simps Let_def case_prod_unfold intro!: keep_write_ok)

lemma request_multi_ok:
  assumes "request_multi s msg = Some s'" "writes_ok s"
  shows "writes_ok s'"
proof -
  obtain locs where "pkt_locs msg = Some locs" using assms(1) by (auto simp: request_multi_def rust_simps)
  then show ?thesis using assms
    by (cases locs) (auto simp: request_multi_def rust_simps split: if_splits intro: send_all_ok expect_sent_ok add_skeens1_ok)
qed

lemma request_snapshot_ok:
  assumes "request_snapshot s msg = Some s'" "writes_ok s"
  shows "writes_ok s'"
proof -
  obtain locs where "pkt_locs msg = Some locs" using assms(1) by (auto simp: request_snapshot_def rust_simps)
  then show ?thesis using assms
    by (cases locs) (auto simp: request_snapshot_def rust_simps split: if_splits intro: expect_sent_ok add_snapshot_skeens1_ok)
qed

lemma new_request_ok:
  assumes "new_request s msg = Some s'" "writes_ok s"
  shows "writes_ok s'"
proof -
  obtain layout where "pkt_layout msg = Some layout" using assms(1) by (auto simp: new_request_def rust_simps)
  then show ?thesis using assms
    by (cases layout; cases "pkt_locs msg"; cases "the (pkt_locs msg)")
      (auto simp: new_request_def request_data_def rust_simps intro: expect_sent_ok request_multi_ok request_snapshot_ok)
qed

lemma poll_requests_ok: "poll_requests n s = Some s' \<Longrightarrow> writes_ok s \<Longrightarrow> writes_ok s'"
proof (induction n arbitrary: s)
  case (Suc n)
  obtain b s1 where h: "handle_new_requests_from_client s = Some (b, s1)" "(if b then poll_requests n s1 else Some s1) = Some s'"
    using Suc.prems(1) by (auto simp: rust_simps)
  have "writes_ok s1" using h(1) Suc.prems(2)
    by (cases "requests s"; cases "hd (requests s)") (auto simp: handle_new_requests_from_client_def rust_simps intro: new_request_ok split: if_splits)
  then show ?case using Suc.IH h(2) by (auto split: if_splits)
qed simp

section \<open>Answers and the second phase\<close>

lemma skeens_finished_ok:
  "skeens_finished s token p i remaining ts = Some (r, remaining', ts', s') \<Longrightarrow> writes_ok s' = writes_ok s"
  by (auto simp: skeens_finished_def rust_simps Let_def split: if_splits)

lemma add_sk2_ok: "add_sk2 s buf max_ts b = Some s' \<Longrightarrow> writes_ok s' = writes_ok s"
  by (auto simp: add_sk2_def rust_simps)

lemma completed_phase1_ok:
  assumes "writes_ok s"
  shows "completed_skeens1 s token p buf remaining ts b = Some (r, p', s') \<Longrightarrow> writes_ok s'"
    "completed_snapshot_skeens1 s token p buf remaining ts = Some (r, p', s') \<Longrightarrow> writes_ok s'"
  using assms by (auto simp: completed_skeens1_def completed_snapshot_skeens1_def rust_simps split: if_splits option.splits
      dest!: skeens_finished_ok add_sk2_ok intro!: insert_write_ok)

lemma completed_phase2_ok:
  assumes "writes_ok s"
  shows "completed_skeens2 s token p buf remaining m = Some (r, p', s') \<Longrightarrow> writes_ok s'"
    "completed_single_server s token p buf = Some (r, p', s') \<Longrightarrow> writes_ok s'"
  using assms by (auto simp: completed_skeens2_def completed_single_server_def rust_simps Let_def split: if_splits intro!: insert_write_ok)

text \<open>A snapshot in its second phase: what is given to the log thread are sentinels, and what is kept is one.\<close>

lemma deliver_snapshot_sentinels:
  "is_sentinel_of i buf \<Longrightarrow> \<exists>ms. to_client (deliver_snapshot s buf locs) = to_client s @ ms \<and> list_all (sentinel_read i) ms"
proof (induction locs arbitrary: s)
  case (Cons l locs)
  show ?case
  proof (cases "client_up s")
    case True
    let ?s = "s\<lparr>to_client := to_client s @ [ReadComplete l buf]\<rparr>"
    obtain ms where "to_client (deliver_snapshot ?s buf locs) = to_client ?s @ ms" "list_all (sentinel_read i) ms"
      using Cons.IH [OF Cons.prems, of ?s] by blast
    then show ?thesis using True Cons.prems by (simp add: deliver_def)
  qed (simp add: deliver_def)
qed simp

lemma completed_snapshot_skeens2_ok:
  assumes "completed_snapshot_skeens2 s token p buf remaining m = Some (r, p', s')" "is_sentinel_of (pkt_id p) buf"
  shows "writes_ok s \<Longrightarrow> writes_ok s'" "\<exists>ms. to_client s' = to_client s @ ms \<and> list_all (sentinel_read (pkt_id p)) ms" "r = Inl ()"
proof -
  define last where "last \<longleftrightarrow> remaining - {token} = {}"
  obtain buf1 mine buf2 where b: "(if last then set_flag buf fReadSuccess else Some buf) = Some buf1"
      "locs_mut buf1 mine = Some buf2" and r: "r = Inl ()"
      and s': "s' = (if last then deliver_snapshot s buf2 mine else insert_write s (pkt_id p) (WSnapshotSkeens2 buf2 (remaining - {token}) m))"
    using assms(1) unfolding completed_snapshot_skeens2_def Let_def last_def [symmetric]
    by (cases last) (auto simp del: Diff_eq_empty_iff simp: rust_simps)
  have i: "is_sentinel_of (pkt_id p) buf1" using b(1) assms(2) sentinel_kept(1) by (cases last) auto
  have i2: "is_sentinel_of (pkt_id p) buf2" using sentinel_kept(3) [OF i b(2)] .
  show "writes_ok s \<Longrightarrow> writes_ok s'" using i2 by (cases last) (simp_all add: s' insert_write_ok)
  show "\<exists>ms. to_client s' = to_client s @ ms \<and> list_all (sentinel_read (pkt_id p)) ms"
    using deliver_snapshot_sentinels [OF i2, of s mine] by (cases last) (simp_all add: s' insert_write_def)
  show "r = Inl ()" by (rule r)
qed

lemma handle_completed_write_ok:
  assumes "handle_completed_write s token p = Some (r, p', s')" "writes_ok s"
  shows "writes_ok s'"
proof (cases "sent_writes s (pkt_id p)")
  case None
  then have "s' = s" using assms(1) by (cases "pkt_flag p"; cases "pkt_layout p") (simp_all add: handle_completed_write_def)
  then show ?thesis using assms(2) by simp
next
  case (Some w)
  let ?s = "s\<lparr>sent_writes := (sent_writes s)(pkt_id p := None)\<rparr>"
  have ok: "writes_ok ?s" using forget_write_ok [OF assms(2)] .
  have w: "second_phase_ok (pkt_id p) w" using Some assms(2) by (simp add: writes_ok_def)
  obtain f where f: "pkt_flag p = Some f" using assms(1) by (cases "pkt_flag p") (simp_all add: handle_completed_write_def)
  note h = assms(1) [unfolded handle_completed_write_def f bind.bind_lunit Let_def Some option.case]
  show ?thesis
  proof (cases w)
    case (WSkeens1 buf remaining ts b)
    show ?thesis by (rule completed_phase1_ok(1) [OF ok]) (use h WSkeens1 in simp)
  next
    case (WSkeens2 buf remaining m)
    show ?thesis by (rule completed_phase2_ok(1) [OF ok]) (use h WSkeens2 in simp)
  next
    case (WSnapshotSkeens1 buf remaining ts)
    show ?thesis by (rule completed_phase1_ok(2) [OF ok]) (use h WSnapshotSkeens1 in simp)
  next
    case (WSnapshotSkeens2 buf remaining m)
    show ?thesis by (rule completed_snapshot_skeens2_ok(1) [OF _ _ ok]) (use h w WSnapshotSkeens2 in simp_all)
  next
    case (WSingleServer buf)
    show ?thesis by (rule completed_phase2_ok(2) [OF ok]) (use h WSingleServer in simp)
  next
    case (WGC buf)
    then have "s' = ?s" using h by auto
    then show ?thesis using ok by simp
  qed
qed

lemma take_sent_read_ok: "take_sent_read s oi = Some (b, s') \<Longrightarrow> writes_ok s' = writes_ok s"
  by (auto simp: take_sent_read_def rust_simps split: option.splits)

lemma completed_read_locs_ok:
  "completed_read_locs s p flag ts my sen sl needed locs = Some (b, s') \<Longrightarrow> writes_ok s' = writes_ok s"
proof (induction locs arbitrary: s sl needed)
  case (Cons oi locs)
  let ?s = "if bits_contains flag fReadSuccess then see_timestamps s ts [oi] else s"
  have w: "writes_ok ?s = writes_ok s" by simp
  show ?case
  proof (cases "oi = (0, 0) \<or> sen \<and> \<not> sl")
    case True
    then show ?thesis using Cons w by (auto simp: rust_simps Let_def split: if_splits)
  next
    case False
    then obtain nd s1 where t: "take_sent_read ?s oi = Some (nd, s1)" using Cons.prems by (auto simp: rust_simps Let_def)
    have "writes_ok s' = writes_ok s1"
      using Cons.prems False t Cons.IH [of s1] Cons.IH [of "deliver_read s1 oi p"] by (auto simp: rust_simps Let_def split: if_splits)
    then show ?thesis using take_sent_read_ok [OF t] w by simp
  qed
qed simp

lemma store_completed_read_ok: "store_completed_read s p my = Some (b, s') \<Longrightarrow> writes_ok s' = writes_ok s"
proof -
  have "writes_ok (foldl (\<lambda>s oi. deliver_read s oi p) s locs) = writes_ok s" for s locs by (induction locs arbitrary: s) simp_all
  then show "store_completed_read s p my = Some (b, s') \<Longrightarrow> writes_ok s' = writes_ok s"
    by (auto simp: store_completed_read_def rust_simps split: if_splits dest: completed_read_locs_ok)
qed

lemma handle_completion_ok:
  assumes "handle_completion s token p = Some s'" "writes_ok s"
  shows "writes_ok s'"
proof -
  obtain r p' s1 where r: "handle_completed_write s token p = Some (r, p', s1)" using assms(1) by (auto simp: handle_completion_def rust_simps)
  have "writes_ok s' = writes_ok s1"
    using assms(1) r by (cases r) (auto simp: handle_completion_def rust_simps dest: store_completed_read_ok)
  then show ?thesis using handle_completed_write_ok [OF r assms(2)] by simp
qed

lemma store_handle_message_ok: "store_handle_message s token p = Some s' \<Longrightarrow> writes_ok s \<Longrightarrow> writes_ok s'"
  using handle_completion_ok by (fastforce simp: store_handle_message_def rust_simps split: if_splits dest: store_completed_read_ok)

lemma send_skeens2_ok:
  assumes "send_skeens2 s sk2 = Some s'" "writes_ok s"
  shows "writes_ok s'"
proof -
  obtain b0 b1 b2 buf where b: "as_sentinel (sk2_buf sk2) = Some b0"
      "flag_mut b0 (\<lambda>f. bits_insert (bits_insert f fUnlock) fNewMultiPut) = Some b1" "clear_indices b1 = Some b2" "lock_mut b2 (sk2_max_ts sk2) = Some buf"
    using assms(1) by (auto simp: send_skeens2_def rust_simps)
  define w where "w = (if sk2_is_snapshot sk2 then WSnapshotSkeens2 buf (remaining_of s (sk2_servers sk2)) (sk2_max_ts sk2)
    else WSkeens2 buf (remaining_of s (sk2_servers sk2)) (sk2_max_ts sk2))"
  have i: "is_sentinel_of (pkt_id (sk2_buf sk2)) buf" using b sentinel_kept(2,4,5,7) by metis
  then have "second_phase_ok (pkt_id buf) w" using sentinel_kept(6) [OF i] by (simp add: w_def)
  moreover have "s' = keep_write (snd (send_to_servers s buf w None (sk2_servers sk2))) (pkt_id buf) (fst (send_to_servers s buf w None (sk2_servers sk2)))"
    using assms(1) b by (simp add: send_skeens2_def w_def Let_def case_prod_unfold)
  ultimately show ?thesis using send_to_servers_writes [of s buf w None "sk2_servers sk2"] assms(2) by (auto intro!: keep_write_ok)
qed

lemma send_pending_ok: "send_pending s sks = Some s' \<Longrightarrow> writes_ok s \<Longrightarrow> writes_ok s'"
  by (induction sks arbitrary: s) (auto simp: rust_simps intro: send_skeens2_ok)

lemma store_run_ok: "store_run s es = Some s' \<Longrightarrow> writes_ok s \<Longrightarrow> writes_ok s'"
proof (induction es arbitrary: s)
  case (Cons e es)
  obtain s1 where s1: "store_step s e = Some s1" "store_run s1 es = Some s'" using Cons.prems(1) by (auto simp: rust_simps)
  have "writes_ok s1" using s1(1) Cons.prems(2)
    by (cases e) (auto simp: on_poll_def after_work_def intro: poll_requests_ok store_handle_message_ok send_pending_ok)
  then show ?case using Cons.IH s1(2) by blast
qed simp

lemma store_new_ok: "writes_ok ((store_new n u)\<lparr>requests := rs\<rparr>)"
  by (simp add: writes_ok_def store_new_def)

text \<open>What the store tells the log thread when an answer to the second phase of a snapshot comes in.\<close>

lemma snapshot_answer_sentinels:
  assumes ok: "writes_ok s" and w: "sent_writes s (pkt_id p) = Some (WSnapshotSkeens2 buf remaining m)"
    and a: "store_handle_message s token p = Some s'" "pkt_flag p = Some f" "bits_contains f fReadSuccess"
  shows "\<exists>ms. to_client s' = to_client s @ ms \<and> list_all (sentinel_read (pkt_id p)) ms"
proof (cases "\<not> bits_contains f fUnlock \<or> bits_contains f fNewMultiPut")
  case True
  let ?s = "s\<lparr>sent_writes := (sent_writes s)(pkt_id p := None)\<rparr>"
  have i: "is_sentinel_of (pkt_id p) buf" using ok w by (auto simp: writes_ok_def dest: spec [of _ "pkt_id p"])
  obtain r p' s1 where c: "completed_snapshot_skeens2 ?s token p buf remaining m = Some (r, p', s1)"
    using a True w by (auto simp: store_handle_message_def handle_completion_def handle_completed_write_def rust_simps)
  have "s' = s1" using c completed_snapshot_skeens2_ok(3) [OF c i] a True w
    by (simp add: store_handle_message_def handle_completion_def handle_completed_write_def)
  then show ?thesis using completed_snapshot_skeens2_ok(2) [OF c i] by simp
next
  case False
  then show ?thesis using a by (simp add: store_handle_message_def)
qed

end
