(* ===== verification/Client_Replicator.thy ===== *)
theory Client_Replicator
  imports Client_Log "HOL-Library.Multiset"
begin

text \<open>
  The replicator (\<^verbatim>\<open>fuzzy_log_client/src/replicator.rs\<close>): it copies the entries a log thread reads from remote
  servers to the log of local ones and holds an entry back until the local log has acknowledged what the entry
  depends on. As in \<open>Client_Log\<close>, channels are lists of what was sent with a flag whether the other side is up, and
  a node \<open>Rc<Vec<u8>>\<close> is an address, the packet behind it and its strong count. The map of blocked nodes is a
  list of keys and queues. The theorem is that entries are appended behind their dependencies, each of them once.
\<close>

section \<open>State\<close>

text \<open>\<open>Response\<close>; an empty buffer, the mark of a finished snapshot, is \<open>RespDone\<close>.\<close>

datatype response = RespRead packet | RespDone | RespWrote uuid "order_index list" | RespErr log_error

fun response_of_read :: "read_result \<Rightarrow> response" where
  "response_of_read (ReadOk p) = RespRead p"
| "response_of_read ReadDone = RespDone"
| "response_of_read (ReadErr e) = RespErr e"

fun response_of_write :: "write_result \<Rightarrow> response" where
  "response_of_write (WriteOk i locs) = RespWrote i locs"
| "response_of_write (WriteErr e) = RespErr e"

type_synonym blocked_map = "(order_index \<times> nat list) list"

record replicator =
  to_remote_log :: "from_client list"
  remote_up :: bool
  to_local_log :: "from_client list"
  local_up :: bool
  rep_horizon :: "order \<rightharpoonup> entry"
  rep_blocked :: blocked_map
  node_val :: "nat \<Rightarrow> packet"
  node_count :: "nat \<Rightarrow> nat"
  node_next :: nat
  rep_snapshots :: u64
  outstanding_appends :: u64

definition replicator_new :: replicator where
  "replicator_new = \<lparr>to_remote_log = [], remote_up = True, to_local_log = [], local_up = True,
     rep_horizon = Map.empty, rep_blocked = [], node_val = (\<lambda>_. read_packet 0 (0, 0)), node_count = (\<lambda>_. 0),
     node_next = 0, rep_snapshots = 0, outstanding_appends = 0\<rparr>"

section \<open>Operations\<close>

definition send_remote :: "replicator \<Rightarrow> from_client \<Rightarrow> replicator option" where
  "send_remote r msg = do {
     rust_assert (remote_up r);
     Some (r\<lparr>to_remote_log := to_remote_log r @ [msg]\<rparr>)
   }"

definition appender_append :: "replicator \<Rightarrow> packet \<Rightarrow> replicator option" where
  "appender_append r p = do {
     rust_assert (local_up r);
     n \<leftarrow> u64_add (outstanding_appends r) 1;
     Some (r\<lparr>to_local_log := to_local_log r @ [PerformAppend p], outstanding_appends := n\<rparr>)
   }"

definition got_append :: "replicator \<Rightarrow> replicator option" where
  "got_append r = do {
     n \<leftarrow> u64_sub (outstanding_appends r) 1;
     Some (r\<lparr>outstanding_appends := n\<rparr>)
   }"

definition finished_snapshot :: "replicator \<Rightarrow> (bool \<times> replicator) option" where
  "finished_snapshot r = do {
     n \<leftarrow> u64_sub (rep_snapshots r) 1;
     Some (n = 0, r\<lparr>rep_snapshots := n\<rparr>)
   }"

definition re_snapshot :: "replicator \<Rightarrow> order \<Rightarrow> replicator option" where
  "re_snapshot r chain = do {
     r \<leftarrow> send_remote r (SnapshotAndPrefetch chain);
     n \<leftarrow> u64_add (rep_snapshots r) 1;
     Some (r\<lparr>rep_snapshots := n\<rparr>)
   }"

definition snapshot_remote :: "replicator \<Rightarrow> replicator option" where
  "snapshot_remote r = re_snapshot r 0"

text \<open>\<open>entry(..).or_insert_with(VecDeque::new).push_back(..)\<close> and the removal of an occupied entry.\<close>

fun block_on :: "order_index \<Rightarrow> nat \<Rightarrow> blocked_map \<Rightarrow> blocked_map" where
  "block_on k a [] = [(k, [a])]"
| "block_on k a ((k', q) # bs) = (if k = k' then (k', q @ [a]) # bs else (k', q) # block_on k a bs)"

fun take_blocked :: "order_index \<Rightarrow> blocked_map \<Rightarrow> nat list \<times> blocked_map" where
  "take_blocked k [] = ([], [])"
| "take_blocked k ((k', q) # bs) =
     (if k = k' then (q, bs) else let (q', bs') = take_blocked k bs in (q', (k', q) # bs'))"

text \<open>The loop over a drained queue: the last reference to a node appends its entry.\<close>

fun release :: "replicator \<Rightarrow> nat list \<Rightarrow> replicator option" where
  "release r [] = Some r"
| "release r (a # as) = do {
     let r' = r\<lparr>node_count := (node_count r)(a := node_count r a - 1)\<rparr>;
     r'' \<leftarrow> (if node_count r a = 1 then appender_append r' (node_val r a) else Some r');
     release r'' as
   }"

definition after_write_ack :: "replicator \<Rightarrow> order_index \<Rightarrow> replicator option" where
  "after_write_ack r loc =
     (let chain = fst loc; index = snd loc;
          val = (case rep_horizon r chain of None \<Rightarrow> index | Some h \<Rightarrow> max h index);
          (q, bs) = take_blocked loc (rep_blocked r)
      in release (r\<lparr>rep_horizon := (rep_horizon r)(chain \<mapsto> val), rep_blocked := bs\<rparr>) q)"

fun after_write_acks :: "replicator \<Rightarrow> order_index list \<Rightarrow> replicator option" where
  "after_write_acks r [] = Some r"
| "after_write_acks r (loc # locs) = do { r \<leftarrow> after_write_ack r loc; after_write_acks r locs }"

definition within :: "(order \<rightharpoonup> entry) \<Rightarrow> order_index \<Rightarrow> bool" where
  "within hz loc = (case hz (fst loc) of None \<Rightarrow> False | Some h \<Rightarrow> snd loc \<le> h)"

fun block_deps :: "replicator \<Rightarrow> nat \<Rightarrow> order_index list \<Rightarrow> replicator" where
  "block_deps r a [] = r"
| "block_deps r a (loc # deps) =
     block_deps (if within (rep_horizon r) loc then r
       else r\<lparr>rep_blocked := block_on loc a (rep_blocked r), node_count := (node_count r)(a := node_count r a + 1)\<rparr>) a deps"

definition block_node :: "replicator \<Rightarrow> packet \<Rightarrow> replicator option" where
  "block_node r p = do {
     let a = node_next r;
     let r = r\<lparr>node_val := (node_val r)(a := p), node_count := (node_count r)(a := 1), node_next := Suc a\<rparr>;
     deps \<leftarrow> dependencies p;
     release (block_deps r a deps) [a]
   }"

text \<open>An entry to copy is written at its own place, whichever layout it has.\<close>

definition copy_entry :: "replicator \<Rightarrow> packet \<Rightarrow> replicator option" where
  "copy_entry r p = do {
     p \<leftarrow> flag_mut p (\<lambda>f. bits_insert f fDirectWrite);
     deps \<leftarrow> dependencies p;
     r \<leftarrow> (if list_all (within (rep_horizon r)) deps then appender_append r p else block_node r p);
     send_remote r (ReturnBuffer p)
   }"

definition handle_response :: "replicator \<Rightarrow> response \<Rightarrow> (bool \<times> replicator) option" where
  "handle_response r m =
     (case m of
        RespErr e \<Rightarrow> Some (False, r)
      | RespWrote i locs \<Rightarrow> do {
          r \<leftarrow> got_append r;
          r \<leftarrow> after_write_acks r locs;
          Some (False, r)
        }
      | RespDone \<Rightarrow> finished_snapshot r
      | RespRead p \<Rightarrow> do {
          layout \<leftarrow> pkt_layout p;
          if layout = LRead then do {
            locs \<leftarrow> pkt_locs p;
            rust_assert (locs \<noteq> []);
            r \<leftarrow> re_snapshot r (fst (hd locs));
            r \<leftarrow> send_remote r (ReturnBuffer p);
            Some (False, r)
          }
          else if layout = LData \<or> layout = LMultiput then do {
            r \<leftarrow> copy_entry r p;
            Some (False, r)
          }
          else None
        })"

text \<open>The loops of \<open>run\<close> on what the logs send: a new snapshot after the last one has finished.\<close>

fun rep_messages :: "replicator \<Rightarrow> response list \<Rightarrow> replicator option" where
  "rep_messages r [] = Some r"
| "rep_messages r (m # ms) = do {
     (done, r) \<leftarrow> handle_response r m;
     r \<leftarrow> (if done then snapshot_remote r else Some r);
     rep_messages r ms
   }"

definition replicator_run :: "replicator \<Rightarrow> response list \<Rightarrow> replicator option" where
  "replicator_run r ms = do { r \<leftarrow> snapshot_remote r; rep_messages r ms }"

section \<open>Causal order and exactly once\<close>

fun append_packets :: "from_client list \<Rightarrow> packet list" where
  "append_packets [] = []"
| "append_packets (PerformAppend p # ms) = p # append_packets ms"
| "append_packets (_ # ms) = append_packets ms"

text \<open>What the local log has acknowledged and the entries that were read, as they are to be written.\<close>

fun acked :: "response list \<Rightarrow> order_index list" where
  "acked [] = []"
| "acked (RespWrote i locs # ms) = locs @ acked ms"
| "acked (_ # ms) = acked ms"

fun received :: "response list \<Rightarrow> packet list" where
  "received [] = []"
| "received (RespRead p # ms) =
     (if pkt_layout p = Some LData \<or> pkt_layout p = Some LMultiput
      then the (flag_mut p (\<lambda>f. bits_insert f fDirectWrite)) # received ms else received ms)"
| "received (_ # ms) = received ms"

definition refs :: "blocked_map \<Rightarrow> nat list" where
  "refs bs = concat (map snd bs)"

definition blocked_at :: "order_index \<Rightarrow> blocked_map \<Rightarrow> nat \<Rightarrow> bool" where
  "blocked_at k bs a \<longleftrightarrow> (\<exists>q. (k, q) \<in> set bs \<and> a \<in> set q)"

definition held :: "nat list \<Rightarrow> replicator \<Rightarrow> nat set" where
  "held as r = set (refs (rep_blocked r) @ as)"

text \<open>What has been appended and what is held back.\<close>

definition content :: "nat list \<Rightarrow> replicator \<Rightarrow> packet multiset" where
  "content as r = mset (append_packets (to_local_log r)) + image_mset (node_val r) (mset_set (held as r))"

definition behind_deps :: "(order \<rightharpoonup> entry) \<Rightarrow> packet \<Rightarrow> bool" where
  "behind_deps hz p \<longleftrightarrow> (\<exists>ds. dependencies p = Some ds \<and> (\<forall>loc \<in> set ds. within hz loc))"

text \<open>The list holds the references to nodes that are in hand and not in the map.\<close>

definition rep_ok :: "nat list \<Rightarrow> replicator \<Rightarrow> bool" where
  "rep_ok as r \<longleftrightarrow> (\<forall>a. node_count r a = count_list (refs (rep_blocked r) @ as) a) \<and>
     (\<forall>a \<in> held as r. a < node_next r \<and> (\<exists>ds. dependencies (node_val r a) = Some ds \<and>
        (\<forall>loc \<in> set ds. within (rep_horizon r) loc \<or> blocked_at loc (rep_blocked r) a))) \<and>
     (\<forall>p \<in> set (append_packets (to_local_log r)). behind_deps (rep_horizon r) p)"

lemma append_packets_append [simp]: "append_packets (xs @ ys) = append_packets xs @ append_packets ys"
  by (induction xs rule: append_packets.induct) auto

lemma finite_held [simp]: "finite (held as r)"
  by (simp add: held_def)

lemma block_on_refs: "mset (refs (block_on k a bs)) = add_mset a (mset (refs bs))"
  by (induction bs) (auto simp: refs_def)

lemma block_on_blocked: "blocked_at k' (block_on k a bs) b \<longleftrightarrow> blocked_at k' bs b \<or> k' = k \<and> b = a"
  by (induction k a bs rule: block_on.induct) (auto simp: blocked_at_def)

lemma take_blocked_refs: "take_blocked k bs = (q, bs') \<Longrightarrow> mset (refs bs) = mset (refs bs') + mset q"
  by (induction k bs arbitrary: q bs' rule: take_blocked.induct)
    (auto simp: refs_def split: if_splits prod.splits)

lemma take_blocked_other: "take_blocked k bs = (q, bs') \<Longrightarrow> k' \<noteq> k \<Longrightarrow> blocked_at k' bs' a = blocked_at k' bs a"
  by (induction k bs arbitrary: q bs' rule: take_blocked.induct)
    (auto simp: blocked_at_def split: if_splits prod.splits)

lemma count_list_mset: "count_list xs a = count (mset xs) a"
  by (induction xs) auto

lemma blocked_at_refs: "blocked_at k bs a \<Longrightarrow> a \<in> set (refs bs)"
  by (force simp: blocked_at_def refs_def)

lemma refs_blocked_at: "a \<in> set (refs bs) \<Longrightarrow> \<exists>k. blocked_at k bs a"
  unfolding refs_def blocked_at_def by fastforce

lemma within_mono:
  assumes "within hz loc" "\<And>o' h. hz o' = Some h \<Longrightarrow> \<exists>h'. hz' o' = Some h' \<and> h \<le> h'"
  shows "within hz' loc"
  using assms(1) assms(2) [of "fst loc"] by (fastforce simp: within_def split: option.splits)

lemma appender_append_eq:
  "appender_append r p = Some r' \<longleftrightarrow> local_up r \<and> Suc (outstanding_appends r) \<le> u64_max \<and>
     r' = r\<lparr>to_local_log := to_local_log r @ [PerformAppend p], outstanding_appends := Suc (outstanding_appends r)\<rparr>"
  by (auto simp: appender_append_def rust_simps)

lemma rep_okD:
  assumes "rep_ok as r"
  shows "node_count r a = count_list (refs (rep_blocked r) @ as) a" "a \<in> held as r \<Longrightarrow> a < node_next r"
    "p \<in> set (append_packets (to_local_log r)) \<Longrightarrow> behind_deps (rep_horizon r) p"
  using assms by (auto simp: rep_ok_def)

lemma rep_ok_node:
  assumes "rep_ok as r" "a \<in> held as r"
  obtains ds where "dependencies (node_val r a) = Some ds"
    "\<And>loc. loc \<in> set ds \<Longrightarrow> within (rep_horizon r) loc \<or> blocked_at loc (rep_blocked r) a"
  using assms unfolding rep_ok_def by blast

lemma behind_deps_mono: "behind_deps hz p \<Longrightarrow> (\<And>k. within hz k \<Longrightarrow> within hz' k) \<Longrightarrow> behind_deps hz' p"
  unfolding behind_deps_def by blast

lemma release_step_shared:
  assumes ok: "rep_ok (a # as) r" and n: "node_count r a \<noteq> 1"
  defines "r' \<equiv> r\<lparr>node_count := (node_count r)(a := node_count r a - 1)\<rparr>"
  shows "rep_ok as r'" "content as r' = content (a # as) r"
proof -
  have "0 < count_list (refs (rep_blocked r) @ as) a"
    using rep_okD(1) [OF ok, of a] n by simp
  then have "a \<in> set (refs (rep_blocked r) @ as)"
    by (metis count_list_0_iff less_numeral_extra(3))
  then have h: "held as r' = held (a # as) r" by (auto simp: held_def r'_def)
  then show "content as r' = content (a # as) r" by (simp add: content_def r'_def)
  show "rep_ok as r'"
    using ok h unfolding rep_ok_def by (auto simp: r'_def)
qed

lemma release_step_last:
  assumes ok: "rep_ok (a # as) r" and n: "node_count r a = 1"
    and app: "appender_append (r\<lparr>node_count := (node_count r)(a := node_count r a - 1)\<rparr>) (node_val r a) = Some r'"
  shows "rep_ok as r'" "content as r' = content (a # as) r"
proof -
  have "count_list (refs (rep_blocked r) @ as) a = 0" using rep_okD(1) [OF ok, of a] n by simp
  then have a: "a \<notin> set (refs (rep_blocked r) @ as)" by (simp add: count_list_0_iff)
  have h: "held (a # as) r = insert a (held as r')" "a \<notin> held as r'"
    using a app by (auto simp: held_def appender_append_eq)
  then show "content as r' = content (a # as) r"
    using app by (auto simp: content_def appender_append_eq)
  have "\<not> blocked_at loc (rep_blocked r) a" for loc using a blocked_at_refs [of loc] by auto
  moreover have "a \<in> held (a # as) r" by (simp add: held_def)
  ultimately have "behind_deps (rep_horizon r) (node_val r a)"
    using rep_ok_node [OF ok] unfolding behind_deps_def by metis
  then show "rep_ok as r'"
    using ok h app n a unfolding rep_ok_def by (auto simp: appender_append_eq)
qed

lemma release_ok:
  "rep_ok as r \<Longrightarrow> release r as = Some r' \<Longrightarrow>
   rep_ok [] r' \<and> content [] r' = content as r \<and> rep_horizon r' = rep_horizon r"
proof (induction as arbitrary: r)
  case (Cons a as)
  let ?r = "r\<lparr>node_count := (node_count r)(a := node_count r a - 1)\<rparr>"
  show ?case
  proof (cases "node_count r a = 1")
    case True
    then obtain r1 where r1: "appender_append ?r (node_val r a) = Some r1" "release r1 as = Some r'"
      using Cons.prems(2) by (auto simp: Let_def rust_simps)
    moreover have "rep_horizon r1 = rep_horizon r" using r1(1) by (auto simp: appender_append_eq)
    ultimately show ?thesis
      using Cons.IH [OF release_step_last(1) [OF Cons.prems(1) True r1(1)] r1(2)]
        release_step_last(2) [OF Cons.prems(1) True r1(1)] by simp
  next
    case False
    then have "release ?r as = Some r'" using Cons.prems(2) by (simp add: Let_def)
    then show ?thesis
      using Cons.IH [OF release_step_shared(1) [OF Cons.prems(1) False]] release_step_shared(2) [OF Cons.prems(1) False]
      by simp
  qed
qed simp

lemma block_deps_effect:
  assumes "\<forall>b. node_count r b = count_list (refs (rep_blocked r) @ [a]) b" "block_deps r a deps = r'"
  shows "(\<forall>b. node_count r' b = count_list (refs (rep_blocked r') @ [a]) b) \<and> held [a] r' = held [a] r \<and>
    rep_horizon r' = rep_horizon r \<and> node_val r' = node_val r \<and> node_next r' = node_next r \<and>
    to_local_log r' = to_local_log r \<and> (\<forall>k b. blocked_at k (rep_blocked r) b \<longrightarrow> blocked_at k (rep_blocked r') b) \<and>
    (\<forall>loc \<in> set deps. within (rep_horizon r) loc \<or> blocked_at loc (rep_blocked r') a)"
  using assms
proof (induction r a deps rule: block_deps.induct)
  case (2 r a loc deps)
  show ?case
  proof (cases "within (rep_horizon r) loc")
    case True
    then show ?thesis using 2 by simp
  next
    case False
    define r1 where "r1 = r\<lparr>rep_blocked := block_on loc a (rep_blocked r), node_count := (node_count r)(a := node_count r a + 1)\<rparr>"
    have same: "rep_horizon r1 = rep_horizon r" "node_val r1 = node_val r" "node_next r1 = node_next r"
      "to_local_log r1 = to_local_log r" "rep_blocked r1 = block_on loc a (rep_blocked r)" by (simp_all add: r1_def)
    have c: "\<forall>b. node_count r1 b = count_list (refs (rep_blocked r1) @ [a]) b"
      using 2(2) by (simp add: r1_def count_list_mset block_on_refs)
    have h: "held [a] r1 = held [a] r"
      using block_on_refs [of loc a "rep_blocked r"] by (simp add: held_def r1_def flip: set_mset_mset)
    have "block_deps r1 a deps = r'" using 2(3) False by (simp add: r1_def)
    note ih = "2.IH" [unfolded if_not_P [OF False] r1_def [symmetric], OF c this, unfolded same h]
    have keep: "blocked_at k (rep_blocked r') b" if "blocked_at k (block_on loc a (rep_blocked r)) b" for k b
      using ih that by blast
    have "blocked_at loc (rep_blocked r') a" by (rule keep) (simp add: block_on_blocked)
    moreover have "blocked_at k (rep_blocked r') b" if "blocked_at k (rep_blocked r) b" for k b
      by (rule keep) (simp add: block_on_blocked that)
    ultimately show ?thesis using ih by simp
  qed
qed simp

lemma block_node_ok:
  assumes ok: "rep_ok [] r" and res: "block_node r p = Some r'"
  shows "rep_ok [] r' \<and> content [] r' = add_mset p (content [] r) \<and> rep_horizon r' = rep_horizon r"
proof -
  let ?a = "node_next r"
  define r1 where "r1 = r\<lparr>node_val := (node_val r)(?a := p), node_count := (node_count r)(?a := 1), node_next := Suc ?a\<rparr>"
  obtain deps where deps: "dependencies p = Some deps" and rel: "release (block_deps r1 ?a deps) [?a] = Some r'"
    using res by (auto simp: block_node_def r1_def Let_def rust_simps simp del: release.simps)
  define r2 where "r2 = block_deps r1 ?a deps"
  have fresh: "?a \<notin> held [] r" using rep_okD(2) [OF ok] by blast
  then have "count_list (refs (rep_blocked r)) ?a = 0" by (simp add: held_def count_list_0_iff)
  then have "\<forall>b. node_count r1 b = count_list (refs (rep_blocked r1) @ [?a]) b"
    using rep_okD(1) [OF ok] by (simp add: r1_def)
  note e = block_deps_effect [OF this r2_def [symmetric]]
  have h: "held [?a] r2 = insert ?a (held [] r)" using e by (auto simp: held_def r1_def)
  have old: "\<exists>ds. dependencies (node_val r2 b) = Some ds \<and>
      (\<forall>loc \<in> set ds. within (rep_horizon r2) loc \<or> blocked_at loc (rep_blocked r2) b)" if b: "b \<in> held [] r" for b
  proof -
    from rep_ok_node [OF ok b] obtain ds where "dependencies (node_val r b) = Some ds"
      "\<And>loc. loc \<in> set ds \<Longrightarrow> within (rep_horizon r) loc \<or> blocked_at loc (rep_blocked r) b" by blast
    moreover have "node_val r2 b = node_val r b" using b fresh e by (auto simp: r1_def)
    moreover have "rep_horizon r2 = rep_horizon r" "rep_blocked r1 = rep_blocked r" using e by (simp_all add: r1_def)
    ultimately show ?thesis using e by metis
  qed
  have new: "node_val r2 ?a = p" "node_next r2 = Suc ?a" "rep_horizon r2 = rep_horizon r" "to_local_log r2 = to_local_log r"
    "\<forall>loc \<in> set deps. within (rep_horizon r) loc \<or> blocked_at loc (rep_blocked r2) ?a"
    and cnt: "\<forall>b. node_count r2 b = count_list (refs (rep_blocked r2) @ [?a]) b" using e by (simp_all add: r1_def)
  have "\<forall>b \<in> held [] r. b < Suc ?a" using rep_okD(2) [OF ok] by (simp add: less_Suc_eq)
  then have "rep_ok [?a] r2"
    using old rep_okD(3) [OF ok] cnt deps new unfolding rep_ok_def h ball_simps(7) by simp
  moreover have "image_mset (node_val r2) (mset_set (held [] r)) = image_mset (node_val r) (mset_set (held [] r))"
    using e fresh by (intro image_mset_cong) (auto simp: r1_def)
  then have "content [?a] r2 = add_mset p (content [] r)" using fresh new unfolding content_def h by simp
  ultimately show ?thesis using release_ok [OF _ rel [folded r2_def]] new(3) by simp
qed

lemma rep_ok_fields:
  assumes "rep_ok as r" "rep_horizon r' = rep_horizon r" "rep_blocked r' = rep_blocked r" "node_val r' = node_val r"
    "node_count r' = node_count r" "node_next r' = node_next r" "to_local_log r' = to_local_log r"
  shows "rep_ok as r' \<and> content as r' = content as r"
  using assms by (simp add: rep_ok_def content_def held_def)

lemma send_remote_ok:
  assumes "rep_ok as r" "send_remote r m = Some r'"
  shows "rep_ok as r' \<and> content as r' = content as r \<and> rep_horizon r' = rep_horizon r"
  using assms rep_ok_fields [OF assms(1), of r'] by (auto simp: send_remote_def rust_simps)

lemma copy_entry_ok:
  assumes ok: "rep_ok [] r" and res: "copy_entry r p = Some r'"
  shows "rep_ok [] r' \<and> content [] r' = add_mset (the (flag_mut p (\<lambda>f. bits_insert f fDirectWrite))) (content [] r) \<and>
    rep_horizon r' = rep_horizon r"
proof -
  from res obtain p' ds r1 where p': "flag_mut p (\<lambda>f. bits_insert f fDirectWrite) = Some p'" "dependencies p' = Some ds"
    and r1: "(if list_all (within (rep_horizon r)) ds then appender_append r p' else block_node r p') = Some r1"
    and s: "send_remote r1 (ReturnBuffer p') = Some r'"
    by (auto simp: copy_entry_def rust_simps)
  have "rep_ok [] r1 \<and> content [] r1 = add_mset p' (content [] r) \<and> rep_horizon r1 = rep_horizon r"
  proof (cases "list_all (within (rep_horizon r)) ds")
    case True
    then have "behind_deps (rep_horizon r) p'" using p'(2) by (auto simp: behind_deps_def list_all_iff)
    then show ?thesis
      using True r1 ok by (auto simp: appender_append_eq rep_ok_def content_def held_def)
  qed (use block_node_ok [OF ok] r1 in auto)
  then show ?thesis using send_remote_ok [OF _ s, of "[]"] p'(1) by simp
qed

lemma after_write_ack_ok:
  assumes ok: "rep_ok [] r" and res: "after_write_ack r loc = Some r'"
  shows "rep_ok [] r' \<and> content [] r' = content [] r \<and>
    rep_horizon r' = (rep_horizon r)(fst loc \<mapsto> (case rep_horizon r (fst loc) of None \<Rightarrow> snd loc | Some h \<Rightarrow> max h (snd loc)))"
proof -
  obtain q bs where tb: "take_blocked loc (rep_blocked r) = (q, bs)" by (cases "take_blocked loc (rep_blocked r)")
  define hz where "hz = (rep_horizon r)(fst loc \<mapsto> (case rep_horizon r (fst loc) of None \<Rightarrow> snd loc | Some h \<Rightarrow> max h (snd loc)))"
  define r1 where "r1 = r\<lparr>rep_horizon := hz, rep_blocked := bs\<rparr>"
  have rel: "release r1 q = Some r'" using res tb by (simp add: after_write_ack_def r1_def hz_def Let_def)
  note m = take_blocked_refs [OF tb]
  have h: "held q r1 = held [] r" using arg_cong [OF m, of set_mset] by (simp add: held_def r1_def)
  have up: "within hz k" if "within (rep_horizon r) k" for k
    by (rule within_mono [OF that]) (auto simp: hz_def)
  have now: "within hz loc" by (simp add: within_def hz_def split: option.split)
  have app: "behind_deps hz p" if "p \<in> set (append_packets (to_local_log r))" for p
    using behind_deps_mono [OF rep_okD(3) [OF ok that] up] .
  have deps: "\<exists>ds. dependencies (node_val r b) = Some ds \<and> (\<forall>k \<in> set ds. within hz k \<or> blocked_at k bs b)"
    if b: "b \<in> held [] r" for b
    using rep_ok_node [OF ok b] up now take_blocked_other [OF tb, of _ b] by metis
  have "rep_ok q r1"
    using rep_okD(1,2) [OF ok] deps m app unfolding rep_ok_def h by (simp add: r1_def count_list_mset)
  moreover have "content q r1 = content [] r" using h by (simp add: content_def r1_def)
  ultimately show ?thesis using release_ok [OF _ rel] by (simp add: r1_def hz_def)
qed

text \<open>The horizon of a chain is an index that was acknowledged.\<close>

definition rep_inv :: "response list \<Rightarrow> replicator \<Rightarrow> bool" where
  "rep_inv ms r \<longleftrightarrow> rep_ok [] r \<and> content [] r = mset (received ms) \<and>
     (\<forall>chain h. rep_horizon r chain = Some h \<longrightarrow> (chain, h) \<in> set (acked ms))"

lemma acked_append [simp]: "acked (xs @ ys) = acked xs @ acked ys"
  by (induction xs rule: acked.induct) auto

lemma received_append [simp]: "received (xs @ ys) = received xs @ received ys"
  by (induction xs rule: received.induct) auto

lemma after_write_acks_ok:
  "rep_ok [] r \<Longrightarrow> after_write_acks r locs = Some r' \<Longrightarrow>
   rep_ok [] r' \<and> content [] r' = content [] r \<and>
   (\<forall>chain h. rep_horizon r' chain = Some h \<longrightarrow> rep_horizon r chain = Some h \<or> (chain, h) \<in> set locs)"
proof (induction locs arbitrary: r)
  case (Cons loc locs)
  then obtain r1 where r1: "after_write_ack r loc = Some r1" "after_write_acks r1 locs = Some r'"
    by (auto simp: rust_simps)
  note a = after_write_ack_ok [OF Cons.prems(1) r1(1)]
  have "rep_horizon r1 chain = Some h \<Longrightarrow> rep_horizon r chain = Some h \<or> (chain, h) = loc" for chain h
    using a by (cases loc) (auto simp: max_def split: if_splits option.splits)
  moreover have "rep_ok [] r1" "content [] r1 = content [] r" using a by simp_all
  ultimately show ?case using Cons.IH [OF _ r1(2)] by (metis list.set_intros)
qed simp

lemma re_snapshot_ok:
  assumes "rep_ok [] r" "re_snapshot r c = Some r'"
  shows "rep_ok [] r' \<and> content [] r' = content [] r \<and> rep_horizon r' = rep_horizon r"
proof -
  from assms(2) obtain r1 n where r1: "send_remote r (SnapshotAndPrefetch c) = Some r1" "r' = r1\<lparr>rep_snapshots := n\<rparr>"
    by (auto simp: re_snapshot_def rust_simps)
  then show ?thesis using send_remote_ok [OF assms(1) r1(1)] rep_ok_fields [of "[]" r1 r'] by simp
qed

lemma handle_response_inv:
  assumes inv: "rep_inv ms r" and res: "handle_response r m = Some (d, r')"
  shows "rep_inv (ms @ [m]) r'"
proof -
  from inv have ok: "rep_ok [] r" and c: "content [] r = mset (received ms)"
    and hz: "\<And>chain h. rep_horizon r chain = Some h \<Longrightarrow> (chain, h) \<in> set (acked ms)" by (auto simp: rep_inv_def)
  show ?thesis
  proof (cases m)
    case (RespRead p)
    show ?thesis
    proof (cases "pkt_layout p = Some LData \<or> pkt_layout p = Some LMultiput")
      case True
      then have "copy_entry r p = Some r'" using res RespRead by (auto simp: handle_response_def rust_simps)
      from copy_entry_ok [OF ok this] show ?thesis using True c hz RespRead by (simp add: rep_inv_def)
    next
      case False
      then obtain r1 c' where "re_snapshot r c' = Some r1" "send_remote r1 (ReturnBuffer p) = Some r'"
        using res RespRead by (auto simp: handle_response_def rust_simps split: if_splits)
      then have "rep_ok [] r' \<and> content [] r' = content [] r \<and> rep_horizon r' = rep_horizon r"
        using re_snapshot_ok [OF ok] send_remote_ok [of "[]" r1] by metis
      then show ?thesis using False c hz RespRead by (simp add: rep_inv_def)
    qed
  next
    case RespDone
    then have "\<exists>n. r' = r\<lparr>rep_snapshots := n\<rparr>" using res by (auto simp: handle_response_def finished_snapshot_def rust_simps)
    then show ?thesis using rep_ok_fields [OF ok, of r'] c hz RespDone by (auto simp: rep_inv_def)
  next
    case (RespWrote i locs)
    then obtain r1 where r1: "got_append r = Some r1" "after_write_acks r1 locs = Some r'"
      using res by (auto simp: handle_response_def rust_simps)
    then have same: "rep_ok [] r1 \<and> content [] r1 = content [] r" "rep_horizon r1 = rep_horizon r"
      using rep_ok_fields [OF ok, of r1] by (auto simp: got_append_def rust_simps)
    have "rep_ok [] r' \<and> content [] r' = content [] r"
      and "\<And>chain h. rep_horizon r' chain = Some h \<Longrightarrow> rep_horizon r chain = Some h \<or> (chain, h) \<in> set locs"
      using after_write_acks_ok [OF _ r1(2)] same by (metis, metis)
    then show ?thesis using c hz RespWrote by (auto simp: rep_inv_def)
  next
    case (RespErr e)
    then show ?thesis using res inv by (simp add: handle_response_def rep_inv_def)
  qed
qed

lemma rep_messages_inv:
  "rep_inv ms r \<Longrightarrow> rep_messages r ms' = Some r' \<Longrightarrow> rep_inv (ms @ ms') r'"
proof (induction ms' arbitrary: ms r)
  case (Cons m ms')
  then obtain d r1 r2 where r1: "handle_response r m = Some (d, r1)"
    and r2: "(if d then snapshot_remote r1 else Some r1) = Some r2" and rest: "rep_messages r2 ms' = Some r'"
    by (auto simp: rust_simps)
  have i: "rep_inv (ms @ [m]) r1" using handle_response_inv [OF Cons.prems(1) r1] .
  then have "rep_inv (ms @ [m]) r2"
    using r2 re_snapshot_ok [of r1 0 r2] by (auto simp: rep_inv_def snapshot_remote_def split: if_splits)
  then show ?case using Cons.IH [OF _ rest, of "ms @ [m]"] by simp
qed simp

lemma rep_inv_new: "rep_inv [] replicator_new"
  by (simp add: rep_inv_def rep_ok_def content_def held_def refs_def replicator_new_def)

section \<open>Nothing waits without a reason\<close>

text \<open>What is acknowledged is within the horizon, and a node is blocked only on dependencies of its entry that are
  not acknowledged.\<close>

definition waiting :: "order_index set \<Rightarrow> replicator \<Rightarrow> bool" where
  "waiting A r \<longleftrightarrow> distinct (map fst (rep_blocked r)) \<and> (\<forall>k \<in> A. within (rep_horizon r) k) \<and>
     (\<forall>k a. blocked_at k (rep_blocked r) a \<longrightarrow> k \<notin> A \<and> (\<exists>ds. dependencies (node_val r a) = Some ds \<and> k \<in> set ds))"

lemma waiting_fields:
  "waiting A r \<Longrightarrow> rep_horizon r' = rep_horizon r \<Longrightarrow> rep_blocked r' = rep_blocked r \<Longrightarrow> node_val r' = node_val r \<Longrightarrow>
   waiting A r'"
  by (simp add: waiting_def)

lemma block_on_keys: "fst ` set (block_on k a bs) = insert k (fst ` set bs)"
  by (induction k a bs rule: block_on.induct) auto

lemma block_on_distinct: "distinct (map fst bs) \<Longrightarrow> distinct (map fst (block_on k a bs))"
  by (induction k a bs rule: block_on.induct) (auto simp: block_on_keys)

lemma take_blocked_subset: "take_blocked k bs = (q, bs') \<Longrightarrow> set bs' \<subseteq> set bs"
  by (induction k bs arbitrary: q bs' rule: take_blocked.induct) (force split: if_splits prod.splits)+

lemma take_blocked_distinct:
  "take_blocked k bs = (q, bs') \<Longrightarrow> distinct (map fst bs) \<Longrightarrow> distinct (map fst bs') \<and> k \<notin> fst ` set bs'"
proof (induction k bs arbitrary: q bs' rule: take_blocked.induct)
  case (2 k k' q' bs)
  show ?case
  proof (cases "k = k'")
    case False
    obtain q1 bs1 where b: "take_blocked k bs = (q1, bs1)" by fastforce
    then show ?thesis using 2 False image_mono [OF take_blocked_subset [OF b], of fst] by auto
  qed (use 2 in auto)
qed simp

lemma release_same:
  "release r as = Some r' \<Longrightarrow> rep_horizon r' = rep_horizon r \<and> rep_blocked r' = rep_blocked r \<and> node_val r' = node_val r"
proof (induction as arbitrary: r)
  case (Cons a as)
  then obtain r1 where "release r1 as = Some r'" "rep_horizon r1 = rep_horizon r \<and> rep_blocked r1 = rep_blocked r \<and> node_val r1 = node_val r"
    by (auto simp: Let_def rust_simps appender_append_eq split: if_splits)
  then show ?case using Cons.IH by simp
qed simp

lemma block_deps_waiting:
  "waiting A r \<Longrightarrow> dependencies (node_val r a) = Some ds \<Longrightarrow> set deps \<subseteq> set ds \<Longrightarrow> waiting A (block_deps r a deps)"
proof (induction r a deps rule: block_deps.induct)
  case (2 r a loc deps)
  show ?case
  proof (cases "within (rep_horizon r) loc")
    case False
    then have "loc \<notin> A" using 2(2) by (auto simp: waiting_def)
    then have "waiting A (r\<lparr>rep_blocked := block_on loc a (rep_blocked r), node_count := (node_count r)(a := node_count r a + 1)\<rparr>)"
      using 2(2-4) by (simp add: waiting_def block_on_distinct block_on_blocked)
    then show ?thesis using "2.IH" 2(3,4) False by simp
  qed (use 2 in simp)
qed simp

lemma block_node_waiting:
  assumes ok: "rep_ok [] r" and w: "waiting A r" and res: "block_node r p = Some r'"
  shows "waiting A r'"
proof -
  let ?a = "node_next r"
  define r1 where "r1 = r\<lparr>node_val := (node_val r)(?a := p), node_count := (node_count r)(?a := 1), node_next := Suc ?a\<rparr>"
  obtain deps where deps: "dependencies p = Some deps" and rel: "release (block_deps r1 ?a deps) [?a] = Some r'"
    using res by (auto simp: block_node_def r1_def Let_def rust_simps simp del: release.simps)
  have "blocked_at k (rep_blocked r) a \<Longrightarrow> a \<noteq> ?a" for k a
    using rep_okD(2) [OF ok, of a] blocked_at_refs [of k] by (auto simp: held_def)
  then have "waiting A r1" using w by (simp add: waiting_def r1_def)
  then have "waiting A (block_deps r1 ?a deps)" using deps by (intro block_deps_waiting) (auto simp: r1_def)
  then show ?thesis using waiting_fields release_same [OF rel] by blast
qed

lemma copy_entry_waiting:
  assumes "rep_ok [] r" "waiting A r" "copy_entry r p = Some r'"
  shows "waiting A r'"
proof -
  from assms(3) obtain p' ds r1 where
    r1: "(if list_all (within (rep_horizon r)) ds then appender_append r p' else block_node r p') = Some r1"
    and s: "send_remote r1 (ReturnBuffer p') = Some r'"
    by (auto simp: copy_entry_def rust_simps)
  have "waiting A r1"
    using r1 block_node_waiting [OF assms(1,2)] waiting_fields [OF assms(2), of r1]
    by (auto simp: appender_append_eq split: if_splits)
  then show ?thesis using waiting_fields [of A r1 r'] s by (auto simp: send_remote_def rust_simps)
qed

lemma after_write_ack_waiting:
  assumes w: "waiting A r" and res: "after_write_ack r loc = Some r'"
  shows "waiting (insert loc A) r'"
proof -
  obtain q bs where tb: "take_blocked loc (rep_blocked r) = (q, bs)" by (cases "take_blocked loc (rep_blocked r)")
  define hz where "hz = (rep_horizon r)(fst loc \<mapsto> (case rep_horizon r (fst loc) of None \<Rightarrow> snd loc | Some h \<Rightarrow> max h (snd loc)))"
  define r1 where "r1 = r\<lparr>rep_horizon := hz, rep_blocked := bs\<rparr>"
  have rel: "release r1 q = Some r'" using res tb by (simp add: after_write_ack_def r1_def hz_def Let_def)
  have up: "within hz k" if "within (rep_horizon r) k" for k
    by (rule within_mono [OF that]) (auto simp: hz_def)
  have now: "within hz loc" by (simp add: within_def hz_def split: option.split)
  have d: "distinct (map fst bs)" "\<not> blocked_at loc bs a" for a
    using take_blocked_distinct [OF tb] w by (auto simp: waiting_def blocked_at_def image_iff)
  have "waiting (insert loc A) r1"
    using w up now d take_blocked_other [OF tb] unfolding waiting_def r1_def by (simp, metis)
  then show ?thesis using waiting_fields release_same [OF rel] by blast
qed

lemma after_write_acks_waiting:
  "waiting A r \<Longrightarrow> after_write_acks r locs = Some r' \<Longrightarrow> waiting (set locs \<union> A) r'"
proof (induction locs arbitrary: r A)
  case (Cons loc locs)
  then obtain r1 where "after_write_ack r loc = Some r1" "after_write_acks r1 locs = Some r'" by (auto simp: rust_simps)
  then have "waiting (set locs \<union> insert loc A) r'" using Cons after_write_ack_waiting by blast
  then show ?case by simp
qed simp

lemma handle_response_waiting:
  assumes inv: "rep_inv ms r" and w: "waiting (set (acked ms)) r" and res: "handle_response r m = Some (d, r')"
  shows "waiting (set (acked (ms @ [m]))) r'"
proof -
  from inv have ok: "rep_ok [] r" by (simp add: rep_inv_def)
  show ?thesis
  proof (cases m)
    case (RespRead p)
    then have "copy_entry r p = Some r' \<or>
        rep_horizon r' = rep_horizon r \<and> rep_blocked r' = rep_blocked r \<and> node_val r' = node_val r"
      using res by (auto simp: handle_response_def re_snapshot_def send_remote_def rust_simps split: if_splits)
    then show ?thesis using copy_entry_waiting [OF ok w] waiting_fields [OF w, of r'] RespRead by auto
  next
    case (RespWrote i locs)
    then obtain r1 where r1: "got_append r = Some r1" "after_write_acks r1 locs = Some r'"
      using res by (auto simp: handle_response_def rust_simps)
    then have "waiting (set (acked ms)) r1"
      using waiting_fields [OF w, of r1] by (auto simp: got_append_def rust_simps)
    from after_write_acks_waiting [OF this r1(2)] show ?thesis using RespWrote by (simp add: Un_commute)
  qed (use res waiting_fields [OF w, of r'] in \<open>auto simp: handle_response_def finished_snapshot_def rust_simps\<close>)
qed

lemma rep_messages_waiting:
  "rep_inv ms r \<Longrightarrow> waiting (set (acked ms)) r \<Longrightarrow> rep_messages r ms' = Some r' \<Longrightarrow> waiting (set (acked (ms @ ms'))) r'"
proof (induction ms' arbitrary: ms r)
  case (Cons m ms')
  then obtain d r1 r2 where r1: "handle_response r m = Some (d, r1)"
    and r2: "(if d then snapshot_remote r1 else Some r1) = Some r2" and rest: "rep_messages r2 ms' = Some r'"
    by (auto simp: rust_simps)
  have "rep_inv (ms @ [m]) r2"
    using rep_messages_inv [OF Cons.prems(1), of "[m]" r2] r1 r2 by simp
  moreover have "waiting (set (acked (ms @ [m]))) r2"
    using handle_response_waiting [OF Cons.prems(1,2) r1] waiting_fields [of _ r1 r2] r2
    by (auto simp: snapshot_remote_def re_snapshot_def send_remote_def rust_simps split: if_splits)
  ultimately show ?case using Cons.IH [OF _ _ rest, of "ms @ [m]"] by simp
qed simp

lemma replicator_run_inv:
  assumes "replicator_run replicator_new ms = Some r"
  shows "rep_inv ms r" "waiting (set (acked ms)) r"
proof -
  from assms obtain r0 where r0: "re_snapshot replicator_new 0 = Some r0" "rep_messages r0 ms = Some r"
    by (auto simp: replicator_run_def snapshot_remote_def rust_simps)
  have i: "rep_inv [] r0" using re_snapshot_ok [OF _ r0(1)] rep_inv_new by (simp add: rep_inv_def)
  moreover have "waiting {} replicator_new" by (simp add: waiting_def replicator_new_def blocked_at_def)
  then have "waiting (set (acked [])) r0"
    using waiting_fields [of "{}" replicator_new r0] r0(1) by (auto simp: re_snapshot_def send_remote_def rust_simps)
  ultimately show "rep_inv ms r" "waiting (set (acked ms)) r"
    using rep_messages_inv [OF _ r0(2)] rep_messages_waiting [OF _ _ r0(2)] by fastforce+
qed

text \<open>C12: whatever the logs send, in whatever order, the replicator appends an entry only when for each of its
  dependencies this or a later index of the chain is acknowledged; what it has appended and what it holds back
  are together exactly the entries it has read; and every entry it holds back has a dependency that is not
  acknowledged.\<close>

theorem replicator_causal:
  assumes "replicator_run replicator_new ms = Some r"
  shows "(\<forall>p \<in> set (append_packets (to_local_log r)). \<exists>ds. dependencies p = Some ds \<and>
      (\<forall>loc \<in> set ds. \<exists>j \<ge> snd loc. (fst loc, j) \<in> set (acked ms))) \<and>
    mset (append_packets (to_local_log r)) + image_mset (node_val r) (mset_set (set (refs (rep_blocked r)))) =
      mset (received ms) \<and>
    (\<forall>a \<in> set (refs (rep_blocked r)). \<exists>ds loc. dependencies (node_val r a) = Some ds \<and> loc \<in> set ds \<and>
      loc \<notin> set (acked ms))"
proof (intro conjI ballI)
  note i = replicator_run_inv [OF assms]
  fix p assume "p \<in> set (append_packets (to_local_log r))"
  then have "behind_deps (rep_horizon r) p" using i(1) rep_okD(3) by (auto simp: rep_inv_def)
  moreover have "\<exists>j \<ge> snd loc. (fst loc, j) \<in> set (acked ms)" if "within (rep_horizon r) loc" for loc
    using i(1) that by (auto simp: rep_inv_def within_def split: option.splits)
  ultimately show "\<exists>ds. dependencies p = Some ds \<and> (\<forall>loc \<in> set ds. \<exists>j \<ge> snd loc. (fst loc, j) \<in> set (acked ms))"
    unfolding behind_deps_def by blast
next
  show "mset (append_packets (to_local_log r)) + image_mset (node_val r) (mset_set (set (refs (rep_blocked r)))) =
      mset (received ms)"
    using replicator_run_inv(1) [OF assms] by (simp add: rep_inv_def content_def held_def)
next
  fix a assume "a \<in> set (refs (rep_blocked r))"
  then obtain k where "blocked_at k (rep_blocked r) a" using refs_blocked_at by blast
  then show "\<exists>ds loc. dependencies (node_val r a) = Some ds \<and> loc \<in> set ds \<and> loc \<notin> set (acked ms)"
    using replicator_run_inv(2) [OF assms] unfolding waiting_def by blast
qed

definition copy_demo :: "response list" where
  "copy_demo = [RespRead (PSingle 1 0 (1, 1) [(2, 1)] [] 0), RespRead (PSingle 2 0 (2, 1) [] [] 0),
     RespRead (PSingle 3 0 (1, 2) [(5, 4), (2, 1)] [] 0), RespWrote 2 [(2, 1)]]"

lemma copy_demo_run:
  "\<exists>r. replicator_run replicator_new copy_demo = Some r \<and>
     append_packets (to_local_log r) = [PSingle 2 64 (2, 1) [] [] 0, PSingle 1 64 (1, 1) [(2, 1)] [] 0] \<and>
     refs (rep_blocked r) = [1] \<and> node_val r 1 = PSingle 3 64 (1, 2) [(5, 4), (2, 1)] [] 0"
  by (simp add: copy_demo_def replicator_run_def replicator_new_def snapshot_remote_def re_snapshot_def send_remote_def
      u64_add_def u64_sub_def u64_max_def handle_response_def pkt_layout_def kind_layout_def kind_values copy_entry_def
      bits_insert_def fDirectWrite_def within_def block_node_def appender_append_def got_append_def
      after_write_ack_def refs_def Let_def)

theorem replicator_causal_witness:
  "\<exists>r. replicator_run replicator_new copy_demo = Some r \<and>
     append_packets (to_local_log r) = [PSingle 2 64 (2, 1) [] [] 0, PSingle 1 64 (1, 1) [(2, 1)] [] 0] \<and>
     mset (received copy_demo) = {#PSingle 2 64 (2, 1) [] [] 0, PSingle 1 64 (1, 1) [(2, 1)] [] 0,
       PSingle 3 64 (1, 2) [(5, 4), (2, 1)] [] 0#}"
proof -
  obtain r where r: "replicator_run replicator_new copy_demo = Some r"
    "append_packets (to_local_log r) = [PSingle 2 64 (2, 1) [] [] 0, PSingle 1 64 (1, 1) [(2, 1)] [] 0]"
    "refs (rep_blocked r) = [1]" "node_val r 1 = PSingle 3 64 (1, 2) [(5, 4), (2, 1)] [] 0"
    using copy_demo_run by blast
  from replicator_causal [OF r(1)] have "mset (received copy_demo) =
      mset (append_packets (to_local_log r)) + image_mset (node_val r) (mset_set (set (refs (rep_blocked r))))" by simp
  then show ?thesis using r by (auto simp: add_mset_commute)
qed

end
