(* ===== verification/Spec2Isabelle.thy ===== *)
theory Spec2Isabelle
  imports Replication Server_Rep Chain_Order Or_Set Client_Snapshot Client_Replicator
begin

text \<open>
  A verification development of the FuzzyLog (the Rust workspace under \<^verbatim>\<open>src/\<close>), a shared log that is
  partially ordered: entries live on chains, an entry may lie on several chains and may depend on entries of
  others, and Skeen's protocol puts entries that share chains on different servers into one order.

  \<^bold>\<open>The parts and how they work together.\<close> An application calls a handle
  (\<^verbatim>\<open>fuzzy_log_client/src/fuzzy_log/log_handle.rs\<close>). The handle talks to the log thread
  (\<^verbatim>\<open>fuzzy_log/mod.rs\<close>), which turns snapshots into reads, holds back what is read until it may be seen, and
  keeps for each chain a \<open>PerColor\<close> (\<^verbatim>\<open>per_color.rs\<close>) with a tree of ranges (\<^verbatim>\<open>range_tree.rs\<close>). The log thread
  sends requests to the store (\<^verbatim>\<open>store.rs\<close>), which picks the server of each chain and is the client of Skeen's
  protocol. Requests travel as packets (\<^verbatim>\<open>fuzzy_log_packets/src/lib.rs\<close>, generated by \<^verbatim>\<open>packet-macro2\<close>). A
  server's ordering thread (\<^verbatim>\<open>fuzzy_log_server/src/ordering_thread.rs\<close>) keeps for each chain Skeen's queue
  (\<^verbatim>\<open>skeens.rs\<close>, on \<^verbatim>\<open>fuzzy_log_util/src/hash_deque_map.rs\<close>), the trie of its entries (\<^verbatim>\<open>trie.rs\<close>) and the memory of
  their bytes (\<^verbatim>\<open>byte_trie.rs\<close>), gives out indices and places, and leaves copying, publishing and answering to
  the workers (\<^verbatim>\<open>worker_thread.rs\<close>). A replica is fed by the ordering thread of the server before it.

  \<^bold>\<open>How the code is modelled.\<close> A panic is \<open>None\<close>, and so is a wait that never ends; the profile is \<^verbatim>\<open>dev\<close>, so
  \<^verbatim>\<open>debug_assert!\<close> is checked and overflow panics (\<open>u64_add\<close>, \<open>u64_sub\<close>). \<open>Result\<close> is a sum with the error on the
  left. Integers are \<open>nat\<close> with their bound written out, bytes are \<open>8 word\<close>. Mutable state is a record that is
  passed on; raw pointers are addresses in an explicit memory; channels are lists of what was sent. The theory
  \<open>Prelude\<close> holds this base and the lemmas on it.

  \<^bold>\<open>Server.\<close>
  \<^item> \<open>Binary_Heap\<close>: \<open>BinaryHeap\<close> as the source uses it, behind the locale \<open>cmp_heap\<close>. \<open>Vec_Deque_Map\<close>,
    \<open>Hash_Deque_Map\<close>: the two maps called \<open>VecDequeMap\<close>, behind the locale \<open>indexed_queue\<close>; the crate compiles
    the second, and Skeen's queue is that one.
  \<^item> \<open>Skeens_Types\<close>, \<open>Skeens\<close>: the messages and every method of \<open>SkeensState\<close>;
    \<open>Skeens_Inv\<close>, \<open>Skeens_Trace\<close>: their invariant and runs: what is delivered, in which order, that nothing is lost
    or delivered twice, that everything is delivered when nobody waits, that legal requests are answered, and
    that two chains agree on what they share.
  \<^item> \<open>Trie\<close>, \<open>Trie_Append\<close>: tables as a store of segments and the shortcuts into it; appending and inserting refine
    a list of entries. \<open>Byte_Trie\<close>: the allocator; reservations never overlap. \<open>Chain_GC\<close>: garbage collection, with
    \<open>walk\<close> as its loops over the levels; it is modelled for the handler that calls it and no property of it is
    stated.
  \<^item> \<open>Server_Types\<close>, \<open>Ordering\<close>, \<open>Ordering_Handlers\<close>, \<open>Replication\<close>: the state of a server and one definition for each
    handler, on a primary and on a replica. \<open>Worker\<close>: every message of \<open>ToWorker\<close>.
  \<^item> \<open>Chain_Run\<close>, \<open>Chain_Store\<close>, \<open>Server_Rep\<close>, \<open>Chain_Order\<close>: runs of a chain, the relation between a chain and the
    entries it stores, that appends reserve, workers publish and reads return the bytes of an entry, and that
    two chains place what they share in the same order by index.

  \<^bold>\<open>Packets.\<close> \<open>Packet_Codec\<close>: the functions the macro generates, with the schema as data; \<open>Packets\<close>: the fourteen
  packets and their accessors; \<open>Packet_Wire\<close>: their schemas. The lemmas are round trips, that writing into a
  slice is writing a vector, what a partial packet gives, that the search for a packet ends, and what re-tagging
  bytes in place does.

  \<^bold>\<open>Client.\<close>
  \<^item> \<open>Client_Ranges\<close>, \<open>Client_Ranges_Inv\<close>: the range tree; its operations refine a map from indices to their status.
  \<^item> \<open>Client_Color\<close>, \<open>Client_Log\<close>: \<open>PerColor\<close> and the log thread with every message. \<open>Client_Order\<close>: what a chain
    promises the log is the locale \<open>returning\<close>; entries are handed over in order and once, in runs without a
    rewind and without multi-appends that are returned apart from their parts on other chains (\<open>msg_ok\<close>).
  \<^item> \<open>Client_Store\<close>, \<open>Client_Skeens\<close>: the store; the second phase of an append takes the maximum to every server, after
    the last answer. \<open>Client_Snapshot\<close>: what the store keeps and tells for a snapshot of several servers, and what
    the log thread waits for; this theory puts the two together: the answer ends no wait.
  \<^item> \<open>Client_Handle\<close>, \<open>Client_App\<close>: the handle, and what an application sees through it. \<open>Or_Set\<close>: the
    observed-remove set of \<^verbatim>\<open>examples/or_set\<close>, an application; its replicas converge.
  \<^item> \<open>Client_Replicator\<close>: the replicator (\<^verbatim>\<open>replicator.rs\<close>), which copies the chains of remote servers to local ones; it
    appends entries behind their dependencies, each of them once, and holds none back without a reason.

  \<^bold>\<open>Loops and bounds.\<close> Loops over data are structural recursion. \<open>move_ready\<close>, \<open>flush_got_max_timestamp\<close>,
  \<open>flush_replicas\<close>, \<open>remove_above\<close>, \<open>binary_search_base\<close> and \<open>do_sync_with\<close> are functions with termination proofs.
  Three loops are partial functions into \<open>option\<close>: \<open>unblock_rest\<close> of the log thread, which may run forever when
  chains order shared entries differently; \<open>delete_loop\<close> of garbage collection, which runs forever on an empty
  tree; and \<open>bt_append\<close>, whose recursion on the padding is shown to return. \<open>wrap_bytes\<close> reads a packet of unknown
  length with fuel \<open>2 ^ 64\<close>: every retry asks for more bytes, and a packet has fewer than that. A trie holds up to
  \<open>2 ^ 62\<close> entries, where the assertion of the code refuses the next (\<open>prep_append_panics_full\<close>); statements on the
  allocator assume two blocks of 8192 bytes left below \<open>2 ^ 63\<close>. Addresses from \<open>2 ^ 63\<close> on are
  reference-counted slices.

  \<^bold>\<open>Not modelled.\<close> Sockets, polling, threads and everything whose content is moving bytes between them: the TCP
  servers and their workers (\<^verbatim>\<open>fuzzy_log_server/src/tcp\<close>, \<^verbatim>\<open>tokio_server\<close>, \<^verbatim>\<open>servers\<close>), \<^verbatim>\<open>udp.rs\<close>, \<^verbatim>\<open>reactor\<close>, the
  lock-free queues \<^verbatim>\<open>spsc.rs\<close> and \<^verbatim>\<open>spmc.rs\<close>, and the buffers of \<^verbatim>\<open>fuzzy_log_packets\<close>; their effect on the parts above
  is the lists of messages. Relaxed memory: the threads of a server meet only at the messages and at the
  publishing store of a slot, and are interleaved at these. The
  parser of the macro, the C bindings in \<^verbatim>\<open>src/lib.rs\<close>, the views (\<^verbatim>\<open>fuzzy_views\<close>) and the other applications of \<^verbatim>\<open>examples\<close> are left out in
  favour of the log itself, as are programs that measure (\<^verbatim>\<open>benchers\<close>) and the parts of modelled files that only
  print.
\<close>

section \<open>Snapshots across servers\<close>

text \<open>C13: a strong snapshot of chains on several servers ends no wait of the log thread. After any requests and any
  messages, an answer to the second phase of a snapshot makes the store tell the log thread nothing but
  sentinels of the snapshot's id; and whatever state the log thread is in, unless a multi-append has the same
  id, it takes them for parts of a multi-append: if it handles them without a panic, it waits for as many
  snapshots on every chain as before.\<close>

theorem strong_snapshot_lost:
  assumes run: "store_run ((store_new n u)\<lparr>requests := rs\<rparr>) es = Some st"
    and phase2: "sent_writes st (pkt_id p) = Some (WSnapshotSkeens2 buf remaining m)"
    and answer: "store_handle_message st token p = Some st'" "pkt_flag p = Some f" "bits_contains f fReadSuccess"
  shows "\<exists>ms. to_client st' = to_client st @ ms \<and> list_all (sentinel_read (pkt_id p)) ms \<and>
    (\<forall>l l' i. blocked_multiappends l (pkt_id p) = None \<and> log_run l (map (\<lambda>msg. (i, FromStore msg)) ms) = Some l' \<longrightarrow> snaps l' = snaps l)"
proof -
  obtain ms where ms: "to_client st' = to_client st @ ms" "list_all (sentinel_read (pkt_id p)) ms"
    using snapshot_answer_sentinels [OF store_run_ok [OF run store_new_ok] phase2 answer] by blast
  have "snaps l' = snaps l" if "blocked_multiappends l (pkt_id p) = None" "log_run l (map (\<lambda>msg. (i, FromStore msg)) ms) = Some l'" for l l' i
    using sentinels_wait [OF that(2) ms(2), of "snaps l" "blocked_multiappends l"] that(1) by (simp add: waits_def)
  then show ?thesis using ms by blast
qed

text \<open>The log thread asks for a snapshot of two chains, and both servers answer both phases: the log thread gets two
  sentinels, still waits for one snapshot of chain 1, has handed over nothing, and marked the last index of
  chain 1 as one to skip.\<close>

theorem strong_snapshot_lost_witness:
  "\<exists>l st st' l' pc. log_run (log_build [1, 2] False False False NoConnection None) [(7, FromClient (StrongSnapshotAndPrefetch [(1, 0), (2, 0)]))] = Some l \<and>
    store_run ((store_new 2 True)\<lparr>requests := map Some (to_store l)\<rparr>)
     [StorePoll, StoreRecv 1 (PSnapshot 7 15 0 0 0 [(1, 5), (2, 0)]), StoreRecv 0 (PSnapshot 7 15 0 0 0 [(1, 0), (2, 9)]), StoreAfterWork,
      StoreRecv 1 (PSnapshot 7 15 0 0 9 [(1, 3), (2, 0)])] = Some st \<and>
    store_handle_message st 0 (PSnapshot 7 15 0 0 9 [(1, 0), (2, 4)]) = Some st' \<and>
    log_run l (map (\<lambda>m. (0, FromStore m)) (to_client st')) = Some l' \<and> length (to_client st') = 2 \<and>
    snaps l 1 = 1 \<and> snaps l' = snaps l \<and>
    get_pc l' 1 = Some pc \<and> status (read_status pc) 3 = KSkip \<and> ready_reads l' = []"
proof -
  let ?p = "PSnapshot 7 15 0 0 9 [(1, 0), (2, 4)]" and ?e = "[StorePoll, StoreRecv 1 (PSnapshot 7 15 0 0 0 [(1, 5), (2, 0)]),
      StoreRecv 0 (PSnapshot 7 15 0 0 0 [(1, 0), (2, 9)]), StoreAfterWork, StoreRecv 1 (PSnapshot 7 15 0 0 9 [(1, 3), (2, 0)])]"
  obtain l st st' l' pc buf where
      l: "log_run (log_build [1, 2] False False False NoConnection None) [(7, FromClient (StrongSnapshotAndPrefetch [(1, 0), (2, 0)]))] = Some l"
      "blocked_multiappends l 7 = None" "snaps l 1 = 1"
    and st: "store_run ((store_new 2 True)\<lparr>requests := map Some (to_store l)\<rparr>) ?e = Some st"
      "sent_writes st 7 = Some (WSnapshotSkeens2 buf {0} 9)" "to_client st = []" "store_handle_message st 0 ?p = Some st'"
    and l': "log_run l (map (\<lambda>m. (0, FromStore m)) (to_client st')) = Some l'" "length (to_client st') = 2"
      "get_pc l' 1 = Some pc" "status (read_status pc) 3 = KSkip" "ready_reads l' = []"
    by (simp add: log_eval store_eval fetch_strong_snapshot_def add_early_sentinel_def mark_as_skippable_def set_point_as_skip_def
      snaps_def pc_snaps_def kind_at_def)
  have "snaps l' = snaps l"
    using strong_snapshot_lost [OF st(1) _ st(4), of buf "{0}" 9 15] st(2,3) l(2) l'(1) by (auto simp: fReadSuccess_def bits_contains_def)
  then show ?thesis using l st l' by blast
qed

end
